(* ===== verification/Prelude.thy ===== *)
theory Prelude
  imports Main "HOL-Library.Word"
begin

unbundle bit_operations_syntax

text \<open>
  Shared vocabulary of the development: the machine integers of the source (\<open>u8\<close> to \<open>u64\<close>,
  \<open>usize\<close> is 64 bits wide on the x86\_64 target), the pieces of the Rust standard library the
  modelled code calls (slices split into chunks, strings split at a character), and the
  generic lemmas on lists and words the component theories share. A Rust \<^verbatim>\<open>&str\<close>
  is a \<^typ>\<open>string\<close> whose characters are the UTF-8 bytes, a \<^verbatim>\<open>&[u8]\<close> is a list of
  \<open>u8\<close>.
\<close>

section \<open>Machine types\<close>

type_synonym u8 = "8 word"
type_synonym u16 = "16 word"
type_synonym u32 = "32 word"
type_synonym u64 = "64 word"

named_theorems word_to_nat \<open>moves a word equation to natural numbers\<close>
named_theorems inv_defs \<open>definitions of the component invariants\<close>

text \<open>The byte a character of a string stands for, and back.\<close>

definition char_byte :: "char \<Rightarrow> u8" where
  "char_byte c = word_of_nat (of_char c)"

definition byte_char :: "u8 \<Rightarrow> char" where
  "byte_char b = char_of (unat b)"

lemma unat_char_byte [simp, word_to_nat]: "unat (char_byte c) = of_char c"
  by (simp add: char_byte_def unat_of_nat)

lemma byte_char_char_byte [simp]: "byte_char (char_byte c) = c"
  by (simp add: byte_char_def)

lemma char_byte_byte_char [simp]: "char_byte (byte_char b) = b"
proof -
  have "unat b < 2 ^ LENGTH(8)" by (rule unsigned_less)
  then show ?thesis by (simp add: char_byte_def byte_char_def)
qed

lemma bit_u8_ge: "8 \<le> k \<Longrightarrow> \<not> bit (b :: u8) k"
  using bit_imp_le_length [of b k] by auto

section \<open>Slices and strings of the Rust standard library\<close>

text \<open>\<^verbatim>\<open>slice::chunks(n)\<close>: consecutive pieces of \<open>n\<close> elements, the last one may be shorter.\<close>

function chunks :: "nat \<Rightarrow> 'a list \<Rightarrow> 'a list list" where
  "chunks n xs = (if n = 0 \<or> xs = [] then [] else take n xs # chunks n (drop n xs))"
  by pat_completeness auto
termination
  by (relation "measure (\<lambda>(n, xs). length xs)") auto

declare chunks.simps [simp del]

lemma chunks_Nil [simp]: "chunks n [] = []"
  by (simp add: chunks.simps)

lemma concat_chunks: "0 < n \<Longrightarrow> concat (chunks n xs) = xs"
proof (induction n xs rule: chunks.induct)
  case (1 n xs)
  then show ?case by (cases "xs = []") (simp_all add: chunks.simps [of n xs])
qed

text \<open>
  \<^verbatim>\<open>str::is_char_boundary\<close> and \<^verbatim>\<open>str::get(i..j)\<close>: a byte \<open>0x80..0xBF\<close> continues a UTF-8 sequence.
\<close>

definition is_char_boundary :: "string \<Rightarrow> nat \<Rightarrow> bool" where
  "is_char_boundary s i \<longleftrightarrow> i = 0 \<or> i = length s \<or>
     (i < length s \<and> \<not> (0x80 \<le> (of_char (s ! i) :: nat) \<and> (of_char (s ! i) :: nat) < 0xC0))"

definition str_get :: "string \<Rightarrow> nat \<Rightarrow> nat \<Rightarrow> string option" where
  "str_get s i j =
     (if i \<le> j \<and> j \<le> length s \<and> is_char_boundary s i \<and> is_char_boundary s j
      then Some (take (j - i) (drop i s)) else None)"

text \<open>\<^verbatim>\<open>str::trim_end_matches(c)\<close>: every trailing \<open>c\<close> is removed.\<close>

definition trim_end_matches :: "char \<Rightarrow> string \<Rightarrow> string" where
  "trim_end_matches c s = rev (dropWhile (\<lambda>x. x = c) (rev s))"

lemma trim_end_matches_replicate:
  assumes "c \<notin> set s"
  shows "trim_end_matches c (s @ replicate k c) = s"
proof -
  have "dropWhile (\<lambda>x. x = c) (replicate k c @ ys) = dropWhile (\<lambda>x. x = c) ys" for ys
    by (induction k) auto
  moreover have "dropWhile (\<lambda>x. x = c) (rev s) = rev s"
    using assms by (metis (mono_tags, lifting) dropWhile_eq_self_iff hd_in_set set_rev)
  ultimately show ?thesis by (simp add: trim_end_matches_def)
qed

text \<open>
  \<^verbatim>\<open>char::to_digit\<close> and \<^verbatim>\<open>from_str_radix\<close> / \<^verbatim>\<open>str::parse\<close> of an unsigned type of the given width:
  a single leading \<open>+\<close> is accepted, the empty string and overflow are errors.
\<close>

definition to_digit :: "nat \<Rightarrow> char \<Rightarrow> nat option" where
  "to_digit radix c =
     (let k = of_char c;
          d = (if 48 \<le> k \<and> k \<le> 57 then k - 48
               else if 97 \<le> k \<and> k \<le> 122 then k - 97 + 10
               else if 65 \<le> k \<and> k \<le> 90 then k - 65 + 10 else radix)
      in if d < radix then Some d else None)"

fun digits_val :: "nat \<Rightarrow> nat \<Rightarrow> string \<Rightarrow> nat option" where
  "digits_val radix acc [] = Some acc"
| "digits_val radix acc (c # cs) =
     (case to_digit radix c of None \<Rightarrow> None | Some d \<Rightarrow> digits_val radix (acc * radix + d) cs)"

definition parse_unsigned :: "nat \<Rightarrow> nat \<Rightarrow> string \<Rightarrow> nat option" where
  "parse_unsigned bits radix s =
     (if s = [] then None
      else let ds = (if hd s = CHR ''+'' \<and> tl s \<noteq> [] then tl s else s)
           in case digits_val radix 0 ds of
                None \<Rightarrow> None
              | Some v \<Rightarrow> if v < 2 ^ bits then Some v else None)"

text \<open>Induction on lists read in groups of three and of four.\<close>

lemma list_induct_by3 [case_names Nil One Two Group]:
  "P [] \<Longrightarrow> (\<And>a. P [a]) \<Longrightarrow> (\<And>a b. P [a, b]) \<Longrightarrow> (\<And>a b c xs. P xs \<Longrightarrow> P (a # b # c # xs)) \<Longrightarrow> P xs"
  by induction_schema (pat_completeness, lexicographic_order)

lemma list_induct_by4 [case_names Nil One Two Three Group]:
  "P [] \<Longrightarrow> (\<And>a. P [a]) \<Longrightarrow> (\<And>a b. P [a, b]) \<Longrightarrow> (\<And>a b c. P [a, b, c]) \<Longrightarrow>
    (\<And>a b c d xs. P xs \<Longrightarrow> P (a # b # c # d # xs)) \<Longrightarrow> P xs"
  by induction_schema (pat_completeness, lexicographic_order)

lemma those_map_Some: "(\<And>x. x \<in> set xs \<Longrightarrow> f x = Some (g x)) \<Longrightarrow> those (map f xs) = Some (map g xs)"
  by (induction xs) auto

lemma find_SomeD: "find P xs = Some x \<Longrightarrow> x \<in> set xs \<and> P x"
  by (auto simp: find_Some_iff)

section \<open>Decimal numbers and splitting of strings\<close>

definition digit_char :: "nat \<Rightarrow> char" where
  "digit_char d = char_of (48 + d)"

text \<open>\<^verbatim>\<open>Display\<close> of an unsigned integer.\<close>

fun dec_str :: "nat \<Rightarrow> string" where
  "dec_str n = (if n < 10 then [digit_char n] else dec_str (n div 10) @ [digit_char (n mod 10)])"

declare dec_str.simps [simp del]

definition is_ascii_digit :: "char \<Rightarrow> bool" where
  "is_ascii_digit c \<longleftrightarrow> 48 \<le> (of_char c :: nat) \<and> (of_char c :: nat) \<le> 57"

lemma digit_char_code: "d < 10 \<Longrightarrow> of_char (digit_char d) = (48 + d :: nat)"
  by (simp add: digit_char_def)

lemma to_digit_digit_char [simp]: "d < 10 \<Longrightarrow> to_digit 10 (digit_char d) = Some d"
  by (simp add: to_digit_def digit_char_code)

lemma is_ascii_digit_digit_char [simp]: "d < 10 \<Longrightarrow> is_ascii_digit (digit_char d)"
  by (simp add: is_ascii_digit_def digit_char_code)

lemma digits_val_append:
  "digits_val r a (s @ t) = (case digits_val r a s of None \<Rightarrow> None | Some v \<Rightarrow> digits_val r v t)"
  by (induction s arbitrary: a) (auto split: option.splits)

lemma dec_str_not_Nil [simp]: "dec_str n \<noteq> []"
  by (subst dec_str.simps) simp

lemma dec_str_digits: "c \<in> set (dec_str n) \<Longrightarrow> is_ascii_digit c"
proof (induction n rule: dec_str.induct)
  case (1 n)
  then show ?case by (subst (asm) (2) dec_str.simps) (auto split: if_splits)
qed

lemma digits_val_dec_str: "digits_val 10 0 (dec_str n) = Some n"
proof (induction n rule: dec_str.induct)
  case (1 n)
  then show ?case by (subst dec_str.simps) (simp add: digits_val_append)
qed

lemma dec_str_no_plus: "hd (dec_str n) \<noteq> CHR ''+''"
  using dec_str_digits [of "hd (dec_str n)" n] by (auto simp: is_ascii_digit_def)

lemma parse_dec_str [simp]: "n < 2 ^ bits \<Longrightarrow> parse_unsigned bits 10 (dec_str n) = Some n"
  using dec_str_no_plus by (simp add: parse_unsigned_def digits_val_dec_str)

lemma length_dec_str: "n < 10 ^ k \<Longrightarrow> 0 < k \<Longrightarrow> length (dec_str n) \<le> k"
proof (induction n arbitrary: k rule: dec_str.induct)
  case (1 n)
  show ?case
  proof (cases "n < 10")
    case False
    then obtain k' where k: "k = Suc k'" "0 < k'"
      using "1.prems" by (cases k; cases "k - 1") auto
    then have "n div 10 < 10 ^ k'" using "1.prems"(1) by (simp add: less_mult_imp_div_less mult.commute)
    then show ?thesis using "1.IH" [OF False _ k(2)] False k(1) by (subst dec_str.simps) simp
  qed (use "1.prems" in \<open>subst dec_str.simps, simp\<close>)
qed

text \<open>\<^verbatim>\<open>str::split(c)\<close> and \<^verbatim>\<open>str::split_once\<close>.\<close>

fun split_on :: "char \<Rightarrow> string \<Rightarrow> string list" where
  "split_on c [] = [[]]"
| "split_on c (x # xs) =
     (if x = c then [] # split_on c xs
      else case split_on c xs of [] \<Rightarrow> [[x]] | p # ps \<Rightarrow> (x # p) # ps)"

lemma split_on_sep: "c \<notin> set a \<Longrightarrow> split_on c (a @ c # b) = a # split_on c b"
  by (induction a) auto

lemma split_on_last: "c \<notin> set a \<Longrightarrow> split_on c a = [a]"
  by (induction a) auto

definition split_once :: "(char \<Rightarrow> bool) \<Rightarrow> string \<Rightarrow> (string \<times> string) option" where
  "split_once P s =
     (let a = takeWhile (\<lambda>c. \<not> P c) s
      in if length a < length s then Some (a, drop (length a + 1) s) else None)"

lemma split_once_sep: "\<forall>x\<in>set a. \<not> P x \<Longrightarrow> P c \<Longrightarrow> split_once P (a @ c # b) = Some (a, b)"
  by (simp add: split_once_def takeWhile_append)

lemma split_once_none: "\<forall>x\<in>set a. \<not> P x \<Longrightarrow> split_once P a = None"
  by (simp add: split_once_def takeWhile_eq_all_conv [THEN iffD2])

section \<open>Little-endian encoding\<close>

text \<open>\<^verbatim>\<open>to_le_bytes\<close> of the first \<open>n\<close> bytes of a word and \<^verbatim>\<open>from_le_bytes\<close>.\<close>

definition to_le :: "nat \<Rightarrow> 'a::len word \<Rightarrow> u8 list" where
  "to_le n w = map (\<lambda>i. ucast (drop_bit (8 * i) w)) [0..<n]"

definition of_le :: "u8 list \<Rightarrow> 'a::len word" where
  "of_le bs = foldr (\<lambda>b acc. push_bit 8 acc OR ucast b) bs 0"

lemma length_to_le [simp]: "length (to_le n w) = n"
  by (simp add: to_le_def)

lemma nth_to_le [simp]: "i < n \<Longrightarrow> to_le n w ! i = ucast (drop_bit (8 * i) w)"
  by (simp add: to_le_def)

lemma of_le_simps [simp]: "of_le [] = 0" "of_le (b # bs) = push_bit 8 (of_le bs) OR ucast b"
  by (simp_all add: of_le_def)

lemma bit_of_le:
  "bit (of_le bs :: 'a::len word) i \<longleftrightarrow> i < LENGTH('a) \<and> i < 8 * length bs \<and> bit (bs ! (i div 8)) (i mod 8)"
proof (induction bs arbitrary: i)
  case (Cons b bs)
  show ?case
  proof (cases "i < 8")
    case True
    then show ?thesis by (auto simp: bit_simps)
  next
    case False
    then obtain j where i: "i = j + 8" by (metis add.commute le_add_diff_inverse not_less)
    have "bit (of_le (b # bs) :: 'a word) i \<longleftrightarrow> i < LENGTH('a) \<and> bit (of_le bs :: 'a word) j"
      using bit_u8_ge [of i b] False i by (auto simp: bit_simps)
    moreover have "(j + 8) div 8 = Suc (j div 8)" by simp
    ultimately show ?thesis using Cons.IH [of j] i by (auto simp del: of_le_simps)
  qed
qed simp

lemma of_le_to_le: "of_le (to_le n w) = (take_bit (8 * n) w :: 'a::len word)"
proof (rule bit_word_eqI)
  fix i assume "i < LENGTH('a)"
  have "8 * (i div 8) + i mod 8 = i" by simp
  then show "bit (of_le (to_le n w) :: 'a word) i \<longleftrightarrow> bit (take_bit (8 * n) w) i"
    using \<open>i < LENGTH('a)\<close> by (auto simp: bit_of_le bit_simps less_mult_imp_div_less mult.commute)
qed

lemma take_bit_full_word: "LENGTH('a) \<le> n \<Longrightarrow> take_bit n (w :: 'a::len word) = w"
  by (rule bit_word_eqI) (simp add: bit_simps)

lemma of_le_to_le_id:
  "of_le (to_le 2 w) = (w :: u16)" "of_le (to_le 4 x) = (x :: u32)" "of_le (to_le 8 y) = (y :: u64)"
  by (simp_all add: of_le_to_le take_bit_full_word)

lemma unat_of_nat_eq: "n < 2 ^ LENGTH('a) \<Longrightarrow> unat (of_nat n :: 'a::len word) = n"
  by (simp add: unsigned_of_nat take_bit_nat_eq_self)

text \<open>\<^verbatim>\<open>slice::get\<close>.\<close>

definition vec_get :: "'a list \<Rightarrow> nat \<Rightarrow> 'a option" where
  "vec_get p i = (if i < length p then Some (p ! i) else None)"

text \<open>\<^verbatim>\<open>trim\<close> and \<^verbatim>\<open>to_ascii_uppercase\<close> on ASCII characters.\<close>

definition is_ascii_space :: "char \<Rightarrow> bool" where
  "is_ascii_space c \<longleftrightarrow> (let k = of_char c :: nat in (9 \<le> k \<and> k \<le> 13) \<or> k = 32)"

definition str_trim :: "string \<Rightarrow> string" where
  "str_trim s = rev (dropWhile is_ascii_space (rev (dropWhile is_ascii_space s)))"

definition ascii_upper :: "char \<Rightarrow> char" where
  "ascii_upper c = (let k = of_char c :: nat in if 97 \<le> k \<and> k \<le> 122 then char_of (k - 32) else c)"

lemma str_trim_id: "list_all (\<lambda>c. \<not> is_ascii_space c) s \<Longrightarrow> str_trim s = s"
proof -
  assume a: "list_all (\<lambda>c. \<not> is_ascii_space c) s"
  then have "dropWhile is_ascii_space s = s" by (cases s) auto
  moreover have "dropWhile is_ascii_space (rev s) = rev s"
    using a by (cases s rule: rev_cases) auto
  ultimately show ?thesis by (simp add: str_trim_def)
qed

text \<open>\<^verbatim>\<open>div_ceil\<close> of the unsigned integers.\<close>

definition div_ceil :: "nat \<Rightarrow> nat \<Rightarrow> nat" where
  "div_ceil n d = n div d + (if n mod d = 0 then 0 else 1)"

end
