(* ===== verification/Codec.thy ===== *)
theory Codec
  imports Prelude
begin

unbundle bit_operations_syntax

text \<open>
  The codecs of \<^verbatim>\<open>lib/codec/src/lib.rs\<close>: base64 (the standard and the URL alphabet) and hex.
  Encoders are total; decoders return \<^const>\<open>None\<close> on the inputs the source rejects.
\<close>

section \<open>base64\<close>

definition STD :: string where
  "STD = ''ABCDEFGHIJKLMNOPQRSTUVWXYZabcdefghijklmnopqrstuvwxyz0123456789+/''"

definition URL :: string where
  "URL = ''ABCDEFGHIJKLMNOPQRSTUVWXYZabcdefghijklmnopqrstuvwxyz0123456789-_''"

text \<open>
  One iteration of the chunk loop of \<open>enc\<close>: the three bytes (missing ones are 0) form a
  24-bit group; the inner loop over \<open>i\<close> pushes \<open>chunk.len() + 1\<close> characters and pads.
\<close>

definition enc_chunk :: "string \<Rightarrow> bool \<Rightarrow> u8 list \<Rightarrow> string" where
  "enc_chunk alpha pad chunk =
     (let b0 = chunk ! 0;
          b1 = (if 1 < length chunk then chunk ! 1 else 0);
          b2 = (if 2 < length chunk then chunk ! 2 else 0);
          n = (push_bit 16 (ucast b0) OR push_bit 8 (ucast b1) OR ucast b2 :: u32);
          chars = length chunk + 1
      in concat (map (\<lambda>i. if i < chars
                          then [alpha ! unat (drop_bit (18 - 6 * i) n AND 63)]
                          else if pad then ''='' else []) [0..<4]))"

definition enc :: "u8 list \<Rightarrow> string \<Rightarrow> bool \<Rightarrow> string" where
  "enc data alpha pad = concat (map (enc_chunk alpha pad) (chunks 3 data))"

definition dec_map :: "string \<Rightarrow> u8 list" where
  "dec_map alpha =
     fold (\<lambda>(i, c) m. m[of_char c := word_of_nat i]) (enumerate 0 alpha) (replicate 256 255)"

definition is_space :: "char \<Rightarrow> bool" where
  "is_space c \<longleftrightarrow> c = CHR ''\<newline>'' \<or> c = CHR 0x0D \<or> c = CHR '' ''"

text \<open>
  The character loop of \<open>dec\<close>: the accumulator, the number of pending bits and the output
  so far are the loop's variables; \<^const>\<open>None\<close> is the early return on a foreign character
  and on non-zero or excess padding bits.
\<close>

fun dec_loop :: "u8 list \<Rightarrow> string \<Rightarrow> u32 \<Rightarrow> nat \<Rightarrow> u8 list \<Rightarrow> u8 list option" where
  "dec_loop tbl [] acc bits out = (if 6 \<le> bits \<or> acc \<noteq> 0 then None else Some out)"
| "dec_loop tbl (c # cs) acc bits out =
     (if is_space c then dec_loop tbl cs acc bits out
      else
        let v = tbl ! of_char c in
        if v = 255 then None
        else
          let acc1 = push_bit 6 acc OR ucast v; bits1 = bits + 6 in
          if 8 \<le> bits1
          then dec_loop tbl cs (acc1 AND (push_bit (bits1 - 8) 1 - 1)) (bits1 - 8)
                 (out @ [ucast (drop_bit (bits1 - 8) acc1)])
          else dec_loop tbl cs acc1 bits1 out)"

definition dec :: "string \<Rightarrow> string \<Rightarrow> u8 list option" where
  "dec s alpha = dec_loop (dec_map alpha) (trim_end_matches (CHR ''='') s) 0 0 []"

definition encode :: "u8 list \<Rightarrow> string" where
  "encode data = enc data STD True"

definition encode_nopad :: "u8 list \<Rightarrow> string" where
  "encode_nopad data = enc data STD False"

definition encode_url :: "u8 list \<Rightarrow> string" where
  "encode_url data = enc data URL False"

definition decode :: "string \<Rightarrow> u8 list option" where
  "decode s = dec s STD"

definition decode_url :: "string \<Rightarrow> u8 list option" where
  "decode_url s = dec s URL"

section \<open>hex\<close>

definition H :: string where
  "H = ''0123456789abcdef''"

definition hex_encode :: "u8 list \<Rightarrow> string" where
  "hex_encode data = concat (map (\<lambda>b. [H ! unat (drop_bit 4 b), H ! unat (b AND 15)]) data)"

definition hex_decode :: "string \<Rightarrow> u8 list option" where
  "hex_decode s =
     (if length s mod 2 \<noteq> 0 then None
      else those (map (\<lambda>i. case str_get s i (i + 2) of
                             None \<Rightarrow> None
                           | Some p \<Rightarrow> map_option word_of_nat (parse_unsigned 8 16 p))
                      (map (\<lambda>k. 2 * k) [0..<length s div 2])))"


section \<open>Correctness of base64\<close>

declare dec_loop.simps(2) [simp del]

lemma mask_63: "(63::'a::len word) = mask 6" by (simp add: mask_eq_exp_minus_1)

lemma Suc_Suc_diff: "2 \<le> n \<Longrightarrow> Suc (Suc (n - 2)) = n" by simp

text \<open>Reassembling the four sextets of a 24-bit group gives the three bytes back.\<close>

lemma sextets_join:
  fixes b0 b1 b2 :: u8 and n :: u32
  assumes "n = push_bit 16 (ucast b0) OR push_bit 8 (ucast b1) OR ucast b2"
  defines "x \<equiv> push_bit 6 (drop_bit 18 n AND 63) OR (drop_bit 12 n AND 63)"
  defines "y \<equiv> push_bit 6 (x AND 15) OR (drop_bit 6 n AND 63)"
  defines "z \<equiv> push_bit 6 (y AND 3) OR (n AND 63)"
  shows "ucast (drop_bit 4 x) = b0" and "ucast (drop_bit 2 y) = b1" and "ucast z = b2"
    and "b1 = 0 \<Longrightarrow> b2 = 0 \<Longrightarrow> x AND 15 = 0" and "b2 = 0 \<Longrightarrow> y AND 3 = 0"
proof -
  note defs = z_def y_def x_def assms mask_63
  have m: "(15::u32) = mask 4" "(3::u32) = mask 2" by (simp_all add: mask_eq_exp_minus_1)
  show "ucast (drop_bit 4 x) = b0"
    unfolding defs by (rule bit_word_eqI) (auto simp: bit_simps Suc_Suc_diff dest: bit_imp_le_length)
  show "ucast (drop_bit 2 y) = b1"
    unfolding defs m by (rule bit_word_eqI) (auto simp: bit_simps Suc_Suc_diff dest: bit_imp_le_length)
  show "ucast z = b2"
    unfolding defs m by (rule bit_word_eqI) (auto simp: bit_simps Suc_Suc_diff dest: bit_imp_le_length)
  show "x AND 15 = 0" if "b1 = 0" "b2 = 0"
    unfolding defs m that by (rule bit_word_eqI) (auto simp: bit_simps Suc_Suc_diff dest: bit_imp_le_length)
  show "y AND 3 = 0" if "b2 = 0"
    unfolding defs m that by (rule bit_word_eqI) (auto simp: bit_simps Suc_Suc_diff dest: bit_imp_le_length)
qed

definition dec_map_from :: "nat \<Rightarrow> string \<Rightarrow> u8 list \<Rightarrow> u8 list" where
  "dec_map_from k xs m = fold (\<lambda>(i, c) m. m[of_char c := word_of_nat i]) (enumerate k xs) m"

lemma dec_map_from_simps [simp]:
  "dec_map_from k [] m = m"
  "dec_map_from k (x # xs) m = dec_map_from (Suc k) xs (m[of_char x := word_of_nat k])"
  by (simp_all add: dec_map_from_def)

lemma dec_map_from_other: "c \<notin> set xs \<Longrightarrow> dec_map_from k xs m ! of_char c = m ! of_char c"
  by (induction xs arbitrary: k m) auto

lemma dec_map_from_nth:
  "distinct xs \<Longrightarrow> length m = 256 \<Longrightarrow> i < length xs \<Longrightarrow>
    dec_map_from k xs m ! of_char (xs ! i) = word_of_nat (k + i)"
proof (induction xs arbitrary: k m i)
  case Nil
  then show ?case by simp
next
  case (Cons x xs)
  then show ?case by (cases i) (simp_all add: dec_map_from_other)
qed

lemma dec_map_nth:
  "distinct alpha \<Longrightarrow> i < length alpha \<Longrightarrow> dec_map alpha ! of_char (alpha ! i) = word_of_nat i"
  using dec_map_from_nth [of alpha "replicate 256 255" i 0]
  by (simp add: dec_map_def dec_map_from_def)

lemma dec_map_foreign: "c \<notin> set alpha \<Longrightarrow> dec_map alpha ! of_char c = 255"
  using dec_map_from_other [of c alpha 0 "replicate 256 255"]
  by (simp add: dec_map_def dec_map_from_def)

subsection \<open>Round trip\<close>

lemma dec_loop_space: "is_space c \<Longrightarrow> dec_loop tbl (c # cs) acc bits out = dec_loop tbl cs acc bits out"
  by (simp add: dec_loop.simps(2))

lemma dec_loop_foreign:
  "\<not> is_space c \<Longrightarrow> tbl ! of_char c = 255 \<Longrightarrow> dec_loop tbl (c # cs) acc bits out = None"
  by (simp add: dec_loop.simps(2))

lemma dec_loop_Cons:
  "dec_loop tbl (c # cs) acc bits out = None \<or>
    (\<exists>acc' bits' out'. dec_loop tbl (c # cs) acc bits out = dec_loop tbl cs acc' bits' out')"
  unfolding dec_loop.simps(2) Let_def by (simp only: split: if_split) blast

text \<open>Splitting the decoded bytes again gives the sextets they were read from.\<close>

lemma sextet_eqI:
  fixes a b :: u32
  assumes "\<And>k. k \<in> {0, 1, 2, 3, 4, 5} \<Longrightarrow> bit a k = bit b k"
  shows "a AND 63 = b AND 63"
proof (rule bit_word_eqI)
  fix k :: nat
  have "k < 6 \<Longrightarrow> k \<in> {0, 1, 2, 3, 4, 5}" by auto
  then show "bit (a AND 63) k = bit (b AND 63) k"
    using assms unfolding mask_63 by (auto simp: bit_simps)
qed

lemma sextets_split:
  fixes w0 w1 w2 w3 :: u32
  defines "x \<equiv> push_bit 6 (w0 AND 63) OR (w1 AND 63)"
  defines "y \<equiv> push_bit 6 (x AND 15) OR (w2 AND 63)"
  defines "z \<equiv> push_bit 6 (y AND 3) OR (w3 AND 63)"
  defines "n \<equiv> \<lambda>b c. push_bit 16 (ucast (ucast (drop_bit 4 x) :: u8)) OR push_bit 8 (ucast (b :: u8)) OR ucast (c :: u8)"
  shows "drop_bit 18 (n b c) AND 63 = w0 AND 63"
    and "drop_bit 12 (n (ucast (drop_bit 2 y)) c) AND 63 = w1 AND 63"
    and "drop_bit 6 (n (ucast (drop_bit 2 y)) (ucast z)) AND 63 = w2 AND 63"
    and "n b (ucast z) AND 63 = w3 AND 63"
    and "x AND 15 = 0 \<Longrightarrow> drop_bit 12 (n 0 0) AND 63 = w1 AND 63"
    and "y AND 3 = 0 \<Longrightarrow> drop_bit 6 (n (ucast (drop_bit 2 y)) 0) AND 63 = w2 AND 63"
proof -
  have m: "(15::u32) = mask 4" "(3::u32) = mask 2" by (simp_all add: mask_eq_exp_minus_1)
  note defs = n_def z_def y_def x_def mask_63 m
  show "drop_bit 18 (n b c) AND 63 = w0 AND 63"
    unfolding defs by (rule sextet_eqI [unfolded mask_63]) (elim insertE emptyE; simp add: bit_simps bit_u8_ge)
  show "drop_bit 12 (n (ucast (drop_bit 2 y)) c) AND 63 = w1 AND 63"
    unfolding defs by (rule sextet_eqI [unfolded mask_63]) (elim insertE emptyE; simp add: bit_simps bit_u8_ge)
  show "drop_bit 6 (n (ucast (drop_bit 2 y)) (ucast z)) AND 63 = w2 AND 63"
    unfolding defs by (rule sextet_eqI [unfolded mask_63]) (elim insertE emptyE; simp add: bit_simps bit_u8_ge)
  show "n b (ucast z) AND 63 = w3 AND 63"
    unfolding defs by (rule sextet_eqI [unfolded mask_63]) (elim insertE emptyE; simp add: bit_simps bit_u8_ge)
  show "drop_bit 12 (n 0 0) AND 63 = w1 AND 63" if "x AND 15 = 0"
  proof -
    have "\<not> bit w1 k" if "k < 4" for k
      using arg_cong [OF \<open>x AND 15 = 0\<close>, of "\<lambda>w. bit w k"] that
      unfolding defs by (auto simp: bit_simps)
    then show ?thesis unfolding defs
      by (intro sextet_eqI [unfolded mask_63]) (elim insertE emptyE; simp add: bit_simps bit_u8_ge)
  qed
  show "drop_bit 6 (n (ucast (drop_bit 2 y)) 0) AND 63 = w2 AND 63" if "y AND 3 = 0"
  proof -
    have "\<not> bit w2 k" if "k < 2" for k
      using arg_cong [OF \<open>y AND 3 = 0\<close>, of "\<lambda>w. bit w k"] that
      unfolding defs by (auto simp: bit_simps)
    then show ?thesis unfolding defs
      by (intro sextet_eqI [unfolded mask_63]) (elim insertE emptyE; simp add: bit_simps bit_u8_ge)
  qed
qed

text \<open>What the codec asks of an alphabet; both alphabets of the source are instances.\<close>

locale base64_alphabet =
  fixes alpha :: string
  assumes length_alpha: "length alpha = 64"
    and distinct_alpha: "distinct alpha"
    and clean_alpha: "set alpha \<inter> {CHR ''='', CHR ''\<newline>'', CHR 0x0D, CHR '' ''} = {}"
begin

lemma dec_sextet:
  fixes v :: u32
  assumes "v < 64"
  shows "dec_loop (dec_map alpha) (alpha ! unat v # cs) acc bits out =
    (let acc1 = push_bit 6 acc OR v; bits1 = bits + 6 in
     if 8 \<le> bits1
     then dec_loop (dec_map alpha) cs (acc1 AND (push_bit (bits1 - 8) 1 - 1)) (bits1 - 8)
            (out @ [ucast (drop_bit (bits1 - 8) acc1)])
     else dec_loop (dec_map alpha) cs acc1 bits1 out)"
proof -
  have v: "unat v < 64" using assms by unat_arith
  then have in_alpha: "alpha ! unat v \<in> set alpha" using length_alpha by simp
  have uv: "unat (ucast v :: u8) = unat v"
    using v by (simp add: unsigned_ucast_eq take_bit_nat_eq_self)
  have "(ucast v :: u8) \<noteq> 255"
    using v uv by (auto simp: word_unat_eq_iff)
  moreover have "v < 256" using v by unat_arith
  then have "v AND mask 8 = v" by (intro less_mask_eq) simp
  moreover have "ucast (ucast v :: u8) = v AND mask 8"
    by (rule bit_word_eqI) (auto simp: bit_simps)
  moreover have "dec_map alpha ! of_char (alpha ! unat v) = ucast v"
    using v distinct_alpha length_alpha dec_map_nth [of alpha "unat v"] by simp
  ultimately show ?thesis
    using in_alpha clean_alpha by (auto simp: Let_def dec_loop.simps(2) is_space_def)
qed

lemma sextet_bound: "(w AND 63 :: u32) < 64"
proof -
  have "w AND 63 \<le> 63" by (rule word_and_le1)
  then show ?thesis by unat_arith
qed

lemma enc_chunk_sextets:
  fixes a b c :: u8 and n :: u32
  assumes "n = push_bit 16 (ucast a) OR push_bit 8 (ucast b) OR ucast c"
  defines "x \<equiv> \<lambda>i. alpha ! unat (drop_bit i n AND 63)"
  shows "enc_chunk alpha pad [a, b, c] = [x 18, x 12, x 6, alpha ! unat (n AND 63)]"
    and "c = 0 \<Longrightarrow> enc_chunk alpha pad [a, b] = [x 18, x 12, x 6] @ (if pad then ''='' else [])"
    and "c = 0 \<Longrightarrow> b = 0 \<Longrightarrow> enc_chunk alpha pad [a] = [x 18, x 12] @ (if pad then ''=='' else [])"
proof -
  have upt4: "[0..<4] = [0, 1, 2, 3::nat]" by code_simp
  show "enc_chunk alpha pad [a, b, c] = [x 18, x 12, x 6, alpha ! unat (n AND 63)]"
    using assms by (simp add: enc_chunk_def upt4)
  show "enc_chunk alpha pad [a, b] = [x 18, x 12, x 6] @ (if pad then ''='' else [])" if "c = 0"
    using assms that by (simp add: enc_chunk_def upt4)
  show "enc_chunk alpha pad [a] = [x 18, x 12] @ (if pad then ''=='' else [])" if "c = 0" "b = 0"
    using assms that by (simp add: enc_chunk_def upt4)
qed

lemma dec_sextets4:
  fixes x0 x1 x2 x3 :: u32
  assumes "x0 < 64" "x1 < 64" "x2 < 64" "x3 < 64"
  defines "x \<equiv> push_bit 6 x0 OR x1"
  defines "y \<equiv> push_bit 6 (x AND 15) OR x2"
  defines "z \<equiv> push_bit 6 (y AND 3) OR x3"
  shows "dec_loop (dec_map alpha) ([alpha ! unat x0, alpha ! unat x1, alpha ! unat x2, alpha ! unat x3] @ cs)
      0 0 out =
    dec_loop (dec_map alpha) cs 0 0 (out @ [ucast (drop_bit 4 x), ucast (drop_bit 2 y), ucast z])"
  using assms by (simp add: dec_sextet)

lemma dec_sextets_tail:
  fixes x0 x1 x2 :: u32
  defines "x \<equiv> push_bit 6 x0 OR x1"
  defines "y \<equiv> push_bit 6 (x AND 15) OR x2"
  assumes "x0 < 64"
  shows "dec_loop (dec_map alpha) [alpha ! unat x0] 0 0 out = None"
   and "x1 < 64 \<Longrightarrow> dec_loop (dec_map alpha) [alpha ! unat x0, alpha ! unat x1] 0 0 out =
    (if x AND 15 = 0 then Some (out @ [ucast (drop_bit 4 x)]) else None)"
   and "x1 < 64 \<Longrightarrow> x2 < 64 \<Longrightarrow>
    dec_loop (dec_map alpha) [alpha ! unat x0, alpha ! unat x1, alpha ! unat x2] 0 0 out =
    (if y AND 3 = 0 then Some (out @ [ucast (drop_bit 4 x), ucast (drop_bit 2 y)]) else None)"
  using assms by (simp_all add: dec_sextet)

lemma dec_group:
  "dec_loop (dec_map alpha) (enc_chunk alpha pad [a, b, c] @ cs) 0 0 out =
    dec_loop (dec_map alpha) cs 0 0 (out @ [a, b, c])"
  unfolding enc_chunk_sextets(1) [OF refl]
  by (simp only: dec_sextets4 sextet_bound sextets_join(1-3) [OF refl])

lemma dec_tail:
  "dec_loop (dec_map alpha) (enc_chunk alpha False [a, b]) 0 0 out = Some (out @ [a, b])"
  "dec_loop (dec_map alpha) (enc_chunk alpha False [a]) 0 0 out = Some (out @ [a])"
  subgoal
    unfolding enc_chunk_sextets(2) [OF refl refl] if_False append_Nil2
    by (simp only: dec_sextets_tail(3) sextet_bound sextets_join(1,2) [OF refl]
        sextets_join(5) [OF refl refl] refl if_True)
  subgoal
    unfolding enc_chunk_sextets(3) [OF refl refl refl] if_False append_Nil2
    by (simp only: dec_sextets_tail(2) sextet_bound sextets_join(1) [OF refl]
        sextets_join(4) [OF refl refl refl] refl if_True)
  done


lemma enc_simps [simp]:
  "enc [] alpha pad = []"
  "enc [a] alpha pad = enc_chunk alpha pad [a]"
  "enc [a, b] alpha pad = enc_chunk alpha pad [a, b]"
  "enc (a # b # c # d) alpha pad = enc_chunk alpha pad [a, b, c] @ enc d alpha pad"
  by (simp_all add: enc_def chunks.simps)

lemma dec_enc_nopad: "dec_loop (dec_map alpha) (enc data alpha False) 0 0 out = Some (out @ data)"
  by (induction data arbitrary: out rule: list_induct_by3) (simp_all add: dec_group dec_tail)

lemma enc_chunk_set:
  "length chunk \<le> 3 \<Longrightarrow> set (enc_chunk alpha False chunk) \<subseteq> set alpha"
proof -
  have "alpha ! unat (w AND 63 :: u32) \<in> set alpha" for w
    using sextet_bound [of w] length_alpha by (intro nth_mem) unat_arith
  then show ?thesis by (auto simp: enc_chunk_def Let_def)
qed

lemma enc_set: "set (enc data alpha False) \<subseteq> set alpha"
  using enc_chunk_set by (induction data rule: list_induct_by3) auto

lemma enc_padding: "\<exists>k. enc data alpha pad = enc data alpha False @ replicate k CHR ''=''"
proof (induction data rule: list_induct_by3)
  case (One a)
  show ?case
    using enc_chunk_sextets(3) [OF refl refl refl, of pad a] enc_chunk_sextets(3) [OF refl refl refl, of False a]
    by (intro exI [of _ "if pad then 2 else 0"]) (simp add: numeral_eq_Suc)
next
  case (Two a b)
  show ?case
    using enc_chunk_sextets(2) [OF refl refl, of pad a b] enc_chunk_sextets(2) [OF refl refl, of False a b]
    by (intro exI [of _ "if pad then 1 else 0"]) (simp add: numeral_eq_Suc)
next
  case (Group a b c d)
  then show ?case by (auto simp: enc_chunk_sextets(1) [OF refl])
qed simp

lemma trim_enc: "trim_end_matches CHR ''='' (enc data alpha pad) = enc data alpha False"
proof -
  obtain k where k: "enc data alpha pad = enc data alpha False @ replicate k CHR ''=''"
    using enc_padding by blast
  have "CHR ''='' \<notin> set (enc data alpha False)" using enc_set clean_alpha by blast
  then show ?thesis by (simp add: k trim_end_matches_replicate)
qed

lemma dec_enc: "dec (enc data alpha pad) alpha = Some data"
  by (simp add: dec_def trim_enc dec_enc_nopad)


subsection \<open>Strictness\<close>

lemma nonspace_alpha: "c \<in> set alpha \<Longrightarrow> \<not> is_space c"
  using clean_alpha by (auto simp: is_space_def)

lemma dec_loop_alphabet:
  "dec_loop (dec_map alpha) cs acc bits out = Some d \<Longrightarrow> c \<in> set cs \<Longrightarrow> is_space c \<or> c \<in> set alpha"
proof (induction cs arbitrary: acc bits out)
  case (Cons x xs)
  have x: "is_space x \<or> x \<in> set alpha"
    using Cons.prems(1) dec_map_foreign [of x alpha] dec_loop_foreign by fastforce
  from Cons.prems(1) obtain acc' bits' out'
    where "dec_loop (dec_map alpha) xs acc' bits' out' = Some d"
    by (metis dec_loop_Cons option.distinct(1))
  with Cons.IH x Cons.prems(2) show ?case by auto
qed simp

lemma dec_loop_filter:
  "dec_loop tbl (filter (\<lambda>c. \<not> is_space c) cs) acc bits out = dec_loop tbl cs acc bits out"
proof (induction cs arbitrary: acc bits out)
  case (Cons c cs)
  show ?case
  proof (cases "is_space c")
    case True
    with Cons show ?thesis by (simp add: dec_loop_space)
  next
    case False
    with Cons show ?thesis by (simp add: dec_loop.simps(2) Let_def)
  qed
qed simp

lemma alpha_sextet:
  assumes "c \<in> set alpha"
  shows "\<exists>x :: u32. c = alpha ! unat (x AND 63)"
proof -
  obtain i where "i < 64" "c = alpha ! i" using assms length_alpha by (auto simp: in_set_conv_nth)
  then have "c = alpha ! unat (word_of_nat i AND 63 :: u32)"
    using less_mask_eq [of "word_of_nat i :: u32" 6]
    by (simp add: mask_63 word_less_nat_alt unat_of_nat)
  then show ?thesis by blast
qed

lemma enc_sextets:
  fixes w0 w1 w2 w3 :: u32
  defines "x \<equiv> push_bit 6 (w0 AND 63) OR (w1 AND 63)"
  defines "y \<equiv> push_bit 6 (x AND 15) OR (w2 AND 63)"
  defines "z \<equiv> push_bit 6 (y AND 3) OR (w3 AND 63)"
  shows "x AND 15 = 0 \<Longrightarrow>
      enc_chunk alpha False [ucast (drop_bit 4 x)] = [alpha ! unat (w0 AND 63), alpha ! unat (w1 AND 63)]"
    and "y AND 3 = 0 \<Longrightarrow>
      enc_chunk alpha False [ucast (drop_bit 4 x), ucast (drop_bit 2 y)] =
        [alpha ! unat (w0 AND 63), alpha ! unat (w1 AND 63), alpha ! unat (w2 AND 63)]"
    and "enc_chunk alpha False [ucast (drop_bit 4 x), ucast (drop_bit 2 y), ucast z] =
        [alpha ! unat (w0 AND 63), alpha ! unat (w1 AND 63), alpha ! unat (w2 AND 63), alpha ! unat (w3 AND 63)]"
  unfolding z_def y_def x_def
  by (simp_all only: enc_chunk_sextets(1) [OF refl] enc_chunk_sextets(2) [OF refl refl]
      enc_chunk_sextets(3) [OF refl refl refl] sextets_split if_False append_Nil2)

lemma dec_enc_group:
  assumes "{a, b, c, e} \<subseteq> set alpha"
  shows "\<exists>p q r. (\<forall>cs out. dec_loop (dec_map alpha) (a # b # c # e # cs) 0 0 out =
      dec_loop (dec_map alpha) cs 0 0 (out @ [p, q, r])) \<and>
    enc_chunk alpha False [p, q, r] = [a, b, c, e]"
proof -
  obtain x0 x1 x2 x3 :: u32 where abce: "a = alpha ! unat (x0 AND 63)" "b = alpha ! unat (x1 AND 63)"
    "c = alpha ! unat (x2 AND 63)" "e = alpha ! unat (x3 AND 63)"
    using assms by (auto dest!: alpha_sextet)
  show ?thesis
    using dec_sextets4 [OF sextet_bound sextet_bound sextet_bound sextet_bound]
      enc_sextets(3) unfolding abce append.simps by blast
qed

lemma dec_canonical:
  "dec_loop (dec_map alpha) cs 0 0 out = Some d \<Longrightarrow> set cs \<subseteq> set alpha \<Longrightarrow>
    \<exists>d'. d = out @ d' \<and> enc d' alpha False = cs"
proof (induction cs arbitrary: out rule: list_induct_by4)
  case Nil
  then show ?case by (auto intro: exI [of _ "[]"])
next
  case (One a)
  then obtain x0 :: u32 where "a = alpha ! unat (x0 AND 63)" by (auto dest: alpha_sextet)
  with One show ?case by (simp add: dec_sextets_tail sextet_bound)
next
  case (Two a b)
  then obtain x0 x1 :: u32 where ab: "a = alpha ! unat (x0 AND 63)" "b = alpha ! unat (x1 AND 63)"
    by (auto dest!: alpha_sextet)
  from Two.prems(1) show ?case
    unfolding ab dec_sextets_tail(2) [OF sextet_bound sextet_bound]
    using enc_sextets(1) [of x0 x1] by (metis enc_simps(2) option.distinct(1) option.inject)
next
  case (Three a b c)
  then obtain x0 x1 x2 :: u32 where abc: "a = alpha ! unat (x0 AND 63)" "b = alpha ! unat (x1 AND 63)"
    "c = alpha ! unat (x2 AND 63)" by (auto dest!: alpha_sextet)
  from Three.prems(1) show ?case
    unfolding abc dec_sextets_tail(3) [OF sextet_bound sextet_bound sextet_bound]
    using enc_sextets(2) [of x0 x1 x2] by (metis enc_simps(3) option.distinct(1) option.inject)
next
  case (Group a b c e cs)
  then have "{a, b, c, e} \<subseteq> set alpha" by simp
  then obtain p q r where pqr: "\<And>cs out. dec_loop (dec_map alpha) (a # b # c # e # cs) 0 0 out =
      dec_loop (dec_map alpha) cs 0 0 (out @ [p, q, r])" "enc_chunk alpha False [p, q, r] = [a, b, c, e]"
    using dec_enc_group by metis
  from Group.prems have "dec_loop (dec_map alpha) cs 0 0 (out @ [p, q, r]) = Some d" "set cs \<subseteq> set alpha"
    by (simp_all add: pqr(1))
  from Group.IH [OF this] obtain d' where "d = (out @ [p, q, r]) @ d'" "enc d' alpha False = cs"
    by blast
  then show ?case by (intro exI [of _ "[p, q, r] @ d'"]) (simp add: pqr(2))
qed

lemma dec_strict:
  assumes "dec s alpha = Some d"
  shows "enc d alpha False = filter (\<lambda>c. \<not> is_space c) (trim_end_matches CHR ''='' s)"
proof -
  let ?t = "trim_end_matches CHR ''='' s"
  let ?u = "filter (\<lambda>c. \<not> is_space c) ?t"
  have d: "dec_loop (dec_map alpha) ?t 0 0 [] = Some d" using assms by (simp add: dec_def)
  have "set ?u \<subseteq> set alpha" using dec_loop_alphabet [OF d] by auto
  moreover have "dec_loop (dec_map alpha) ?u 0 0 [] = Some d" using d by (simp add: dec_loop_filter)
  ultimately show ?thesis using dec_canonical [of ?u "[]" d] by auto
qed

end

lemma alphabets_distinct: "distinct (map of_char STD :: nat list)" "distinct (map of_char URL :: nat list)"
  by (simp_all add: STD_def URL_def)

interpretation std: base64_alphabet STD
proof
  show "distinct STD" using alphabets_distinct by (simp only: distinct_map)
qed (simp_all add: STD_def)

interpretation url: base64_alphabet URL
proof
  show "distinct URL" using alphabets_distinct by (simp only: distinct_map)
qed (simp_all add: URL_def)

section \<open>Correctness of hex\<close>

lemma length_hex_encode [simp]: "length (hex_encode data) = 2 * length data"
  by (induction data) (simp_all add: hex_encode_def)

lemma hex_encode_nth:
  assumes "k < length data"
  shows "hex_encode data ! (2 * k) = H ! unat (drop_bit 4 (data ! k))"
    and "hex_encode data ! Suc (2 * k) = H ! unat (data ! k AND 15)"
  using assms
proof (induction data arbitrary: k)
  case (Cons b data)
  { case 1 with Cons.IH(1) show ?case by (cases k) (simp_all add: hex_encode_def)
  next
    case 2 with Cons.IH(2) show ?case by (cases k) (simp_all add: hex_encode_def) }
qed simp_all

text \<open>A hex digit of the table is ASCII, and parsing a pair of them gives the byte back.\<close>

lemma hex_digit:
  assumes "i < 16"
  shows "to_digit 16 (H ! i) = Some i"
    and "(of_char (H ! i) :: nat) < 128"
    and "H ! i \<noteq> CHR ''+''"
proof -
  have "\<forall>i \<in> set [0..<16]. to_digit 16 (H ! i) = Some i \<and>
      (of_char (H ! i) :: nat) < 128 \<and> H ! i \<noteq> CHR ''+''"
    by (simp add: upt_rec to_digit_def H_def)
  then show "to_digit 16 (H ! i) = Some i" and "(of_char (H ! i) :: nat) < 128" and "H ! i \<noteq> CHR ''+''"
    using assms by simp_all
qed

lemma nibbles:
  fixes b :: u8
  shows "unat (drop_bit 4 b) < 16" "unat (b AND 15) < 16"
    and "unat (drop_bit 4 b) * 16 + unat (b AND 15) = unat b"
proof -
  have b: "unat b < 2 ^ LENGTH(8)" by (rule unsigned_less)
  have hi: "unat (drop_bit 4 b) = unat b div 16"
    by (simp add: drop_bit_eq_div unat_div)
  have "b AND 15 = take_bit 4 b" by (simp add: take_bit_eq_mask mask_eq_exp_minus_1)
  then have lo: "unat (b AND 15) = unat b mod 16"
    by (simp add: take_bit_eq_mod unat_mod)
  show "unat (drop_bit 4 b) < 16" "unat (b AND 15) < 16"
    "unat (drop_bit 4 b) * 16 + unat (b AND 15) = unat b"
    using b by (simp_all add: hi lo)
qed

lemma hex_pair:
  fixes b :: u8
  shows "parse_unsigned 8 16 [H ! unat (drop_bit 4 b), H ! unat (b AND 15)] = Some (unat b)"
proof -
  have "unat b < 2 ^ LENGTH(8)" by (rule unsigned_less)
  then show ?thesis
    using nibbles [of b] by (simp add: parse_unsigned_def hex_digit)
qed

lemma hex_boundary: "is_char_boundary (hex_encode data) i \<longleftrightarrow> i \<le> 2 * length data"
proof (cases "i < 2 * length data")
  case True
  then have "i div 2 < length data" by simp
  moreover have "i = 2 * (i div 2) \<or> i = Suc (2 * (i div 2))" by presburger
  ultimately have "hex_encode data ! i \<in> {H ! unat (drop_bit 4 (data ! (i div 2))), H ! unat (data ! (i div 2) AND 15)}"
    using hex_encode_nth [of "i div 2" data] by (metis insertCI)
  then have "(of_char (hex_encode data ! i) :: nat) < 128"
    using hex_digit(2) nibbles by auto
  with True show ?thesis by (simp add: is_char_boundary_def)
qed (auto simp: is_char_boundary_def)

lemma hex_get:
  assumes "k < length data"
  shows "str_get (hex_encode data) (2 * k) (2 * k + 2) =
    Some [H ! unat (drop_bit 4 (data ! k)), H ! unat (data ! k AND 15)]"
proof -
  have "take 2 (drop (2 * k) (hex_encode data)) = [hex_encode data ! (2 * k), hex_encode data ! Suc (2 * k)]"
    using assms by (simp add: numeral_2_eq_2 Cons_nth_drop_Suc [symmetric])
  with assms show ?thesis by (simp add: str_get_def hex_boundary hex_encode_nth)
qed

section \<open>Properties\<close>

text \<open>
  C39 (base64 round trip). Every byte string is recovered by the decoder of its alphabet from
  what each of the encoders writes, padded or not.
\<close>

theorem base64_roundtrip:
  "decode (encode data) = Some data \<and> decode (encode_nopad data) = Some data \<and>
   decode_url (encode_url data) = Some data"
  by (simp add: decode_def encode_def encode_nopad_def decode_url_def encode_url_def
      std.dec_enc url.dec_enc)

text \<open>
  A string the decoder accepts is, up to trailing \<open>=\<close> and
  the skipped blanks and line ends, exactly the unpadded encoding of the decoded bytes: no
  other character, no truncated group and no non-zero padding bit is accepted.
\<close>

theorem base64_strict:
  assumes "decode s = Some d"
  shows "encode_nopad d = filter (\<lambda>c. \<not> is_space c) (trim_end_matches CHR ''='' s)"
  using assms by (simp add: decode_def encode_nopad_def std.dec_strict)

theorem base64_strict_witness:
  "decode (encode [102, 111]) = Some [102, 111] \<and>
   encode_nopad [102, 111] =
     filter (\<lambda>c. \<not> is_space c) (trim_end_matches CHR ''='' (encode [102, 111]))"
proof -
  have "decode (encode [102, 111]) = Some [102, 111]"
    by (simp only: decode_def encode_def std.dec_enc)
  with base64_strict [OF this] show ?thesis by simp
qed

text \<open>Decoding the hex encoding of a byte string gives it back.\<close>

theorem hex_roundtrip: "hex_decode (hex_encode data) = Some data"
proof -
  have "those (map (\<lambda>i. case str_get (hex_encode data) i (i + 2) of None \<Rightarrow> None
      | Some p \<Rightarrow> map_option word_of_nat (parse_unsigned 8 16 p)) (map (\<lambda>k. 2 * k) [0..<length data])) =
    Some (map (\<lambda>i. data ! (i div 2)) (map (\<lambda>k. 2 * k) [0..<length data]))"
    by (rule those_map_Some) (auto simp: hex_get hex_pair simp del: add_2_eq_Suc')
  moreover have "map (\<lambda>i. data ! (i div 2)) (map (\<lambda>k. 2 * k) [0..<length data]) = data"
    by (rule nth_equalityI) simp_all
  ultimately show ?thesis by (simp add: hex_decode_def)
qed

text \<open>
  The parser of \<^verbatim>\<open>u8::from_str_radix\<close> accepts a sign, so a pair such as \<open>+f\<close> is decoded although it is
  not two hex digits.
\<close>

lemma hex_decode_accepts_sign: "hex_decode ''+f'' = Some [15]"
  by code_simp

end
