(* ===== verification/Buddy.thy ===== *)
theory Buddy
  imports Prelude
begin

unbundle bit_operations_syntax

text \<open>
  The binary buddy allocator of \<^verbatim>\<open>lib/alloc/src/buddy.rs\<close>. The record holds the fields of
  \<^verbatim>\<open>Buddy<M>\<close>: the state bytes (one per frame), the intrusive list nodes that live in the
  first bytes of the frames (a function from frame index to node, since the memory of
  allocated frames belongs to their owners), the list heads and counts per order, and the
  two frame counters. A raw read or write through the state pointer out of range is
  undefined behaviour in the source; the invariant below shows that it does not occur.
\<close>

section \<open>Data\<close>

definition MAX_ORDER :: nat where "MAX_ORDER = 10"

definition NIL :: nat where "NIL = 0xFFFFFFFFFFFFFFFF"

definition ST_NONE :: u8 where "ST_NONE = 0x00"
definition ST_RESERVED :: u8 where "ST_RESERVED = 0x40"
definition ST_FREE :: u8 where "ST_FREE = 0x80"
definition ST_USED :: u8 where "ST_USED = 0xC0"
definition ST_KIND :: u8 where "ST_KIND = 0xC0"
definition ST_ORDER :: u8 where "ST_ORDER = 0x0F"

record link =
  l_next :: nat
  l_prev :: nat

datatype FreeError = OutOfRange | NotAllocated | WrongOrder nat

record buddy =
  b_links :: "nat \<Rightarrow> link"
  b_state :: "u8 list"
  b_frames :: nat
  b_heads :: "nat list"
  b_counts :: "nat list"
  b_free_frames :: nat
  b_managed_frames :: nat

section \<open>Operations\<close>

definition buddy_new :: "(nat \<Rightarrow> link) \<Rightarrow> nat \<Rightarrow> buddy" where
  "buddy_new mem frames =
     \<lparr>b_links = mem, b_state = replicate frames ST_RESERVED, b_frames = frames,
      b_heads = replicate (MAX_ORDER + 1) NIL, b_counts = replicate (MAX_ORDER + 1) 0,
      b_free_frames = 0, b_managed_frames = 0\<rparr>"

definition st :: "buddy \<Rightarrow> nat \<Rightarrow> u8" where
  "st b idx = b_state b ! idx"

definition set_st :: "buddy \<Rightarrow> nat \<Rightarrow> u8 \<Rightarrow> buddy" where
  "set_st b idx v = b\<lparr>b_state := (b_state b)[idx := v]\<rparr>"

definition free_tag :: "nat \<Rightarrow> u8" where
  "free_tag order = ST_FREE OR word_of_nat order"

definition used_tag :: "nat \<Rightarrow> u8" where
  "used_tag order = ST_USED OR word_of_nat order"

definition push :: "buddy \<Rightarrow> nat \<Rightarrow> nat \<Rightarrow> buddy" where
  "push b idx order =
     (let head = b_heads b ! order;
          links1 = (b_links b)(idx := \<lparr>l_next = head, l_prev = NIL\<rparr>);
          links2 = (if head \<noteq> NIL then links1(head := (links1 head)\<lparr>l_prev := idx\<rparr>) else links1)
      in set_st (b\<lparr>b_links := links2, b_heads := (b_heads b)[order := idx],
                   b_counts := (b_counts b)[order := b_counts b ! order + 1]\<rparr>)
           idx (free_tag order))"

definition unlink :: "buddy \<Rightarrow> nat \<Rightarrow> nat \<Rightarrow> buddy" where
  "unlink b idx order =
     (let next = l_next (b_links b idx); prev = l_prev (b_links b idx);
          b1 = (if prev \<noteq> NIL
                then b\<lparr>b_links := (b_links b)(prev := (b_links b prev)\<lparr>l_next := next\<rparr>)\<rparr>
                else b\<lparr>b_heads := (b_heads b)[order := next]\<rparr>);
          b2 = (if next \<noteq> NIL
                then b1\<lparr>b_links := (b_links b1)(next := (b_links b1 next)\<lparr>l_prev := prev\<rparr>)\<rparr>
                else b1)
      in b2\<lparr>b_counts := (b_counts b2)[order := b_counts b2 ! order - 1]\<rparr>)"

text \<open>The merge loop of \<open>release\<close>; the loop ends because the order grows to \<^const>\<open>MAX_ORDER\<close>.\<close>

function release_loop :: "buddy \<Rightarrow> nat \<Rightarrow> nat \<Rightarrow> buddy" where
  "release_loop b idx order =
     (if order < MAX_ORDER then
        let buddy = idx XOR 2 ^ order in
        if b_frames b \<le> buddy \<or> st b buddy \<noteq> free_tag order then push b idx order
        else release_loop (set_st (unlink b buddy order) buddy ST_NONE) (min idx buddy) (order + 1)
      else push b idx order)"
  by pat_completeness auto
termination
  by (relation "measure (\<lambda>(b, idx, order). MAX_ORDER - order)") auto

declare release_loop.simps [simp del]

definition release :: "buddy \<Rightarrow> nat \<Rightarrow> nat \<Rightarrow> buddy" where
  "release b idx order = release_loop (set_st b idx ST_NONE) idx order"

text \<open>\<open>alloc\<close>: the search for a non-empty list, then the split loop.\<close>

function find_order :: "buddy \<Rightarrow> nat \<Rightarrow> nat" where
  "find_order b order =
     (if order \<le> MAX_ORDER \<and> b_heads b ! order = NIL then find_order b (order + 1) else order)"
  by pat_completeness auto
termination
  by (relation "measure (\<lambda>(b, order). Suc MAX_ORDER - order)") auto

declare find_order.simps [simp del]

function split_loop :: "buddy \<Rightarrow> nat \<Rightarrow> nat \<Rightarrow> nat \<Rightarrow> buddy" where
  "split_loop b idx order k =
     (if order < k then split_loop (push b (idx + 2 ^ (k - 1)) (k - 1)) idx order (k - 1) else b)"
  by pat_completeness auto
termination
  by (relation "measure (\<lambda>(b, idx, order, k). k)") auto

declare split_loop.simps [simp del]

definition alloc :: "buddy \<Rightarrow> nat \<Rightarrow> nat option \<times> buddy" where
  "alloc b order =
     (if MAX_ORDER < order then (None, b)
      else
        let k = find_order b order in
        if MAX_ORDER < k then (None, b)
        else
          let idx = b_heads b ! k;
              b1 = split_loop (unlink b idx k) idx order k;
              b2 = set_st b1 idx (used_tag order)
          in (Some idx, b2\<lparr>b_free_frames := b_free_frames b2 - 2 ^ order\<rparr>))"

definition buddy_free :: "buddy \<Rightarrow> nat \<Rightarrow> nat \<Rightarrow> FreeError option \<times> buddy" where
  "buddy_free b idx order =
     (if b_frames b \<le> idx then (Some OutOfRange, b)
      else
        let s = st b idx in
        if s AND ST_KIND \<noteq> ST_USED then (Some NotAllocated, b)
        else
          let allocated = unat (s AND ST_ORDER) in
          if allocated \<noteq> order then (Some (WrongOrder allocated), b)
          else (None, release (b\<lparr>b_free_frames := b_free_frames b + 2 ^ order\<rparr>) idx order))"

text \<open>Queries.\<close>

definition free_block_containing :: "buddy \<Rightarrow> nat \<Rightarrow> (nat \<times> nat) option" where
  "free_block_containing b idx =
     (if b_frames b \<le> idx then None
      else map_option (\<lambda>order. (idx - idx mod 2 ^ order, order))
             (find (\<lambda>order. st b (idx - idx mod 2 ^ order) = free_tag order) [0..<MAX_ORDER + 1]))"

definition is_free :: "buddy \<Rightarrow> nat \<Rightarrow> bool" where
  "is_free b idx \<longleftrightarrow> free_block_containing b idx \<noteq> None"

definition allocated_order :: "buddy \<Rightarrow> nat \<Rightarrow> nat option" where
  "allocated_order b idx =
     (if b_frames b \<le> idx then None
      else if st b idx AND ST_KIND = ST_USED then Some (unat (st b idx AND ST_ORDER)) else None)"

text \<open>\<open>add_range\<close> and \<open>add_run\<close>.\<close>

fun pick_order :: "nat \<Rightarrow> nat \<Rightarrow> nat \<Rightarrow> nat" where
  "pick_order idx e 0 = 0"
| "pick_order idx e (Suc order) =
     (if idx AND (2 ^ Suc order - 1) \<noteq> 0 \<or> e < idx + 2 ^ Suc order then pick_order idx e order
      else Suc order)"

function add_run :: "buddy \<Rightarrow> nat \<Rightarrow> nat \<Rightarrow> buddy" where
  "add_run b idx e =
     (if idx < e then
        let order = pick_order idx e MAX_ORDER;
            b1 = fold (\<lambda>i b. set_st b i ST_NONE) [idx..<idx + 2 ^ order] b;
            b2 = b1\<lparr>b_free_frames := b_free_frames b1 + 2 ^ order,
                    b_managed_frames := b_managed_frames b1 + 2 ^ order\<rparr>
        in add_run (release b2 idx order) (idx + 2 ^ order) e
      else b)"
  by pat_completeness auto
termination
  by (relation "measure (\<lambda>(b, idx, e). e - idx)") (auto intro!: diff_less_mono2)

declare add_run.simps [simp del]

function run_end :: "buddy \<Rightarrow> nat \<Rightarrow> nat \<Rightarrow> nat" where
  "run_end b i e = (if i < e \<and> st b i = ST_RESERVED then run_end b (i + 1) e else i)"
  by pat_completeness auto
termination
  by (relation "measure (\<lambda>(b, i, e). e - i)") auto

declare run_end.simps [simp del]

lemma run_end_ge: "i \<le> run_end b i e"
  by (induction b i e rule: run_end.induct) (subst run_end.simps, auto)

function add_range_loop :: "buddy \<Rightarrow> nat \<Rightarrow> nat \<Rightarrow> buddy" where
  "add_range_loop b idx e =
     (if idx < e then
        if st b idx \<noteq> ST_RESERVED then add_range_loop b (idx + 1) e
        else let r = run_end b idx e in add_range_loop (add_run b idx r) r e
      else b)"
  by pat_completeness auto
termination
proof (relation "measure (\<lambda>(b, idx, e). e - idx)")
  fix b :: buddy and idx e r :: nat
  assume "idx < e" "\<not> st b idx \<noteq> ST_RESERVED" "r = run_end b idx e"
  then have "idx < r" using run_end_ge [of "idx + 1" b e] by (subst (asm) run_end.simps) simp
  with \<open>idx < e\<close> show "((add_run b idx r, r, e), b, idx, e) \<in> measure (\<lambda>(b, idx, e). e - idx)"
    by simp
qed auto

declare add_range_loop.simps [simp del]

definition add_range :: "buddy \<Rightarrow> nat \<Rightarrow> nat \<Rightarrow> buddy" where
  "add_range b start e = add_range_loop b start (min e (b_frames b))"

text \<open>
  \<open>reserve_range\<close>: \<^const>\<open>None\<close> of the loop is the panic of \<^verbatim>\<open>expect("checked free above")\<close>.
\<close>

definition reserve_frame :: "nat \<Rightarrow> nat \<Rightarrow> nat \<Rightarrow> buddy \<Rightarrow> buddy" where
  "reserve_frame start e i b =
     (if start \<le> i \<and> i < e
      then (set_st b i ST_RESERVED)\<lparr>b_managed_frames := b_managed_frames b - 1\<rparr>
      else release (b\<lparr>b_free_frames := b_free_frames b + 1\<rparr>) i 0)"

definition reserve_block :: "buddy \<Rightarrow> nat \<Rightarrow> nat \<Rightarrow> nat \<Rightarrow> nat \<Rightarrow> buddy" where
  "reserve_block b start e head order =
     (let b1 = unlink b head order;
          b2 = b1\<lparr>b_free_frames := b_free_frames b1 - 2 ^ order\<rparr>
      in fold (reserve_frame start e) [head..<head + 2 ^ order] b2)"

lemma free_block_containing_progress:
  "free_block_containing b idx = Some (head, order) \<Longrightarrow> idx < head + 2 ^ order"
proof -
  assume "free_block_containing b idx = Some (head, order)"
  then have "head = idx - idx mod 2 ^ order"
    by (auto simp: free_block_containing_def split: if_splits)
  moreover have "idx mod 2 ^ order < 2 ^ order" by simp
  ultimately show ?thesis using mod_less_eq_dividend [of idx "2 ^ order"] by linarith
qed

function reserve_loop :: "buddy \<Rightarrow> nat \<Rightarrow> nat \<Rightarrow> nat \<Rightarrow> buddy option" where
  "reserve_loop b start e idx =
     (if idx < e then
        case free_block_containing b idx of
          None \<Rightarrow> None
        | Some (head, order) \<Rightarrow>
            reserve_loop (reserve_block b start e head order) start e (head + 2 ^ order)
      else Some b)"
  by pat_completeness auto
termination
  by (relation "measure (\<lambda>(b, start, e, idx). e - idx)")
     (auto intro!: diff_less_mono2 dest: free_block_containing_progress)

declare reserve_loop.simps [simp del]

definition reserve_range :: "buddy \<Rightarrow> nat \<Rightarrow> nat \<Rightarrow> (bool \<times> buddy) option" where
  "reserve_range b start e =
     (let e' = min e (b_frames b) in
      if \<exists>idx \<in> set [start..<e']. \<not> is_free b idx then Some (False, b)
      else map_option (\<lambda>b'. (True, b')) (reserve_loop b start e' start))"

section \<open>State bytes\<close>

lemma all_orders: "(\<forall>k\<le>MAX_ORDER. P k) \<longleftrightarrow> (\<forall>k\<in>set [0..<11]. P k)"
  by (auto simp: MAX_ORDER_def)

lemma tags_table:
  "\<forall>k\<le>MAX_ORDER. \<forall>k'\<le>MAX_ORDER.
     (free_tag k = free_tag k' \<longleftrightarrow> k = k') \<and> (used_tag k = used_tag k' \<longleftrightarrow> k = k') \<and>
     free_tag k \<noteq> used_tag k'"
  unfolding all_orders by code_simp

lemma tags_kinds:
  "\<forall>k\<le>MAX_ORDER. free_tag k \<noteq> ST_NONE \<and> free_tag k \<noteq> ST_RESERVED \<and> used_tag k \<noteq> ST_NONE \<and>
     used_tag k \<noteq> ST_RESERVED \<and> used_tag k AND ST_KIND = ST_USED \<and>
     free_tag k AND ST_KIND \<noteq> ST_USED \<and> unat (used_tag k AND ST_ORDER) = k"
  unfolding all_orders by code_simp

lemma kinds_simps [simp]:
  "ST_RESERVED \<noteq> ST_NONE" "ST_NONE \<noteq> ST_RESERVED"
  "ST_NONE AND ST_KIND \<noteq> ST_USED" "ST_RESERVED AND ST_KIND \<noteq> ST_USED"
  by (simp_all add: ST_RESERVED_def ST_NONE_def ST_KIND_def ST_USED_def)

lemma tag_simps [simp]:
  assumes "k \<le> MAX_ORDER"
  shows "free_tag k \<noteq> ST_NONE" "ST_NONE \<noteq> free_tag k" "free_tag k \<noteq> ST_RESERVED"
    "ST_RESERVED \<noteq> free_tag k" "used_tag k \<noteq> ST_NONE" "ST_NONE \<noteq> used_tag k"
    "used_tag k \<noteq> ST_RESERVED" "ST_RESERVED \<noteq> used_tag k"
    "used_tag k AND ST_KIND = ST_USED" "free_tag k AND ST_KIND \<noteq> ST_USED"
    "unat (used_tag k AND ST_ORDER) = k"
  using tags_kinds assms by metis+

lemma tag_inj [simp]:
  assumes "k \<le> MAX_ORDER" "k' \<le> MAX_ORDER"
  shows "free_tag k = free_tag k' \<longleftrightarrow> k = k'" "used_tag k = used_tag k' \<longleftrightarrow> k = k'"
    "free_tag k \<noteq> used_tag k'" "used_tag k' \<noteq> free_tag k"
  using tags_table assms by metis+

section \<open>Block arithmetic\<close>

abbreviation blk :: "nat \<Rightarrow> nat \<Rightarrow> nat set" where
  "blk i k \<equiv> {i..<i + 2 ^ k}"

lemma buddy_xor:
  fixes i :: nat
  assumes "2 ^ k dvd i"
  shows "i XOR 2 ^ k = (if even (i div 2 ^ k) then i + 2 ^ k else i - 2 ^ k)"
proof -
  obtain m where i: "i = push_bit k m"
    using assms by (auto simp: push_bit_eq_mult dvd_def mult.commute)
  have "i XOR 2 ^ k = push_bit k m XOR push_bit k 1" using i by (simp add: push_bit_eq_mult)
  also have "\<dots> = push_bit k (m XOR 1)" by simp
  also have "\<dots> = (if even m then push_bit k m + 2 ^ k else push_bit k m - 2 ^ k)"
    by (auto simp: xor_Suc_0_eq push_bit_eq_mult algebra_simps elim!: oddE)
  finally show ?thesis using i by (simp add: push_bit_eq_mult)
qed

lemma buddy_involutive:
  fixes i :: nat
  shows "(i XOR 2 ^ k) XOR 2 ^ k = i"
  by (simp add: xor.assoc)

lemma buddy_neq: "(i::nat) XOR 2 ^ k \<noteq> i"
  by (metis xor.left_neutral xor_self_eq buddy_involutive xor.assoc xor.commute
      power_not_zero zero_neq_numeral)

lemma buddy_cases:
  fixes i :: nat
  assumes "2 ^ k dvd i"
  obtains (right) "i XOR 2 ^ k = i + 2 ^ k" "2 ^ Suc k dvd i"
  | (left) "i = (i XOR 2 ^ k) + 2 ^ k" "2 ^ Suc k dvd (i XOR 2 ^ k)"
proof (cases "even (i div 2 ^ k)")
  case True
  then have "2 ^ Suc k dvd i"
    using assms by (metis dvd_mult_div_cancel mult_dvd_mono dvd_refl power_Suc2)
  with True show ?thesis using that(1) by (simp add: buddy_xor [OF assms])
next
  case False
  obtain m where m: "i = 2 ^ k * m" using assms by auto
  then have "odd m" using False by simp
  then obtain n where "m = 2 * n + 1" by (elim oddE)
  then have i: "i = 2 ^ Suc k * n + 2 ^ k" using m by (simp add: algebra_simps)
  have "i XOR 2 ^ k = i - 2 ^ k" using False by (simp add: buddy_xor [OF assms])
  then have "i XOR 2 ^ k = 2 ^ Suc k * n" using i by linarith
  then show ?thesis using that(2) i by simp
qed

lemma buddy_merge:
  fixes i :: nat
  assumes "2 ^ k dvd i"
  shows "2 ^ Suc k dvd min i (i XOR 2 ^ k)"
    "blk (min i (i XOR 2 ^ k)) (Suc k) = blk i k \<union> blk (i XOR 2 ^ k) k"
  using assms by (cases rule: buddy_cases; auto)+

section \<open>Doubly linked lists in frame memory\<close>

text \<open>
  \<open>seg L p h xs q n\<close>: starting from the pointer \<open>h\<close>, the nodes of \<open>L\<close> form the list \<open>xs\<close>;
  the first node's predecessor is \<open>p\<close>, the last node is \<open>q\<close> and its successor \<open>n\<close>.
\<close>

fun seg :: "(nat \<Rightarrow> link) \<Rightarrow> nat \<Rightarrow> nat \<Rightarrow> nat list \<Rightarrow> nat \<Rightarrow> nat \<Rightarrow> bool" where
  "seg L p h [] q n \<longleftrightarrow> q = p \<and> n = h"
| "seg L p h (x # xs) q n \<longleftrightarrow>
     h = x \<and> x \<noteq> NIL \<and> l_prev (L x) = p \<and> seg L x (l_next (L x)) xs q n"

definition dll :: "(nat \<Rightarrow> link) \<Rightarrow> nat \<Rightarrow> nat list \<Rightarrow> bool" where
  "dll L h xs \<longleftrightarrow> (\<exists>q. seg L NIL h xs q NIL)"

lemma seg_append:
  "seg L p h (xs @ ys) q n \<longleftrightarrow> (\<exists>q' n'. seg L p h xs q' n' \<and> seg L q' n' ys q n)"
  by (induction xs arbitrary: p h) auto

lemma seg_frame:
  "seg L p h xs q n \<Longrightarrow> \<forall>x\<in>set xs. L' x = L x \<Longrightarrow> seg L' p h xs q n"
  by (induction xs arbitrary: p h) auto

lemma dll_frame: "dll L h xs \<Longrightarrow> \<forall>x\<in>set xs. L' x = L x \<Longrightarrow> dll L' h xs"
  using seg_frame unfolding dll_def by blast

lemma seg_last: "seg L p h xs q n \<Longrightarrow> xs \<noteq> [] \<Longrightarrow> q = last xs"
  by (induction xs arbitrary: p h) (auto split: if_splits)

lemma seg_not_NIL: "seg L p h xs q n \<Longrightarrow> x \<in> set xs \<Longrightarrow> x \<noteq> NIL"
  by (induction xs arbitrary: p h) auto

lemma dll_head: "dll L h xs \<Longrightarrow> h = (case xs of [] \<Rightarrow> NIL | x # _ \<Rightarrow> x)"
  by (cases xs) (auto simp: dll_def)

lemma dll_empty_iff: "dll L h xs \<Longrightarrow> h = NIL \<longleftrightarrow> xs = []"
  by (cases xs) (auto simp: dll_def)

lemma seg_set_next_last:
  "seg L p h xs q n \<Longrightarrow> xs \<noteq> [] \<Longrightarrow> distinct xs \<Longrightarrow> seg (L(q := (L q)\<lparr>l_next := n'\<rparr>)) p h xs q n'"
proof (induction xs arbitrary: p h)
  case (Cons x xs)
  show ?case
  proof (cases "xs = []")
    case False
    then have "q \<noteq> x" using Cons.prems seg_last [of L p h "x # xs" q n] by auto
    then show ?thesis using Cons False by simp
  qed (use Cons in simp)
qed simp

lemma seg_set_prev_first:
  assumes "seg L p h xs q n" "xs \<noteq> []" "distinct xs"
  shows "seg (L(h := (L h)\<lparr>l_prev := p'\<rparr>)) p' h xs q n"
proof -
  obtain ys where xs: "xs = h # ys" "distinct ys" "h \<notin> set ys" "h \<noteq> NIL"
    and ys: "seg L h (l_next (L h)) ys q n"
    using assms by (cases xs) auto
  have "seg (L(h := (L h)\<lparr>l_prev := p'\<rparr>)) h (l_next (L h)) ys q n"
    using xs by (intro seg_frame [OF ys]) auto
  then show ?thesis using xs by simp
qed

lemma dll_push:
  assumes "dll L h xs" "distinct xs" "x \<notin> set xs" "x \<noteq> NIL"
    and "L1 = L(x := \<lparr>l_next = h, l_prev = NIL\<rparr>)"
  shows "dll (if h \<noteq> NIL then L1(h := (L1 h)\<lparr>l_prev := x\<rparr>) else L1) x (x # xs)"
proof (cases xs)
  case Nil
  then show ?thesis using assms by (auto simp: dll_def)
next
  case (Cons y ys)
  then have h: "h = y" "h \<noteq> NIL" "x \<noteq> y" using assms by (auto simp: dll_def)
  obtain q where q: "seg L NIL h xs q NIL" using assms by (auto simp: dll_def)
  have "seg L1 NIL h xs q NIL" using assms(3,5) by (intro seg_frame [OF q]) auto
  then have "seg (L1(h := (L1 h)\<lparr>l_prev := x\<rparr>)) x h xs q NIL"
    using seg_set_prev_first Cons assms(2) by blast
  moreover have "L1 x = \<lparr>l_next = h, l_prev = NIL\<rparr>" using assms(5) by simp
  ultimately show ?thesis using h assms(4) by (auto simp: dll_def)
qed

lemma dll_unlink:
  assumes "dll L h (xs @ x # ys)" "distinct (xs @ x # ys)"
    and "p = l_prev (L x)" "n = l_next (L x)"
    and "L1 = (if p \<noteq> NIL then L(p := (L p)\<lparr>l_next := n\<rparr>) else L)"
    and "L2 = (if n \<noteq> NIL then L1(n := (L1 n)\<lparr>l_prev := p\<rparr>) else L1)"
  shows "dll L2 (if p \<noteq> NIL then h else n) (xs @ ys)"
    and "\<And>z. z \<notin> set (xs @ ys) \<Longrightarrow> L2 z = L z"
proof -
  obtain q where xs: "seg L NIL h xs p x" and ys: "seg L x n ys q NIL"
    using assms by (auto simp: dll_def seg_append)
  have p: "p \<noteq> NIL \<longleftrightarrow> xs \<noteq> []" "xs \<noteq> [] \<Longrightarrow> p \<in> set xs"
    using seg_last [OF xs] seg_not_NIL [OF xs] xs by (cases "xs = []"; auto)+
  have n: "n \<noteq> NIL \<longleftrightarrow> ys \<noteq> []" "ys \<noteq> [] \<Longrightarrow> n \<in> set ys"
    using ys by (cases ys; auto)+
  have h1: "seg L1 NIL (if p \<noteq> NIL then h else n) xs p n"
    using xs p(1) assms(2,5) seg_set_next_last [OF xs] by (cases "xs = []") auto
  then have "seg L2 NIL (if p \<noteq> NIL then h else n) xs p n"
    using n assms(2,6) by (intro seg_frame [OF h1]) auto
  moreover have "seg L1 x n ys q NIL"
    using p assms(2,5) by (intro seg_frame [OF ys]) auto
  then have "\<exists>q. seg L2 p n ys q NIL"
    using n(1) seg_set_prev_first [of L1 x n ys q NIL p] assms(2,6) by (cases ys) auto
  ultimately show "dll L2 (if p \<noteq> NIL then h else n) (xs @ ys)"
    unfolding dll_def seg_append by blast
  show "\<And>z. z \<notin> set (xs @ ys) \<Longrightarrow> L2 z = L z" using p n assms(5,6) by auto
qed

section \<open>The shape of the state bytes\<close>

text \<open>
  \<open>shape H S\<close>: every byte of \<open>S\<close> is valid; every block head is aligned, its block is in
  range and the rest of the block is marked \<^const>\<open>ST_NONE\<close>; every such mark is either
  inside a block or in the hole \<open>H\<close> (the frames in transit inside an operation); and no free
  block below the largest order has a free buddy of its order.
\<close>

definition free_head :: "u8 list \<Rightarrow> nat \<Rightarrow> nat \<Rightarrow> bool" where
  "free_head S i k \<longleftrightarrow> k \<le> MAX_ORDER \<and> i < length S \<and> S ! i = free_tag k"

definition used_head :: "u8 list \<Rightarrow> nat \<Rightarrow> nat \<Rightarrow> bool" where
  "used_head S i k \<longleftrightarrow> k \<le> MAX_ORDER \<and> i < length S \<and> S ! i = used_tag k"

definition block_head :: "u8 list \<Rightarrow> nat \<Rightarrow> nat \<Rightarrow> bool" where
  "block_head S i k \<longleftrightarrow> free_head S i k \<or> used_head S i k"

lemmas head_defs = free_head_def used_head_def block_head_def

definition shape :: "nat set \<Rightarrow> u8 list \<Rightarrow> bool" where
  "shape H S \<longleftrightarrow>
     (\<forall>i<length S. S ! i = ST_NONE \<or> S ! i = ST_RESERVED \<or> (\<exists>k. block_head S i k)) \<and>
     (\<forall>i k. block_head S i k \<longrightarrow> 2 ^ k dvd i \<and> i + 2 ^ k \<le> length S \<and>
        (\<forall>j. i < j \<and> j < i + 2 ^ k \<longrightarrow> S ! j = ST_NONE \<and> j \<notin> H)) \<and>
     (\<forall>j<length S. S ! j = ST_NONE \<longrightarrow> j \<in> H \<or> (\<exists>i k. block_head S i k \<and> i < j \<and> j < i + 2 ^ k)) \<and>
     (\<forall>j\<in>H. j < length S \<and> S ! j = ST_NONE) \<and>
     (\<forall>i k. k < MAX_ORDER \<and> free_head S i k \<longrightarrow> \<not> free_head S (i XOR 2 ^ k) k)"

definition free_set :: "u8 list \<Rightarrow> nat set" where
  "free_set S = {j. \<exists>i k. free_head S i k \<and> j \<in> blk i k}"

definition used_set :: "u8 list \<Rightarrow> nat set" where
  "used_set S = {j. \<exists>i k. used_head S i k \<and> j \<in> blk i k}"

definition reserved_set :: "u8 list \<Rightarrow> nat set" where
  "reserved_set S = {j. j < length S \<and> S ! j = ST_RESERVED}"

lemma shapeD:
  assumes "shape H S"
  shows "i < length S \<Longrightarrow> S ! i = ST_NONE \<or> S ! i = ST_RESERVED \<or> (\<exists>k. block_head S i k)"
    and "block_head S i k \<Longrightarrow> 2 ^ k dvd i" and "block_head S i k \<Longrightarrow> i + 2 ^ k \<le> length S"
    and "block_head S i k \<Longrightarrow> i < j \<Longrightarrow> j < i + 2 ^ k \<Longrightarrow> S ! j = ST_NONE"
    and "block_head S i k \<Longrightarrow> i < j \<Longrightarrow> j < i + 2 ^ k \<Longrightarrow> j \<notin> H"
    and "j < length S \<Longrightarrow> S ! j = ST_NONE \<Longrightarrow> j \<notin> H \<Longrightarrow>
      \<exists>i k. block_head S i k \<and> i < j \<and> j < i + 2 ^ k"
    and "j \<in> H \<Longrightarrow> j < length S" and "j \<in> H \<Longrightarrow> S ! j = ST_NONE"
    and "k < MAX_ORDER \<Longrightarrow> free_head S i k \<Longrightarrow> \<not> free_head S (i XOR 2 ^ k) k"
  using assms unfolding shape_def by blast+

lemma head_not_NONE: "block_head S i k \<Longrightarrow> S ! i \<noteq> ST_NONE \<and> S ! i \<noteq> ST_RESERVED"
  by (auto simp: head_defs)

lemma head_unique: "block_head S i k \<Longrightarrow> block_head S i k' \<Longrightarrow> k = k'"
  by (auto simp: head_defs)

lemma head_order: "block_head S i k \<Longrightarrow> k \<le> MAX_ORDER \<and> i < length S"
  by (auto simp: head_defs)

lemma blocks_disjoint:
  assumes "shape H S" "block_head S i k" "block_head S i' k'" "i \<noteq> i'"
  shows "blk i k \<inter> blk i' k' = {}"
proof -
  have "\<not> (i < i' \<and> i' < i + 2 ^ k)" "\<not> (i' < i \<and> i < i' + 2 ^ k')"
    using shapeD(4) [OF assms(1)] assms(2,3) head_not_NONE by metis+
  then show ?thesis using assms(4) by auto
qed

lemma block_hole_disjoint:
  assumes "shape H S" "block_head S i k"
  shows "blk i k \<inter> H = {}"
  using shapeD(5) [OF assms] shapeD(8) [OF assms(1)] head_not_NONE [OF assms(2)]
  by (metis IntE atLeastLessThan_iff ex_in_conv order_le_less)

lemma block_reserved_disjoint:
  assumes "shape H S" "block_head S i k"
  shows "blk i k \<inter> reserved_set S = {}"
  using shapeD(4) [OF assms] head_not_NONE [OF assms(2)]
  by (fastforce simp: reserved_set_def le_less)

lemma head_update:
  assumes "i < length S"
  shows "free_head (S[i := v]) j k \<longleftrightarrow> (if j = i then k \<le> MAX_ORDER \<and> v = free_tag k else free_head S j k)"
    and "used_head (S[i := v]) j k \<longleftrightarrow> (if j = i then k \<le> MAX_ORDER \<and> v = used_tag k else used_head S j k)"
    and "block_head (S[i := v]) j k \<longleftrightarrow>
      (if j = i then k \<le> MAX_ORDER \<and> (v = free_tag k \<or> v = used_tag k) else block_head S j k)"
  using assms by (auto simp: head_defs)

text \<open>A block is taken out: its frames join the hole.\<close>

lemma shape_take:
  assumes "shape H S" "block_head S i k"
  shows "shape (H \<union> blk i k) (S[i := ST_NONE])"
proof -
  note D = shapeD [OF assms(1)]
  have i: "i < length S" "k \<le> MAX_ORDER" using head_order assms(2) by auto
  have nb: "\<not> block_head (S[i := ST_NONE]) i k'" for k' using i by (auto simp: head_update)
  have ob: "block_head (S[i := ST_NONE]) j k' \<longleftrightarrow> j \<noteq> i \<and> block_head S j k'" for j k'
    using i by (auto simp: head_update)
  have disj: "block_head S j k' \<Longrightarrow> j \<noteq> i \<Longrightarrow> blk j k' \<inter> blk i k = {}" for j k'
    using blocks_disjoint [OF assms(1)] assms(2) by blast
  show ?thesis unfolding shape_def
  proof (intro conjI allI impI ballI; (elim conjE)?)
    fix j assume j: "j < length (S[i := ST_NONE])"
    then show "S[i := ST_NONE] ! j = ST_NONE \<or> S[i := ST_NONE] ! j = ST_RESERVED \<or>
        (\<exists>k'. block_head (S[i := ST_NONE]) j k')"
      using D(1) [of j] i ob by (cases "j = i") auto
    assume "S[i := ST_NONE] ! j = ST_NONE"
    then show "j \<in> H \<union> blk i k \<or> (\<exists>i' k'. block_head (S[i := ST_NONE]) i' k' \<and> i' < j \<and> j < i' + 2 ^ k')"
      using D(6) [of j] j i ob head_unique [OF assms(2)] by (cases "j = i") fastforce+
  next
    fix i' k' assume "block_head (S[i := ST_NONE]) i' k'"
    then have b: "i' \<noteq> i" "block_head S i' k'" using ob by auto
    show "2 ^ k' dvd i'" "i' + 2 ^ k' \<le> length (S[i := ST_NONE])" using D(2,3) b by auto
    fix j assume j: "i' < j" "j < i' + 2 ^ k'"
    then have "j \<notin> blk i k" using disj [OF b(2,1)] by auto
    then show "S[i := ST_NONE] ! j = ST_NONE" "j \<notin> H \<union> blk i k"
      using D(4,5) [OF b(2) j] by (auto simp: nth_list_update [OF i(1)])
  next
    fix j assume "j \<in> H \<union> blk i k"
    then show "j < length (S[i := ST_NONE])" "S[i := ST_NONE] ! j = ST_NONE"
      using D(7,8) D(3,4) [OF assms(2)] by (auto simp: nth_list_update [OF i(1)])
  next
    fix i' k' assume "k' < MAX_ORDER" "free_head (S[i := ST_NONE]) i' k'"
    then show "\<not> free_head (S[i := ST_NONE]) (i' XOR 2 ^ k') k'"
      using D(9) i by (auto simp: head_update split: if_splits)
  qed
qed

text \<open>A block made of hole frames is put back, as an allocated or as a free block.\<close>

lemma shape_put:
  assumes "shape H S" "blk i k \<subseteq> H" "k \<le> MAX_ORDER" "2 ^ k dvd i" "v = free_tag k \<or> v = used_tag k"
    and nb: "v = free_tag k \<Longrightarrow> k < MAX_ORDER \<Longrightarrow> \<not> free_head S (i XOR 2 ^ k) k"
  shows "shape (H - blk i k) (S[i := v])"
proof -
  note D = shapeD [OF assms(1)]
  have "1 \<le> (2::nat) ^ k" by simp
  then have "i + (2 ^ k - 1) \<in> blk i k" unfolding atLeastLessThan_iff by linarith
  then have H: "i \<in> H" "i + (2 ^ k - 1) \<in> H" using assms(2) by auto
  have i: "i < length S" "S ! i = ST_NONE" using D(7,8) [OF H(1)] by auto
  have ik: "i + 2 ^ k \<le> length S" using D(7) [OF H(2)] \<open>1 \<le> 2 ^ k\<close> by linarith
  have ob: "block_head (S[i := v]) j k' \<longleftrightarrow> (if j = i then k' = k else block_head S j k')" for j k'
    using i assms(3,5) by (auto simp: head_update)
  have out: "block_head S i' k' \<Longrightarrow> i' < j \<Longrightarrow> j < i' + 2 ^ k' \<Longrightarrow> j \<noteq> i" for i' k' j
    using D(5) H(1) by blast
  show ?thesis unfolding shape_def
  proof (intro conjI allI impI ballI; (elim conjE)?)
    fix j assume j: "j < length (S[i := v])"
    then show "S[i := v] ! j = ST_NONE \<or> S[i := v] ! j = ST_RESERVED \<or> (\<exists>k'. block_head (S[i := v]) j k')"
      using D(1) [of j] ob by (cases "j = i") auto
    assume n: "S[i := v] ! j = ST_NONE"
    have ji: "j \<noteq> i" using n assms(3,5) i by auto
    show "j \<in> H - blk i k \<or> (\<exists>i' k'. block_head (S[i := v]) i' k' \<and> i' < j \<and> j < i' + 2 ^ k')"
    proof (cases "j \<in> blk i k")
      case True
      then have "block_head (S[i := v]) i k \<and> i < j \<and> j < i + 2 ^ k" using ob [of i k] ji by auto
      then show ?thesis by blast
    next
      case False
      then have "j \<in> H \<or> (\<exists>i' k'. block_head S i' k' \<and> i' < j \<and> j < i' + 2 ^ k')"
        using D(6) [of j] j n ji by auto
      moreover have "block_head S i' k' \<Longrightarrow> block_head (S[i := v]) i' k'" for i' k'
        using ob [of i' k'] i head_not_NONE [of S i' k'] by (cases "i' = i") auto
      ultimately show ?thesis using False by blast
    qed
  next
    fix i' k' assume b: "block_head (S[i := v]) i' k'"
    show "2 ^ k' dvd i'" "i' + 2 ^ k' \<le> length (S[i := v])"
      using b ob [of i' k'] D(2,3) [of i' k'] assms(4) ik by (auto split: if_splits)
    fix j assume j: "i' < j" "j < i' + 2 ^ k'"
    show "S[i := v] ! j = ST_NONE" "j \<notin> H - blk i k"
      using b ob [of i' k'] D(4,5) [of i' k' j] D(8) [of j] out [of i' k' j] j subsetD [OF assms(2), of j]
      by (auto split: if_splits)
  next
    fix j assume "j \<in> H - blk i k"
    then show "j < length (S[i := v])" "S[i := v] ! j = ST_NONE"
      using D(7,8) by (auto simp: nth_list_update [OF i(1)])
  next
    fix i' k' assume k': "k' < MAX_ORDER" "free_head (S[i := v]) i' k'"
    show "\<not> free_head (S[i := v]) (i' XOR 2 ^ k') k'"
      using k' D(9) [of k' i'] nb i assms(3,5) buddy_neq [of i' k'] buddy_involutive [of i' k']
      by (auto simp: head_update split: if_splits)
  qed
qed

lemma shape_reserve:
  assumes "shape H S" "j \<in> H"
  shows "shape (H - {j}) (S[j := ST_RESERVED])"
proof -
  note D = shapeD [OF assms(1)]
  have j: "j < length S" "S ! j = ST_NONE" using D(7,8) assms(2) by auto
  have fh: "free_head (S[j := ST_RESERVED]) i k \<longleftrightarrow> free_head S i k"
    and ob: "block_head (S[j := ST_RESERVED]) i k \<longleftrightarrow> block_head S i k" for i k
    using j by (auto simp: head_update; auto simp: head_defs)+
  show ?thesis unfolding shape_def fh ob
  proof (intro conjI allI impI ballI; (elim conjE)?)
    fix i assume i: "i < length (S[j := ST_RESERVED])"
    then show "S[j := ST_RESERVED] ! i = ST_NONE \<or> S[j := ST_RESERVED] ! i = ST_RESERVED \<or> (\<exists>k. block_head S i k)"
      using D(1) [of i] j by (cases "i = j") auto
    assume "S[j := ST_RESERVED] ! i = ST_NONE"
    then show "i \<in> H - {j} \<or> (\<exists>i' k'. block_head S i' k' \<and> i' < i \<and> i < i' + 2 ^ k')"
      using D(6) [of i] i j by (cases "i = j") auto
  next
    fix i k assume b: "block_head S i k"
    show "2 ^ k dvd i" "i + 2 ^ k \<le> length (S[j := ST_RESERVED])" using D(2,3) b by auto
    fix l assume l: "i < l" "l < i + 2 ^ k"
    then show "S[j := ST_RESERVED] ! l = ST_NONE" "l \<notin> H - {j}"
      using D(4,5) [OF b l] assms(2) by (cases "l = j"; auto)+
  qed (use D(7,8,9) in auto)
qed

lemma shape_unreserve:
  assumes "shape H S" "j < length S" "S ! j = ST_RESERVED"
  shows "shape (insert j H) (S[j := ST_NONE])"
proof -
  note D = shapeD [OF assms(1)]
  have fh: "free_head (S[j := ST_NONE]) i k \<longleftrightarrow> free_head S i k"
    and ob: "block_head (S[j := ST_NONE]) i k \<longleftrightarrow> block_head S i k" for i k
    using assms by (auto simp: head_update; auto simp: head_defs)+
  show ?thesis unfolding shape_def fh ob
  proof (intro conjI allI impI ballI; (elim conjE)?)
    fix i assume i: "i < length (S[j := ST_NONE])"
    then show "S[j := ST_NONE] ! i = ST_NONE \<or> S[j := ST_NONE] ! i = ST_RESERVED \<or> (\<exists>k. block_head S i k)"
      using D(1) [of i] assms by (cases "i = j") auto
    assume "S[j := ST_NONE] ! i = ST_NONE"
    then show "i \<in> insert j H \<or> (\<exists>i' k'. block_head S i' k' \<and> i' < i \<and> i < i' + 2 ^ k')"
      using D(6) [of i] i by (cases "i = j") auto
  next
    fix i k assume b: "block_head S i k"
    show "2 ^ k dvd i" "i + 2 ^ k \<le> length (S[j := ST_NONE])" using D(2,3) b by auto
    fix l assume l: "i < l" "l < i + 2 ^ k"
    then show "S[j := ST_NONE] ! l = ST_NONE" "l \<notin> insert j H"
      using D(4,5) [OF b l] assms(3) by (cases "l = j"; auto)+
  qed (use D(7,8,9) assms in \<open>auto simp: nth_list_update\<close>)
qed

text \<open>What the updates do to the sets of free, allocated and reserved frames.\<close>

lemma sets_take_free:
  assumes "shape H S" "free_head S i k"
  shows "free_set (S[i := ST_NONE]) = free_set S - blk i k"
    and "\<And>j k. used_head (S[i := ST_NONE]) j k \<longleftrightarrow> used_head S j k"
    and "reserved_set (S[i := ST_NONE]) = reserved_set S"
proof -
  have b: "block_head S i k" "i < length S" "k \<le> MAX_ORDER" "S ! i = free_tag k"
    using assms(2) by (auto simp: head_defs)
  have disj: "free_head S j k' \<Longrightarrow> j \<noteq> i \<Longrightarrow> blk j k' \<inter> blk i k = {}" for j k'
    using blocks_disjoint [OF assms(1), of j k' i k] b(1) by (auto simp: block_head_def)
  have same: "free_head S i k' \<longleftrightarrow> k' = k" for k' using b by (auto simp: free_head_def)
  have *: "free_head S j k' \<Longrightarrow> x \<in> blk j k' \<Longrightarrow> j \<noteq> i \<longleftrightarrow> x \<notin> blk i k" for j k' x
    using disj [of j k'] same [of k'] by (cases "j = i") auto
  show "free_set (S[i := ST_NONE]) = free_set S - blk i k"
  proof (rule set_eqI)
    fix x
    have "x \<in> free_set (S[i := ST_NONE]) \<longleftrightarrow> (\<exists>j k'. j \<noteq> i \<and> free_head S j k' \<and> x \<in> blk j k')"
      using b by (auto simp: free_set_def head_update split: if_splits)
    also have "\<dots> \<longleftrightarrow> x \<in> free_set S - blk i k"
      unfolding free_set_def using * by (simp only: Diff_iff mem_Collect_eq) metis
    finally show "x \<in> free_set (S[i := ST_NONE]) \<longleftrightarrow> x \<in> free_set S - blk i k" .
  qed
  show "used_head (S[i := ST_NONE]) j k' \<longleftrightarrow> used_head S j k'" for j k'
    using b by (auto simp: head_update; auto simp: used_head_def)
  show "reserved_set (S[i := ST_NONE]) = reserved_set S"
    using b by (auto simp: reserved_set_def nth_list_update)
qed

lemma sets_put_free:
  assumes "i < length S" "S ! i = ST_NONE" "k \<le> MAX_ORDER"
  shows "free_set (S[i := free_tag k]) = free_set S \<union> blk i k"
    and "\<And>j k'. used_head (S[i := free_tag k]) j k' \<longleftrightarrow> used_head S j k'"
    and "reserved_set (S[i := free_tag k]) = reserved_set S"
proof -
  have n: "\<not> free_head S i k'" "\<not> used_head S i k'" for k' using assms(2) by (auto simp: head_defs)
  have "free_head (S[i := free_tag k]) j k' \<longleftrightarrow> free_head S j k' \<or> j = i \<and> k' = k" for j k'
    using n assms by (auto simp: head_update)
  then have "x \<in> free_set (S[i := free_tag k]) \<longleftrightarrow> x \<in> free_set S \<union> blk i k" for x
    by (simp only: free_set_def mem_Collect_eq Un_iff) blast
  then show "free_set (S[i := free_tag k]) = free_set S \<union> blk i k" by blast
  show "used_head (S[i := free_tag k]) j k' \<longleftrightarrow> used_head S j k'" for j k'
    using n assms by (auto simp: head_update)
  show "reserved_set (S[i := free_tag k]) = reserved_set S"
    using assms by (auto simp: reserved_set_def nth_list_update)
qed

lemma sets_same_kind:
  assumes "i < length S" "\<And>k. k \<le> MAX_ORDER \<Longrightarrow> S ! i \<noteq> free_tag k" "\<And>k. k \<le> MAX_ORDER \<Longrightarrow> v \<noteq> free_tag k"
  shows "free_set (S[i := v]) = free_set S" "free_head (S[i := v]) j k \<longleftrightarrow> free_head S j k"
proof -
  show f: "free_head (S[i := v]) j k \<longleftrightarrow> free_head S j k" for j k
    using assms by (auto simp: head_update; auto simp: free_head_def)
  show "free_set (S[i := v]) = free_set S" by (simp add: free_set_def f)
qed

section \<open>The free lists\<close>

definition lists_ok :: "buddy \<Rightarrow> (nat \<Rightarrow> nat list) \<Rightarrow> bool" where
  "lists_ok b fl \<longleftrightarrow>
     length (b_heads b) = MAX_ORDER + 1 \<and> length (b_counts b) = MAX_ORDER + 1 \<and>
     length (b_state b) = b_frames b \<and> b_frames b + 2 ^ MAX_ORDER \<le> NIL \<and>
     (\<forall>k\<le>MAX_ORDER. dll (b_links b) (b_heads b ! k) (fl k) \<and> distinct (fl k) \<and>
        set (fl k) = {i. free_head (b_state b) i k} \<and> b_counts b ! k = length (fl k))"

lemma lists_okD:
  assumes "lists_ok b fl"
  shows "length (b_heads b) = MAX_ORDER + 1" "length (b_counts b) = MAX_ORDER + 1"
    "length (b_state b) = b_frames b" "b_frames b + 2 ^ MAX_ORDER \<le> NIL"
    "k \<le> MAX_ORDER \<Longrightarrow> dll (b_links b) (b_heads b ! k) (fl k)"
    "k \<le> MAX_ORDER \<Longrightarrow> distinct (fl k)"
    "k \<le> MAX_ORDER \<Longrightarrow> set (fl k) = {i. free_head (b_state b) i k}"
    "k \<le> MAX_ORDER \<Longrightarrow> b_counts b ! k = length (fl k)"
  using assms unfolding lists_ok_def by blast+

lemma push_fields [simp]:
  "b_state (push b i k) = (b_state b)[i := free_tag k]"
  "b_heads (push b i k) = (b_heads b)[k := i]"
  "b_counts (push b i k) = (b_counts b)[k := b_counts b ! k + 1]"
  "b_frames (push b i k) = b_frames b" "b_free_frames (push b i k) = b_free_frames b"
  "b_managed_frames (push b i k) = b_managed_frames b"
  by (simp_all add: push_def set_st_def Let_def)

lemma unlink_fields [simp]:
  "b_state (unlink b i k) = b_state b"
  "b_heads (unlink b i k) =
     (if l_prev (b_links b i) \<noteq> NIL then b_heads b else (b_heads b)[k := l_next (b_links b i)])"
  "b_counts (unlink b i k) = (b_counts b)[k := b_counts b ! k - 1]"
  "b_frames (unlink b i k) = b_frames b" "b_free_frames (unlink b i k) = b_free_frames b"
  "b_managed_frames (unlink b i k) = b_managed_frames b"
  by (simp_all add: unlink_def Let_def)

lemma set_st_fields [simp]:
  "b_state (set_st b i v) = (b_state b)[i := v]" "b_heads (set_st b i v) = b_heads b"
  "b_counts (set_st b i v) = b_counts b" "b_links (set_st b i v) = b_links b"
  "b_frames (set_st b i v) = b_frames b" "b_free_frames (set_st b i v) = b_free_frames b"
  "b_managed_frames (set_st b i v) = b_managed_frames b"
  by (simp_all add: set_st_def)

lemma lists_disjoint:
  assumes "lists_ok b fl" "k \<le> MAX_ORDER" "k' \<le> MAX_ORDER" "k \<noteq> k'"
  shows "set (fl k) \<inter> set (fl k') = {}"
  using lists_okD(7) [OF assms(1)] assms(2-4) by (auto simp: free_head_def)

lemma lists_head_mem:
  assumes "lists_ok b fl" "k \<le> MAX_ORDER" "b_heads b ! k \<noteq> NIL"
  shows "b_heads b ! k \<in> set (fl k)"
  using dll_head [OF lists_okD(5) [OF assms(1,2)]] assms(3) by (auto split: list.splits)

lemma lists_push:
  assumes ok: "lists_ok b fl" and i: "i < b_frames b" "b_state b ! i = ST_NONE" and k: "k \<le> MAX_ORDER"
  shows "lists_ok (push b i k) (fl(k := i # fl k))"
proof -
  note L = lists_okD [OF ok]
  let ?S = "b_state b"
  have ni: "i \<notin> set (fl k')" if "k' \<le> MAX_ORDER" for k' using L(7) [OF that] i that by (auto simp: free_head_def)
  have iN: "i \<noteq> NIL" using L(4) i by auto
  have fh: "{j. free_head (?S[i := free_tag k]) j k'} = (if k' = k then insert i (set (fl k)) else set (fl k'))"
    if "k' \<le> MAX_ORDER" for k'
    using L(3) L(7) [OF that] L(7) [OF k] i k that by (auto simp: head_update; auto simp: free_head_def)
  have links: "b_links (push b i k) =
      (let L1 = (b_links b)(i := \<lparr>l_next = b_heads b ! k, l_prev = NIL\<rparr>)
       in if b_heads b ! k \<noteq> NIL then L1(b_heads b ! k := (L1 (b_heads b ! k))\<lparr>l_prev := i\<rparr>) else L1)"
    by (simp add: push_def Let_def)
  have dk: "dll (b_links (push b i k)) i (i # fl k)"
    unfolding links Let_def by (rule dll_push [OF L(5) [OF k] L(6) [OF k] ni [OF k] iN refl])
  have dk': "dll (b_links (push b i k)) (b_heads b ! k') (fl k')" if "k' \<le> MAX_ORDER" "k' \<noteq> k" for k'
  proof (rule dll_frame [OF L(5) [OF that(1)]], rule ballI)
    fix x assume "x \<in> set (fl k')"
    then have "x \<noteq> i" "b_heads b ! k \<noteq> NIL \<Longrightarrow> x \<noteq> b_heads b ! k"
      using ni [OF that(1)] lists_head_mem [OF ok k] lists_disjoint [OF ok that(1) k that(2)] by auto
    then show "b_links (push b i k) x = b_links b x" by (simp add: links Let_def)
  qed
  show ?thesis
    unfolding lists_ok_def
    using L(1-4) L(6-8) dk dk' ni fh k by (auto simp: nth_list_update)
qed

lemma lists_take:
  assumes ok: "lists_ok b fl" and i: "free_head (b_state b) i k"
  shows "lists_ok (set_st (unlink b i k) i ST_NONE) (fl(k := remove1 i (fl k)))"
proof -
  note L = lists_okD [OF ok]
  let ?S = "b_state b" and ?L2 = "b_links (unlink b i k)"
  have k: "k \<le> MAX_ORDER" "i < length ?S" using i by (auto simp: free_head_def)
  have "i \<in> set (fl k)" using L(7) [OF k(1)] i by simp
  then obtain xs ys where fl: "fl k = xs @ i # ys" "i \<notin> set xs" by (meson split_list_first)
  have rem: "remove1 i (fl k) = xs @ ys" using fl by (simp add: remove1_append)
  let ?p = "l_prev (b_links b i)" and ?n = "l_next (b_links b i)"
  let ?L1 = "if ?p \<noteq> NIL then (b_links b)(?p := (b_links b ?p)\<lparr>l_next := ?n\<rparr>) else b_links b"
  have links: "?L2 = (if ?n \<noteq> NIL then ?L1(?n := (?L1 ?n)\<lparr>l_prev := ?p\<rparr>) else ?L1)"
    by (simp add: unlink_def Let_def)
  note un = dll_unlink [OF L(5) [OF k(1), unfolded fl(1)] L(6) [OF k(1), unfolded fl(1)] refl refl refl links]
  have dk': "dll ?L2 (b_heads b ! k') (fl k')" if "k' \<le> MAX_ORDER" "k' \<noteq> k" for k'
    by (rule dll_frame [OF L(5) [OF that(1)]], rule ballI, rule un(2))
      (use lists_disjoint [OF ok that(1) k(1) that(2)] fl in auto)
  have fh: "{j. free_head (?S[i := ST_NONE]) j k'} = (if k' = k then set (fl k) - {i} else set (fl k'))"
    if "k' \<le> MAX_ORDER" for k'
    using L(7) [OF that] L(7) [OF k(1)] i k that by (auto simp: head_update; auto simp: free_head_def)
  note dk = un(1) [folded rem]
  show ?thesis
    unfolding lists_ok_def
    using L(1-4) L(6-8) dk dk' fh k \<open>i \<in> set (fl k)\<close>
    by (auto simp: nth_list_update length_remove1)
qed

lemma lists_set_st:
  assumes ok: "lists_ok b fl" and i: "i < b_frames b"
    and v: "\<And>k. k \<le> MAX_ORDER \<Longrightarrow> b_state b ! i \<noteq> free_tag k" "\<And>k. k \<le> MAX_ORDER \<Longrightarrow> v \<noteq> free_tag k"
  shows "lists_ok (set_st b i v) fl"
proof -
  have "free_head ((b_state b)[i := v]) j k \<longleftrightarrow> free_head (b_state b) j k" for j k
    using sets_same_kind(2) [of i "b_state b"] i v lists_okD(3) [OF ok] by auto
  then show ?thesis using ok by (simp add: lists_ok_def)
qed

text \<open>The counters do not matter for the lists.\<close>

lemma lists_counters [simp]:
  "lists_ok (b\<lparr>b_free_frames := n\<rparr>) fl \<longleftrightarrow> lists_ok b fl"
  "lists_ok (b\<lparr>b_managed_frames := n\<rparr>) fl \<longleftrightarrow> lists_ok b fl"
  by (simp_all add: lists_ok_def)

section \<open>Well-formedness and the list operations\<close>

definition buddy_wf :: "nat set \<Rightarrow> buddy \<Rightarrow> bool" where
  "buddy_wf H b \<longleftrightarrow> (\<exists>fl. lists_ok b fl) \<and> shape H (b_state b)"

definition same_owned :: "buddy \<Rightarrow> buddy \<Rightarrow> bool" where
  "same_owned b b' \<longleftrightarrow>
     (\<forall>j k. used_head (b_state b') j k \<longleftrightarrow> used_head (b_state b) j k) \<and>
     reserved_set (b_state b') = reserved_set (b_state b) \<and> b_frames b' = b_frames b \<and>
     b_free_frames b' = b_free_frames b \<and> b_managed_frames b' = b_managed_frames b"

lemma same_owned_trans: "same_owned a b \<Longrightarrow> same_owned b c \<Longrightarrow> same_owned a c"
  by (simp add: same_owned_def)

lemma wf_length: "buddy_wf H b \<Longrightarrow> length (b_state b) = b_frames b"
  by (auto simp: buddy_wf_def dest: lists_okD(3))

lemma wf_hole: "buddy_wf H b \<Longrightarrow> j \<in> H \<Longrightarrow> j < b_frames b \<and> b_state b ! j = ST_NONE"
  using wf_length shapeD(7,8) by (metis buddy_wf_def)

lemma wf_counters [simp]:
  "buddy_wf H (b\<lparr>b_free_frames := n\<rparr>) \<longleftrightarrow> buddy_wf H b"
  "buddy_wf H (b\<lparr>b_managed_frames := n\<rparr>) \<longleftrightarrow> buddy_wf H b"
  by (simp_all add: buddy_wf_def)

lemma wf_take:
  assumes "buddy_wf H b" "free_head (b_state b) i k"
  shows "buddy_wf (H \<union> blk i k) (set_st (unlink b i k) i ST_NONE)"
    and "free_set (b_state (set_st (unlink b i k) i ST_NONE)) = free_set (b_state b) - blk i k"
    and "same_owned b (set_st (unlink b i k) i ST_NONE)"
  using assms lists_take [of b _ i k] shape_take [of H "b_state b" i k] sets_take_free [of H "b_state b" i k]
  by (auto simp: buddy_wf_def block_head_def same_owned_def)

lemma wf_push:
  assumes "buddy_wf H b" "blk i k \<subseteq> H" "k \<le> MAX_ORDER" "2 ^ k dvd i"
    "k < MAX_ORDER \<Longrightarrow> \<not> free_head (b_state b) (i XOR 2 ^ k) k"
  shows "buddy_wf (H - blk i k) (push b i k)"
    and "free_set (b_state (push b i k)) = free_set (b_state b) \<union> blk i k"
    and "same_owned b (push b i k)"
proof -
  have "i \<in> H" using assms(2) by auto
  then have i: "i < b_frames b" "b_state b ! i = ST_NONE" "i < length (b_state b)"
    using wf_hole [OF assms(1)] wf_length [OF assms(1)] by auto
  show "buddy_wf (H - blk i k) (push b i k)"
    using assms i lists_push [of b _ i k] shape_put [of H "b_state b" i k "free_tag k"]
    by (auto simp: buddy_wf_def)
  show "free_set (b_state (push b i k)) = free_set (b_state b) \<union> blk i k" "same_owned b (push b i k)"
    using sets_put_free [OF i(3,2) assms(3)] by (auto simp: same_owned_def)
qed

lemma wf_put_used:
  assumes "buddy_wf H b" "blk i k \<subseteq> H" "k \<le> MAX_ORDER" "2 ^ k dvd i"
  shows "buddy_wf (H - blk i k) (set_st b i (used_tag k))"
    and "free_set (b_state (set_st b i (used_tag k))) = free_set (b_state b)"
    and "used_head (b_state (set_st b i (used_tag k))) j k' \<longleftrightarrow> used_head (b_state b) j k' \<or> j = i \<and> k' = k"
    and "reserved_set (b_state (set_st b i (used_tag k))) = reserved_set (b_state b)"
proof -
  have "i \<in> H" using assms(2) by auto
  then have i: "i < b_frames b" "b_state b ! i = ST_NONE" "i < length (b_state b)"
    using wf_hole [OF assms(1)] wf_length [OF assms(1)] by auto
  show "buddy_wf (H - blk i k) (set_st b i (used_tag k))"
    using assms i lists_set_st [of b _ i "used_tag k"] shape_put [of H "b_state b" i k "used_tag k"]
    by (auto simp: buddy_wf_def)
  show "free_set (b_state (set_st b i (used_tag k))) = free_set (b_state b)"
    using sets_same_kind(1) [OF i(3)] i assms(3) by auto
  show "used_head (b_state (set_st b i (used_tag k))) j k' \<longleftrightarrow> used_head (b_state b) j k' \<or> j = i \<and> k' = k"
    using i assms(3) by (auto simp: head_update; auto simp: used_head_def)
  show "reserved_set (b_state (set_st b i (used_tag k))) = reserved_set (b_state b)"
    using i assms(3) by (auto simp: reserved_set_def nth_list_update)
qed

lemma wf_take_used:
  assumes "buddy_wf H b" "used_head (b_state b) i k"
  shows "buddy_wf (H \<union> blk i k) (set_st b i ST_NONE)"
    and "free_set (b_state (set_st b i ST_NONE)) = free_set (b_state b)"
    and "used_head (b_state (set_st b i ST_NONE)) j k' \<longleftrightarrow> used_head (b_state b) j k' \<and> j \<noteq> i"
    and "reserved_set (b_state (set_st b i ST_NONE)) = reserved_set (b_state b)"
proof -
  have i: "i < length (b_state b)" "b_state b ! i = used_tag k" "k \<le> MAX_ORDER"
    using assms(2) by (auto simp: used_head_def)
  show "buddy_wf (H \<union> blk i k) (set_st b i ST_NONE)"
    using assms i lists_set_st [of b _ i ST_NONE] shape_take [of H "b_state b" i k] wf_length [OF assms(1)]
    by (auto simp: buddy_wf_def block_head_def)
  show "free_set (b_state (set_st b i ST_NONE)) = free_set (b_state b)"
    using sets_same_kind(1) [OF i(1)] i by auto
  show "used_head (b_state (set_st b i ST_NONE)) j k' \<longleftrightarrow> used_head (b_state b) j k' \<and> j \<noteq> i"
    using i by (auto simp: head_update)
  show "reserved_set (b_state (set_st b i ST_NONE)) = reserved_set (b_state b)"
    using i by (auto simp: reserved_set_def nth_list_update)
qed

text \<open>Merging and splitting.\<close>

lemma release_loop_ok:
  assumes "buddy_wf H b" "blk i k \<subseteq> H" "k \<le> MAX_ORDER" "2 ^ k dvd i"
  shows "buddy_wf (H - blk i k) (release_loop b i k) \<and>
    free_set (b_state (release_loop b i k)) = free_set (b_state b) \<union> blk i k \<and>
    same_owned b (release_loop b i k)"
  using assms
proof (induction b i k arbitrary: H rule: release_loop.induct)
  case (1 b i k)
  let ?j = "i XOR 2 ^ k" and ?S = "b_state b"
  show ?case
  proof (cases "k < MAX_ORDER \<and> ?j < b_frames b \<and> st b ?j = free_tag k")
    case False
    then have eq: "release_loop b i k = push b i k"
      by (subst release_loop.simps) (auto simp: Let_def)
    have "k < MAX_ORDER \<Longrightarrow> \<not> free_head ?S ?j k"
      using False wf_length [OF "1.prems"(1)] by (auto simp: free_head_def st_def)
    then show ?thesis unfolding eq using wf_push [OF "1.prems"] by simp
  next
    case True
    let ?b = "set_st (unlink b ?j k) ?j ST_NONE"
    have fh: "free_head ?S ?j k"
      using True wf_length [OF "1.prems"(1)] by (auto simp: free_head_def st_def)
    note T = wf_take [OF "1.prems"(1) fh]
    note M = buddy_merge [OF "1.prems"(4)]
    have eq: "release_loop b i k = release_loop ?b (min i ?j) (k + 1)"
      using True by (subst release_loop.simps) (simp add: Let_def)
    have M2: "blk (min i ?j) (k + 1) = blk i k \<union> blk ?j k" using M(2) by simp
    have sub: "blk (min i ?j) (k + 1) \<subseteq> H \<union> blk ?j k" unfolding M2 using "1.prems"(2) by blast
    have disj: "blk ?j k \<inter> H = {}"
      using block_hole_disjoint [of H ?S ?j k] "1.prems"(1) fh by (simp add: buddy_wf_def block_head_def)
    have "buddy_wf (H \<union> blk ?j k - blk (min i ?j) (k + 1)) (release_loop b i k) \<and>
        free_set (b_state (release_loop b i k)) = free_set (b_state ?b) \<union> blk (min i ?j) (k + 1) \<and>
        same_owned ?b (release_loop b i k)"
      unfolding eq using "1.IH" [OF _ refl _ T(1) sub] True M(1) by auto
    moreover have "H \<union> blk ?j k - blk (min i ?j) (k + 1) = H - blk i k"
      unfolding M2 using disj by blast
    moreover have "blk ?j k \<subseteq> free_set ?S" using fh unfolding free_set_def by blast
    then have "free_set (b_state ?b) \<union> blk (min i ?j) (k + 1) = free_set ?S \<union> blk i k"
      unfolding M2 T(2) by blast
    ultimately show ?thesis using same_owned_trans [OF T(3)] by simp
  qed
qed

lemma release_ok:
  assumes "buddy_wf H b" "blk i k \<subseteq> H" "k \<le> MAX_ORDER" "2 ^ k dvd i"
  shows "buddy_wf (H - blk i k) (release b i k)"
    "free_set (b_state (release b i k)) = free_set (b_state b) \<union> blk i k"
    "same_owned b (release b i k)"
proof -
  have "i \<in> H" using assms(2) by auto
  then have "(b_state b)[i := ST_NONE] = b_state b" using wf_hole [OF assms(1)] by (metis list_update_id)
  then have "set_st b i ST_NONE = b" by (simp add: set_st_def)
  then show "buddy_wf (H - blk i k) (release b i k)"
    "free_set (b_state (release b i k)) = free_set (b_state b) \<union> blk i k"
    "same_owned b (release b i k)"
    using release_loop_ok [OF assms] by (simp_all add: release_def)
qed

lemma split_loop_ok:
  assumes "buddy_wf H b" "blk i k \<subseteq> H" "k \<le> MAX_ORDER" "2 ^ k dvd i" "order \<le> k"
  shows "buddy_wf (H - (blk i k - blk i order)) (split_loop b i order k) \<and>
    free_set (b_state (split_loop b i order k)) = free_set (b_state b) \<union> (blk i k - blk i order) \<and>
    same_owned b (split_loop b i order k)"
  using assms
proof (induction k arbitrary: b H)
  case 0
  then show ?case by (subst (1 2 3) split_loop.simps) (simp add: same_owned_def)
next
  case (Suc k)
  show ?case
  proof (cases "order = Suc k")
    case True
    then show ?thesis using Suc.prems by (subst (1 2 3) split_loop.simps) (simp add: same_owned_def)
  next
    case False
    let ?j = "i + 2 ^ k" and ?b = "push b (i + 2 ^ k) k"
    have eq: "split_loop b i order (Suc k) = split_loop ?b i order k"
      using False Suc.prems(5) by (subst split_loop.simps) simp
    have sub: "blk ?j k \<subseteq> H" using Suc.prems(2) by (auto simp: subset_iff)
    have al: "2 ^ k dvd i" "2 ^ k dvd ?j" using Suc.prems(4) by (auto elim: dvd_trans [OF le_imp_power_dvd])
    have "even (i div 2 ^ k)" using Suc.prems(4) al(1) by auto
    then have buddy: "?j XOR 2 ^ k = i" using buddy_xor [OF al(1)] buddy_involutive [of i k] by simp
    have "i \<in> H" using Suc.prems(2) by (auto simp: subset_iff)
    then have nf: "\<not> free_head (b_state b) (?j XOR 2 ^ k) k"
      using wf_hole [OF Suc.prems(1)] buddy by (auto simp: free_head_def)
    have k: "k \<le> MAX_ORDER" using Suc.prems(3) by simp
    note P = wf_push [OF Suc.prems(1) sub k al(2) nf]
    have o: "order \<le> k" using False Suc.prems(5) by simp
    then have sub': "blk i order \<subseteq> blk i k" by (auto intro: less_le_trans)
    have two: "blk i (Suc k) = blk i k \<union> blk ?j k" "blk i k \<inter> blk ?j k = {}" by auto
    have "blk i k \<subseteq> H - blk ?j k" using Suc.prems(2) two by blast
    note IH = Suc.IH [OF P(1) this k al(1) o]
    have "H - blk ?j k - (blk i k - blk i order) = H - (blk i (Suc k) - blk i order)"
      "free_set (b_state ?b) \<union> (blk i k - blk i order) = free_set (b_state b) \<union> (blk i (Suc k) - blk i order)"
      unfolding two(1) P(2) using two(2) sub' by blast+
    then show ?thesis unfolding eq using IH same_owned_trans [OF P(3)] by simp
  qed
qed

lemma split_loop_set_st:
  "set_st (split_loop (set_st b i v') i order k) i v = set_st (split_loop b i order k) i v"
proof (induction k arbitrary: b)
  case (Suc k)
  have "push (set_st b i v') (i + 2 ^ k) k = set_st (push b (i + 2 ^ k) k) i v'"
    by (simp add: push_def set_st_def Let_def list_update_swap)
  then have "split_loop (set_st b i v') i order (Suc k) =
      (if order < Suc k then split_loop (set_st (push b (i + 2 ^ k) k) i v') i order k else set_st b i v')"
    by (subst split_loop.simps) simp
  moreover have "split_loop b i order (Suc k) =
      (if order < Suc k then split_loop (push b (i + 2 ^ k) k) i order k else b)"
    by (subst split_loop.simps) simp
  moreover have "set_st (set_st b i v') i v = set_st b i v" by (simp add: set_st_def)
  ultimately show ?case using Suc by simp
qed (subst (1 2) split_loop.simps, simp add: set_st_def)

section \<open>The allocator invariant\<close>

definition buddy_acc :: "nat set \<Rightarrow> buddy \<Rightarrow> bool" where
  "buddy_acc H b \<longleftrightarrow> buddy_wf H b \<and> b_free_frames b = card (free_set (b_state b)) \<and>
     b_managed_frames b + card (reserved_set (b_state b)) = b_frames b"

definition buddy_inv :: "buddy \<Rightarrow> bool" where
  "buddy_inv b \<longleftrightarrow> buddy_acc {} b"

lemma free_set_range: "shape H S \<Longrightarrow> free_set S \<subseteq> {..<length S}"
  using shapeD(3) by (fastforce simp: free_set_def block_head_def)

lemma free_set_finite [simp]: "shape H S \<Longrightarrow> finite (free_set S)"
  using free_set_range finite_subset by blast

lemma used_free_disjoint:
  assumes "shape H S" "used_head S i k"
  shows "blk i k \<inter> free_set S = {}"
proof -
  have "blk i k \<inter> blk j k' = {}" if "free_head S j k'" for j k'
  proof (rule blocks_disjoint [OF assms(1)])
    show "i \<noteq> j" using that assms(2) by (auto simp: head_defs)
  qed (use that assms(2) in \<open>simp_all add: block_head_def\<close>)
  then show ?thesis unfolding free_set_def by blast
qed

text \<open>Every frame is reserved, free, or part of an allocated block, and only one of these.\<close>

lemma frames_partition:
  assumes "shape {} S"
  shows "reserved_set S \<union> free_set S \<union> used_set S = {..<length S}"
    and "reserved_set S \<inter> free_set S = {}" "reserved_set S \<inter> used_set S = {}" "free_set S \<inter> used_set S = {}"
proof -
  note D = shapeD [OF assms]
  have cov: "block_head S j k \<Longrightarrow> x \<in> blk j k \<Longrightarrow> x \<in> free_set S \<union> used_set S" for j k x
    unfolding block_head_def free_set_def used_set_def by blast
  have "x \<in> reserved_set S \<union> free_set S \<union> used_set S" if x: "x < length S" for x
    using D(1) [OF x]
  proof (elim disjE exE)
    assume "S ! x = ST_NONE"
    then obtain i k where "block_head S i k" "i < x" "x < i + 2 ^ k" using D(6) [OF x] by auto
    then show ?thesis using cov [of i k x] by auto
  next
    fix k assume "block_head S x k"
    then show ?thesis using cov [of x k x] by auto
  qed (use x in \<open>simp add: reserved_set_def\<close>)
  moreover have "used_set S \<subseteq> {..<length S}"
    using D(3) by (fastforce simp: used_set_def block_head_def)
  ultimately show "reserved_set S \<union> free_set S \<union> used_set S = {..<length S}"
    using free_set_range [OF assms] by (auto simp: reserved_set_def)
  have r: "block_head S j k \<Longrightarrow> blk j k \<inter> reserved_set S = {}" for j k
    by (rule block_reserved_disjoint [OF assms])
  then show "reserved_set S \<inter> free_set S = {}" "reserved_set S \<inter> used_set S = {}"
    unfolding free_set_def used_set_def block_head_def by blast+
  show "free_set S \<inter> used_set S = {}"
    using used_free_disjoint [OF assms] unfolding used_set_def by blast
qed

lemma acc_shape: "buddy_acc H b \<Longrightarrow> shape H (b_state b)"
  by (simp add: buddy_acc_def buddy_wf_def)

lemma acc_wf: "buddy_acc H b \<Longrightarrow> buddy_wf H b"
  by (simp add: buddy_acc_def)

lemma acc_length: "buddy_acc H b \<Longrightarrow> length (b_state b) = b_frames b"
  using wf_length acc_wf by blast

lemma hole_free_disjoint:
  assumes "shape H S" shows "H \<inter> free_set S = {}"
  using block_hole_disjoint [OF assms] unfolding free_set_def block_head_def by blast

lemma release_acc:
  assumes "buddy_acc H b" "blk i k \<subseteq> H" "k \<le> MAX_ORDER" "2 ^ k dvd i"
    and "b' = release (b\<lparr>b_free_frames := b_free_frames b + 2 ^ k\<rparr>) i k"
  shows "buddy_acc (H - blk i k) b'"
    and "free_set (b_state b') = free_set (b_state b) \<union> blk i k"
    and "used_head (b_state b') j k' \<longleftrightarrow> used_head (b_state b) j k'"
    and "reserved_set (b_state b') = reserved_set (b_state b)" and "b_frames b' = b_frames b"
proof -
  let ?b = "b\<lparr>b_free_frames := b_free_frames b + 2 ^ k\<rparr>"
  have "buddy_wf H ?b" using assms(1) by (simp add: buddy_acc_def)
  note R = release_ok [OF this assms(2-4), folded assms(5)]
  have "blk i k \<inter> free_set (b_state b) = {}"
    using hole_free_disjoint [OF acc_shape [OF assms(1)]] assms(2) by blast
  then have "card (free_set (b_state b) \<union> blk i k) = card (free_set (b_state b)) + 2 ^ k"
    using acc_shape [OF assms(1)] by (subst card_Un_disjoint) auto
  then show "buddy_acc (H - blk i k) b'" "free_set (b_state b') = free_set (b_state b) \<union> blk i k"
    "used_head (b_state b') j k' \<longleftrightarrow> used_head (b_state b) j k'"
    "reserved_set (b_state b') = reserved_set (b_state b)" "b_frames b' = b_frames b"
    using R assms(1) by (auto simp: buddy_acc_def same_owned_def)
qed

subsection \<open>Allocation\<close>

lemma find_order_spec:
  "order \<le> find_order b order"
  "find_order b order \<le> MAX_ORDER \<Longrightarrow> b_heads b ! find_order b order \<noteq> NIL"
  "order \<le> j \<Longrightarrow> j < find_order b order \<Longrightarrow> j \<le> MAX_ORDER \<Longrightarrow> b_heads b ! j = NIL"
proof (induction b order rule: find_order.induct)
  case (1 b order)
  have eq: "find_order b order =
      (if order \<le> MAX_ORDER \<and> b_heads b ! order = NIL then find_order b (order + 1) else order)"
    by (rule find_order.simps)
  {
    case 1 show ?case using "1.IH"(1) eq by (auto split: if_splits)
  next
    case 2 then show ?case using "1.IH"(2) eq by (auto split: if_splits)
  next
    case 3 then show ?case using "1.IH"(3) eq by (cases "j = order") (auto split: if_splits)
  }
qed

lemma aligned_nested:
  fixes i j :: nat
  assumes "2 ^ k dvd i" "2 ^ k' dvd j" "k \<le> k'" "x \<in> blk i k" "x \<in> blk j k'"
  shows "blk i k \<subseteq> blk j k'"
proof -
  obtain a where a: "i = 2 ^ k * a" using assms(1) by auto
  obtain d where d: "k' = k + d" using assms(3) le_Suc_ex by blast
  obtain c where c: "j = 2 ^ k * (2 ^ d * c)" using assms(2) d by (auto simp: power_add mult.assoc)
  have "2 ^ k * (2 ^ d * c) < 2 ^ k * (a + 1)" using assms(4,5) a c by (simp add: algebra_simps)
  then have 1: "2 ^ d * c \<le> a" by (simp only: mult_less_cancel1) simp
  have "2 ^ k * a < 2 ^ k * (2 ^ d * c + 2 ^ d)"
    using assms(4,5) a c d by (simp add: algebra_simps power_add)
  then have 2: "a + 1 \<le> 2 ^ d * c + 2 ^ d" by (simp only: mult_less_cancel1) simp
  have "j \<le> i" unfolding a c using 1 by simp
  moreover have "i + 2 ^ k \<le> j + 2 ^ k'"
    using mult_le_mono2 [OF 2, of "2 ^ k"] a c d by (simp add: algebra_simps power_add)
  ultimately show ?thesis by auto
qed

text \<open>
  Free memory is never fragmented below what alignment forces: every aligned run of \<open>2 ^ k\<close>
  free frames lies inside a single free block of order at least \<open>k\<close>.
\<close>

lemma aligned_run_in_block:
  assumes "shape H S" "blk i k \<subseteq> free_set S" "2 ^ k dvd i" "k \<le> MAX_ORDER"
  shows "\<exists>j k'. free_head S j k' \<and> k \<le> k' \<and> blk i k \<subseteq> blk j k'"
  using assms(2-)
proof (induction k arbitrary: i)
  case 0
  then obtain j k' where "free_head S j k'" "i \<in> blk j k'" by (auto simp: free_set_def)
  then show ?case by (intro exI [of _ j] exI [of _ k']) auto
next
  case (Suc k)
  have al: "2 ^ k dvd i" "2 ^ k dvd i + 2 ^ k" using Suc.prems(2) by (auto elim: dvd_trans [OF le_imp_power_dvd])
  have two: "blk i (Suc k) = blk i k \<union> blk (i + 2 ^ k) k" by auto
  have al': "free_head S j k' \<Longrightarrow> 2 ^ k' dvd j" for j k' using shapeD(2) [OF assms(1)] by (auto simp: block_head_def)
  obtain j1 k1 where 1: "free_head S j1 k1" "k \<le> k1" "blk i k \<subseteq> blk j1 k1"
    using Suc.IH [of i] al(1) Suc.prems two by auto
  obtain j2 k2 where 2: "free_head S j2 k2" "k \<le> k2" "blk (i + 2 ^ k) k \<subseteq> blk j2 k2"
    using Suc.IH [of "i + 2 ^ k"] al(2) Suc.prems two by auto
  have big: "\<exists>j k'. free_head S j k' \<and> Suc k \<le> k' \<and> blk i (Suc k) \<subseteq> blk j k'"
    if "free_head S j k'" "Suc k \<le> k'" "x \<in> blk j k'" "x \<in> blk i (Suc k)" for j k' x
    using aligned_nested [OF Suc.prems(2) al' [OF that(1)] that(2,4,3)] that by blast
  show ?case
  proof (cases "k1 = k \<and> k2 = k")
    case True
    then have "j1 = i" "j2 = i + 2 ^ k" using 1(3) 2(3) by (auto simp: atLeastLessThan_subset_iff)
    moreover have "i XOR 2 ^ k = i + 2 ^ k" using Suc.prems(2) by (subst buddy_xor [OF al(1)]) auto
    ultimately show ?thesis
      using shapeD(9) [OF assms(1), of k i] 1 2 True Suc.prems(3) by auto
  next
    case False
    then show ?thesis
      using big [OF 1(1), of i] big [OF 2(1), of "i + 2 ^ k"] 1 2 by (auto simp: subset_iff)
  qed
qed

lemma no_free_head:
  assumes "buddy_wf H b" "k \<le> MAX_ORDER" "b_heads b ! k = NIL"
  shows "\<not> free_head (b_state b) i k"
proof -
  obtain fl where ok: "lists_ok b fl" using assms(1) by (auto simp: buddy_wf_def)
  then have "fl k = []" using dll_empty_iff [OF lists_okD(5) [OF ok assms(2)]] assms(3) by simp
  then show ?thesis using lists_okD(7) [OF ok assms(2)] by auto
qed

lemma free_head_of_list:
  assumes "buddy_wf H b" "k \<le> MAX_ORDER" "b_heads b ! k \<noteq> NIL"
  shows "free_head (b_state b) (b_heads b ! k) k"
proof -
  obtain fl where ok: "lists_ok b fl" using assms(1) by (auto simp: buddy_wf_def)
  show ?thesis using lists_head_mem [OF ok assms(2,3)] lists_okD(7) [OF ok assms(2)] by simp
qed

lemma alloc_None:
  assumes "buddy_inv b" "alloc b order = (None, b')"
  shows "b' = b" "order \<le> MAX_ORDER \<Longrightarrow> 2 ^ order dvd i \<Longrightarrow> \<not> blk i order \<subseteq> free_set (b_state b)"
proof -
  show "b' = b" using assms(2) by (auto simp: alloc_def Let_def split: if_splits)
  assume o: "order \<le> MAX_ORDER" "2 ^ order dvd i"
  then have "MAX_ORDER < find_order b order"
    using assms(2) by (auto simp: alloc_def Let_def split: if_splits)
  then have no: "order \<le> j \<Longrightarrow> j \<le> MAX_ORDER \<Longrightarrow> \<not> free_head (b_state b) i' j" for j i'
    using no_free_head find_order_spec(3) [of order j b] assms(1)
    by (metis acc_wf buddy_inv_def le_less_trans)
  show "\<not> blk i order \<subseteq> free_set (b_state b)"
    using aligned_run_in_block [of "{}" "b_state b" i order] o no acc_shape assms(1)
    by (metis buddy_inv_def free_head_def)
qed

lemma alloc_Some:
  assumes inv: "buddy_inv b" and al: "alloc b order = (Some i, b')"
  shows "buddy_inv b'" "order \<le> MAX_ORDER" "2 ^ order dvd i" "blk i order \<subseteq> free_set (b_state b)"
    and "free_set (b_state b') = free_set (b_state b) - blk i order"
    and "used_head (b_state b') j k \<longleftrightarrow> used_head (b_state b) j k \<or> j = i \<and> k = order"
    and "reserved_set (b_state b') = reserved_set (b_state b)" "b_frames b' = b_frames b"
proof -
  define k' where "k' = find_order b order"
  have ord: "order \<le> MAX_ORDER" and k': "k' \<le> MAX_ORDER" and i: "i = b_heads b ! k'"
    and b': "b' = (set_st (split_loop (unlink b i k') i order k') i (used_tag order))
        \<lparr>b_free_frames := b_free_frames (split_loop (unlink b i k') i order k') - 2 ^ order\<rparr>"
    using al by (auto simp: alloc_def Let_def k'_def split: if_splits)
  have le: "order \<le> k'" using find_order_spec(1) by (simp add: k'_def)
  let ?S = "b_state b" and ?b1 = "set_st (unlink b i k') i ST_NONE"
  let ?b2 = "split_loop ?b1 i order k'"
  have wf: "buddy_wf {} b" using inv by (simp add: buddy_inv_def acc_wf)
  have fh: "free_head ?S i k'"
    using free_head_of_list [OF wf k'] find_order_spec(2) [of b order] k' i by (simp add: k'_def)
  have al': "2 ^ k' dvd i" using shapeD(2) wf fh by (auto simp: buddy_wf_def block_head_def)
  show "2 ^ order dvd i" using al' le by (meson dvd_trans le_imp_power_dvd)
  have sub: "blk i order \<subseteq> blk i k'" using le by (auto intro: less_le_trans)
  have "blk i k' \<subseteq> free_set ?S" using fh unfolding free_set_def by blast
  with sub show bs: "blk i order \<subseteq> free_set ?S" by blast
  note T = wf_take [OF wf fh]
  have "blk i k' \<subseteq> {} \<union> blk i k'" by blast
  note Sp = split_loop_ok [OF T(1) this k' al' le]
  have hole: "{} \<union> blk i k' - (blk i k' - blk i order) = blk i order" using sub by blast
  note U = wf_put_used [OF conjunct1 [OF Sp, unfolded hole] order_refl ord \<open>2 ^ order dvd i\<close>]
  have b2: "b' = (set_st ?b2 i (used_tag order))\<lparr>b_free_frames := b_free_frames b - 2 ^ order\<rparr>"
  proof -
    have "b_free_frames (split_loop (unlink b i k') i order k') = b_free_frames b"
      using split_loop_set_st [of "unlink b i k'" i ST_NONE order k' 0] T(3) Sp
      by (metis same_owned_def set_st_fields(6))
    then show ?thesis using b' split_loop_set_st by metis
  qed
  have S': "b_state b' = b_state (set_st ?b2 i (used_tag order))" by (simp add: b2)
  have "free_set (b_state ?b1) \<union> (blk i k' - blk i order) = free_set ?S - blk i order"
    unfolding T(2) using \<open>blk i k' \<subseteq> free_set ?S\<close> sub by blast
  then show fs: "free_set (b_state b') = free_set ?S - blk i order" unfolding S' U(2) using Sp by simp
  have so: "same_owned b ?b2" using same_owned_trans [OF T(3)] Sp by blast
  then show "used_head (b_state b') j k \<longleftrightarrow> used_head ?S j k \<or> j = i \<and> k = order"
    unfolding S' U(3) by (simp add: same_owned_def)
  show rs: "reserved_set (b_state b') = reserved_set ?S"
    unfolding S' U(4) using so by (simp add: same_owned_def)
  show "b_frames b' = b_frames b" using so by (simp add: b2 same_owned_def)
  have "card (free_set ?S - blk i order) = card (free_set ?S) - 2 ^ order"
    using bs by (subst card_Diff_subset) auto
  then show "buddy_inv b'"
    using U(1) inv fs rs so by (simp add: buddy_inv_def buddy_acc_def b2 same_owned_def)
qed (use al in \<open>auto simp: alloc_def split: if_splits\<close>)

subsection \<open>Freeing\<close>

lemma used_byte:
  assumes "shape H S" "i < length S"
  shows "S ! i AND ST_KIND = ST_USED \<longleftrightarrow> (\<exists>k. used_head S i k)"
    and "used_head S i k \<Longrightarrow> unat (S ! i AND ST_ORDER) = k"
  using shapeD(1) [OF assms] assms(2) by (auto simp: head_defs)

lemma used_head_unique: "used_head S i k \<Longrightarrow> used_head S i k' \<Longrightarrow> k = k'"
  by (auto simp: used_head_def)

lemma buddy_free_used:
  assumes "buddy_acc H b" "used_head (b_state b) i k"
  shows "buddy_free b i k = (None, release (b\<lparr>b_free_frames := b_free_frames b + 2 ^ k\<rparr>) i k)"
proof -
  have "i < length (b_state b)" using assms(2) by (simp add: used_head_def)
  then show ?thesis
    using used_byte [OF acc_shape [OF assms(1)]] assms acc_length [OF assms(1)]
    by (auto simp: buddy_free_def Let_def st_def)
qed

lemma buddy_free_not_used:
  assumes "buddy_acc H b" "\<not> used_head (b_state b) i k"
  shows "buddy_free b i k =
    (Some (if b_frames b \<le> i then OutOfRange
           else case allocated_order b i of None \<Rightarrow> NotAllocated | Some k' \<Rightarrow> WrongOrder k'), b)"
proof (cases "i < b_frames b")
  case True
  then have i: "i < length (b_state b)" using acc_length [OF assms(1)] by simp
  note U = used_byte [OF acc_shape [OF assms(1)] i]
  show ?thesis
    using U assms(2) i True by (auto simp: buddy_free_def allocated_order_def Let_def st_def)
qed (simp add: buddy_free_def)

lemma buddy_free_ok:
  assumes inv: "buddy_inv b" and u: "used_head (b_state b) i k" and f: "buddy_free b i k = (r, b')"
  shows "r = None" "buddy_inv b'" "free_set (b_state b') = free_set (b_state b) \<union> blk i k"
    and "used_head (b_state b') j k' \<longleftrightarrow> used_head (b_state b) j k' \<and> j \<noteq> i"
    and "reserved_set (b_state b') = reserved_set (b_state b)" "b_frames b' = b_frames b"
proof -
  have acc: "buddy_acc {} b" using inv by (simp add: buddy_inv_def)
  have k: "k \<le> MAX_ORDER" "2 ^ k dvd i"
    using u shapeD(2) [OF acc_shape [OF acc]] by (auto simp: head_defs)
  note T = wf_take_used [OF acc_wf [OF acc] u]
  let ?b = "set_st b i ST_NONE"
  have acc': "buddy_acc (blk i k) ?b" using acc T(1,2,4) by (simp add: buddy_acc_def)
  have b': "r = None" "b' = release (?b\<lparr>b_free_frames := b_free_frames ?b + 2 ^ k\<rparr>) i k"
    using buddy_free_used [OF acc u] f by (auto simp: release_def set_st_def)
  note R = release_acc [OF acc' order_refl k b'(2)]
  show "r = None" "buddy_inv b'" "free_set (b_state b') = free_set (b_state b) \<union> blk i k"
    "used_head (b_state b') j k' \<longleftrightarrow> used_head (b_state b) j k' \<and> j \<noteq> i"
    "reserved_set (b_state b') = reserved_set (b_state b)" "b_frames b' = b_frames b"
    using R T b' by (simp_all add: buddy_inv_def)
qed

subsection \<open>Queries\<close>

lemma round_down:
  fixes i :: nat
  assumes "2 ^ k dvd j"
  shows "i \<in> blk j k \<longleftrightarrow> j = i - i mod 2 ^ k"
proof -
  obtain m where j: "j = 2 ^ k * m" using assms by auto
  have "i - i mod 2 ^ k = 2 ^ k * (i div 2 ^ k)" by (simp add: minus_mod_eq_mult_div)
  moreover have "i \<in> blk j k \<longleftrightarrow> i div 2 ^ k = m"
    unfolding j by (auto simp: algebra_simps dividend_less_times_div intro!: div_nat_eqI)
  ultimately show ?thesis using j by auto
qed

lemma free_block_containing_iff:
  assumes "shape H (b_state b)" "length (b_state b) = b_frames b"
  shows "free_block_containing b i = Some (j, k) \<longleftrightarrow> free_head (b_state b) j k \<and> i \<in> blk j k"
proof -
  let ?S = "b_state b" and ?h = "\<lambda>k. i - i mod 2 ^ k"
  let ?P = "\<lambda>k. st b (?h k) = free_tag k" and ?os = "[0..<MAX_ORDER + 1]"
  have al: "free_head ?S j k \<Longrightarrow> 2 ^ k dvd j" for j k
    using shapeD(2) [OF assms(1)] by (auto simp: block_head_def)
  have P: "i < b_frames b \<Longrightarrow> k \<in> set ?os \<and> ?P k \<longleftrightarrow> free_head ?S (?h k) k" for k
    using assms(2) by (auto simp: free_head_def st_def less_imp_diff_less)
  have mem: "free_head ?S j k \<and> i \<in> blk j k \<longleftrightarrow> free_head ?S (?h k) k \<and> j = ?h k" for j k
    using al [of j k] round_down [of k j i] round_down [of k "?h k" i] al [of "?h k" k] by blast
  have uniq: "free_head ?S (?h k) k \<Longrightarrow> free_head ?S (?h k') k' \<Longrightarrow> k = k'" for k k'
  proof -
    assume f: "free_head ?S (?h k) k" "free_head ?S (?h k') k'"
    then have "i \<in> blk (?h k) k" "i \<in> blk (?h k') k'" using mem by blast+
    then have "?h k = ?h k'"
      using blocks_disjoint [OF assms(1), of "?h k" k "?h k'" k'] f unfolding block_head_def by blast
    then show "k = k'" using f by (auto simp: free_head_def)
  qed
  show ?thesis
  proof (cases "i < b_frames b")
    case True
    have "find ?P ?os = Some k \<longleftrightarrow> free_head ?S (?h k) k"
    proof
      assume "find ?P ?os = Some k"
      then show "free_head ?S (?h k) k" using P [OF True, of k] find_SomeD [of ?P ?os k] by blast
    next
      assume f: "free_head ?S (?h k) k"
      then obtain k'' where k'': "find ?P ?os = Some k''"
        using P [OF True, of k] find_None_iff [of ?P ?os] by (cases "find ?P ?os") auto
      then have "free_head ?S (?h k'') k''" using P [OF True, of k''] find_SomeD [of ?P ?os k''] by blast
      then show "find ?P ?os = Some k" using uniq f k'' by blast
    qed
    moreover have "free_block_containing b i = map_option (\<lambda>k. (?h k, k)) (find ?P ?os)"
      using True by (simp add: free_block_containing_def)
    then have "free_block_containing b i = Some (j, k) \<longleftrightarrow> find ?P ?os = Some k \<and> j = ?h k"
      by (cases "find ?P ?os") auto
    ultimately show ?thesis unfolding mem by blast
  next
    case False
    then have "\<not> (free_head ?S j k \<and> i \<in> blk j k)"
      using shapeD(3) [OF assms(1), of j k] assms(2) by (auto simp: block_head_def)
    then show ?thesis using False by (simp add: free_block_containing_def)
  qed
qed

lemma is_free_iff:
  assumes "shape H (b_state b)" "length (b_state b) = b_frames b"
  shows "is_free b i \<longleftrightarrow> i \<in> free_set (b_state b)"
proof -
  have "is_free b i \<longleftrightarrow> (\<exists>j k. free_block_containing b i = Some (j, k))"
    by (cases "free_block_containing b i") (auto simp: is_free_def)
  then show ?thesis unfolding free_block_containing_iff [OF assms] free_set_def by simp
qed

subsection \<open>Releasing reserved memory\<close>

lemma unreserve_fold:
  assumes "buddy_wf H b" "{i..<m} \<subseteq> reserved_set (b_state b)" "i \<le> m"
    and "b' = fold (\<lambda>i b. set_st b i ST_NONE) [i..<m] b"
  shows "buddy_wf (H \<union> {i..<m}) b' \<and> free_set (b_state b') = free_set (b_state b) \<and>
    (\<forall>j k. used_head (b_state b') j k \<longleftrightarrow> used_head (b_state b) j k) \<and>
    reserved_set (b_state b') = reserved_set (b_state b) - {i..<m} \<and> b_frames b' = b_frames b \<and>
    b_free_frames b' = b_free_frames b \<and> b_managed_frames b' = b_managed_frames b"
  using assms
proof (induction "m - i" arbitrary: b i H b')
  case (Suc n)
  let ?b = "set_st b i ST_NONE"
  have im: "i < m" using Suc.hyps by simp
  then have b': "b' = fold (\<lambda>i b. set_st b i ST_NONE) [i + 1..<m] ?b"
    using Suc.prems(4) by (simp add: upt_conv_Cons)
  have i: "i < length (b_state b)" "b_state b ! i = ST_RESERVED"
    using Suc.prems(2) im by (auto simp: reserved_set_def)
  have wf: "buddy_wf (insert i H) ?b"
    using Suc.prems(1) i lists_set_st [of b _ i ST_NONE] shape_unreserve [of H "b_state b" i]
      wf_length [OF Suc.prems(1)] by (auto simp: buddy_wf_def)
  have fs: "free_set (b_state ?b) = free_set (b_state b)"
    using sets_same_kind(1) [OF i(1)] i(2) by auto
  have us: "used_head (b_state ?b) j k \<longleftrightarrow> used_head (b_state b) j k" for j k
    using i by (auto simp: head_update; auto simp: used_head_def)
  have rs: "reserved_set (b_state ?b) = reserved_set (b_state b) - {i}"
    using i by (auto simp: reserved_set_def nth_list_update)
  have "{i + 1..<m} \<subseteq> reserved_set (b_state ?b)" using Suc.prems(2) unfolding rs by auto
  note IH = Suc.hyps(1) [OF _ wf this _ b']
  have "insert i H \<union> {i + 1..<m} = H \<union> {i..<m}"
    "reserved_set (b_state b) - {i} - {i + 1..<m} = reserved_set (b_state b) - {i..<m}"
    using im by auto
  then show ?case using IH Suc.hyps(2) im fs us rs by auto
qed simp

lemma pick_order_spec:
  "pick_order idx e k \<le> k" "idx < e \<Longrightarrow> idx + 2 ^ pick_order idx e k \<le> e"
  "2 ^ pick_order idx e k dvd idx"
proof (induction k)
  case (Suc k)
  have "idx AND (2 ^ Suc k - 1) = idx mod 2 ^ Suc k"
    by (metis mask_eq_exp_minus_1 take_bit_eq_mask take_bit_eq_mod)
  then have al: "idx AND (2 ^ Suc k - 1) = 0 \<longleftrightarrow> 2 ^ Suc k dvd idx" by (simp only: dvd_eq_mod_eq_0)
  { case 1 show ?case using Suc by auto
  next case 2 then show ?case using Suc by (auto simp del: power_Suc)
  next case 3 show ?case using Suc al by (auto simp del: power_Suc) }
qed auto

lemma counters_swap:
  "b\<lparr>b_free_frames := m, b_managed_frames := n\<rparr> = b\<lparr>b_managed_frames := n, b_free_frames := m\<rparr>"
  by (cases b) simp

lemma add_run_ok:
  assumes "buddy_acc {} b" "{i..<e} \<subseteq> reserved_set (b_state b)"
  shows "buddy_acc {} (add_run b i e) \<and>
    free_set (b_state (add_run b i e)) = free_set (b_state b) \<union> {i..<e} \<and>
    (\<forall>j k. used_head (b_state (add_run b i e)) j k \<longleftrightarrow> used_head (b_state b) j k) \<and>
    reserved_set (b_state (add_run b i e)) = reserved_set (b_state b) - {i..<e} \<and>
    b_frames (add_run b i e) = b_frames b"
  using assms
proof (induction b i e rule: add_run.induct)
  case (1 b i e)
  show ?case
  proof (cases "i < e")
    case True
    define k where "k = pick_order i e MAX_ORDER"
    define b1 where "b1 = fold (\<lambda>i b. set_st b i ST_NONE) [i..<i + 2 ^ k] b"
    define b2 where "b2 = b1\<lparr>b_managed_frames := b_managed_frames b1 + 2 ^ k\<rparr>"
    define b3 where "b3 = release (b2\<lparr>b_free_frames := b_free_frames b2 + 2 ^ k\<rparr>) i k"
    have k: "k \<le> MAX_ORDER" "i + 2 ^ k \<le> e" "2 ^ k dvd i"
      using pick_order_spec True by (auto simp: k_def)
    have eq: "add_run b i e = add_run b3 (i + 2 ^ k) e"
      using True by (subst add_run.simps) (simp add: Let_def k_def b1_def b2_def b3_def counters_swap)
    have sub: "blk i k \<subseteq> reserved_set (b_state b)" using "1.prems"(2) k(2) by auto
    note U = unreserve_fold [OF acc_wf [OF "1.prems"(1)] sub _ b1_def]
    have "card (reserved_set (b_state b) - blk i k) + 2 ^ k = card (reserved_set (b_state b))"
      using sub card_mono [OF _ sub] by (subst card_Diff_subset) (auto simp: reserved_set_def)
    then have acc: "buddy_acc (blk i k) b2" using U "1.prems"(1) by (auto simp: b2_def buddy_acc_def)
    note R = release_acc [OF acc order_refl k(1,3) b3_def]
    have st2: "b_state b2 = b_state b1" "b_frames b2 = b_frames b1" by (simp_all add: b2_def)
    have "{i + 2 ^ k..<e} \<subseteq> reserved_set (b_state b3)"
      unfolding R(4) st2 using U "1.prems"(2) by auto
    then have IH: "buddy_acc {} (add_run b3 (i + 2 ^ k) e) \<and>
      free_set (b_state (add_run b3 (i + 2 ^ k) e)) = free_set (b_state b3) \<union> {i + 2 ^ k..<e} \<and>
      (\<forall>j k'. used_head (b_state (add_run b3 (i + 2 ^ k) e)) j k' \<longleftrightarrow> used_head (b_state b3) j k') \<and>
      reserved_set (b_state (add_run b3 (i + 2 ^ k) e)) = reserved_set (b_state b3) - {i + 2 ^ k..<e} \<and>
      b_frames (add_run b3 (i + 2 ^ k) e) = b_frames b3"
      using "1.IH" [OF True k_def b1_def refl] R(1) by (simp add: b2_def b3_def counters_swap)
    have "blk i k \<union> {i + 2 ^ k..<e} = {i..<e}" using k(2) by auto
    then show ?thesis unfolding eq using IH R U st2 by (auto simp: Un_assoc Diff_Un [symmetric] Diff_eq)
  qed (use "1.prems" in \<open>subst (1 2 3 4 5) add_run.simps, simp\<close>)
qed

lemma run_end_spec:
  "i \<le> e \<Longrightarrow> run_end b i e \<le> e" "i \<le> j \<Longrightarrow> j < run_end b i e \<Longrightarrow> st b j = ST_RESERVED"
proof (induction b i e rule: run_end.induct)
  case (1 b i e)
  have eq: "run_end b i e = (if i < e \<and> st b i = ST_RESERVED then run_end b (i + 1) e else i)"
    by (rule run_end.simps)
  { case 1 then show ?case using "1.IH"(1) eq by (auto split: if_splits)
  next case 2 then show ?case using "1.IH"(2) eq by (cases "j = i") (auto split: if_splits) }
qed

lemma add_range_loop_ok:
  assumes "buddy_acc {} b" "e \<le> b_frames b"
  shows "buddy_acc {} (add_range_loop b i e) \<and>
    free_set (b_state (add_range_loop b i e)) = free_set (b_state b) \<union> (reserved_set (b_state b) \<inter> {i..<e}) \<and>
    (\<forall>j k. used_head (b_state (add_range_loop b i e)) j k \<longleftrightarrow> used_head (b_state b) j k) \<and>
    reserved_set (b_state (add_range_loop b i e)) = reserved_set (b_state b) - {i..<e} \<and>
    b_frames (add_range_loop b i e) = b_frames b"
  using assms
proof (induction b i e rule: add_range_loop.induct)
  case (1 b i e)
  have res: "j < e \<Longrightarrow> st b j = ST_RESERVED \<longleftrightarrow> j \<in> reserved_set (b_state b)" for j
    using "1.prems" acc_length [OF "1.prems"(1)] by (auto simp: reserved_set_def st_def)
  consider "e \<le> i" | "i < e" "st b i \<noteq> ST_RESERVED" | "i < e" "st b i = ST_RESERVED" by linarith
  then show ?case
  proof cases
    case 1
    then show ?thesis using "1.prems" by (subst (1 2 3 4 5) add_range_loop.simps) simp
  next
    case 2
    then have eq: "add_range_loop b i e = add_range_loop b (i + 1) e"
      by (subst add_range_loop.simps) simp
    have "{i..<e} = insert i {i + 1..<e}" using 2 by auto
    then show ?thesis unfolding eq using "1.IH"(1) [OF 2] "1.prems" res [of i] 2 by auto
  next
    case 3
    define r where "r = run_end b i e"
    have r: "i \<le> r" "r \<le> e" using run_end_ge run_end_spec(1) [of i e b] 3 by (auto simp: r_def)
    have eq: "add_range_loop b i e = add_range_loop (add_run b i r) r e"
      using 3 by (subst add_range_loop.simps) (simp add: Let_def r_def)
    have sub: "{i..<r} \<subseteq> reserved_set (b_state b)"
      using run_end_spec(2) [of i _ b e] res r by (auto simp: r_def)
    note A = add_run_ok [OF "1.prems"(1) sub]
    have IH: "buddy_acc {} (add_range_loop b i e) \<and>
      free_set (b_state (add_range_loop b i e)) =
        free_set (b_state (add_run b i r)) \<union> (reserved_set (b_state (add_run b i r)) \<inter> {r..<e}) \<and>
      (\<forall>j k. used_head (b_state (add_range_loop b i e)) j k \<longleftrightarrow> used_head (b_state (add_run b i r)) j k) \<and>
      reserved_set (b_state (add_range_loop b i e)) = reserved_set (b_state (add_run b i r)) - {r..<e} \<and>
      b_frames (add_range_loop b i e) = b_frames (add_run b i r)"
      unfolding eq using "1.IH"(2) [OF 3(1) _ r_def] 3(2) A "1.prems"(2) by auto
    have "{i..<e} = {i..<r} \<union> {r..<e}" "{i..<r} \<inter> {r..<e} = {}" using r by auto
    then show ?thesis using IH A sub by (auto simp del: ivl_disj_un)
  qed
qed

subsection \<open>Reserving free memory\<close>

lemma reserve_frame_ok:
  assumes "buddy_acc (insert i H) b" "i \<notin> H" "b' = reserve_frame s e i b"
  shows "buddy_acc H b' \<and>
    free_set (b_state b') = free_set (b_state b) \<union> ({i} - {s..<e}) \<and>
    (\<forall>j k. used_head (b_state b') j k \<longleftrightarrow> used_head (b_state b) j k) \<and>
    reserved_set (b_state b') = reserved_set (b_state b) \<union> ({i} \<inter> {s..<e}) \<and> b_frames b' = b_frames b"
proof (cases "s \<le> i \<and> i < e")
  case False
  then have b': "b' = release (b\<lparr>b_free_frames := b_free_frames b + 2 ^ 0\<rparr>) i 0"
    using assms(3) by (auto simp: reserve_frame_def)
  have "blk i 0 \<subseteq> insert i H" "insert i H - blk i 0 = H" using assms(2) by auto
  then show ?thesis using release_acc [OF assms(1) _ _ _ b'] False by auto
next
  case True
  let ?b = "set_st b i ST_RESERVED"
  have b': "b' = ?b\<lparr>b_managed_frames := b_managed_frames b - 1\<rparr>"
    using True assms(3) by (simp add: reserve_frame_def)
  have i: "i < length (b_state b)" "b_state b ! i = ST_NONE" "i < b_frames b"
    using wf_hole [OF acc_wf [OF assms(1)], of i] acc_length [OF assms(1)] by auto
  have "insert i H - {i} = H" using assms(2) by blast
  then have wf: "buddy_wf H ?b"
    using assms(1) i lists_set_st [of b _ i ST_RESERVED] shape_reserve [of "insert i H" "b_state b" i]
    by (auto simp: buddy_wf_def buddy_acc_def)
  have fs: "free_set (b_state ?b) = free_set (b_state b)"
    using sets_same_kind(1) [OF i(1)] i(2) by auto
  have us: "used_head (b_state ?b) j k \<longleftrightarrow> used_head (b_state b) j k" for j k
    using i by (auto simp: head_update; auto simp: used_head_def)
  have rs: "reserved_set (b_state ?b) = insert i (reserved_set (b_state b))"
    using i by (auto simp: reserved_set_def nth_list_update)
  have "i \<notin> reserved_set (b_state b)" "finite (reserved_set (b_state b))"
    using i by (auto simp: reserved_set_def)
  moreover have "card (insert i (reserved_set (b_state b))) \<le> b_frames b"
    using card_mono [of "{..<b_frames b}" "insert i (reserved_set (b_state b))"] i acc_length [OF assms(1)]
    by (auto simp: reserved_set_def)
  ultimately have "buddy_acc H b'"
    using wf assms(1) fs rs by (simp add: b' buddy_acc_def)
  then show ?thesis using fs us rs True by (simp add: b')
qed

lemma reserve_fold_ok:
  assumes "buddy_acc {i..<m} b" "b' = fold (reserve_frame s e) [i..<m] b"
  shows "buddy_acc {} b' \<and>
    free_set (b_state b') = free_set (b_state b) \<union> ({i..<m} - {s..<e}) \<and>
    (\<forall>j k. used_head (b_state b') j k \<longleftrightarrow> used_head (b_state b) j k) \<and>
    reserved_set (b_state b') = reserved_set (b_state b) \<union> ({i..<m} \<inter> {s..<e}) \<and> b_frames b' = b_frames b"
  using assms
proof (induction "m - i" arbitrary: b i b')
  case (Suc n)
  then have im: "i < m" by simp
  let ?b = "reserve_frame s e i b"
  have split: "{i..<m} = insert i {i + 1..<m}" using im by auto
  have F: "buddy_acc {i + 1..<m} ?b \<and>
    free_set (b_state ?b) = free_set (b_state b) \<union> ({i} - {s..<e}) \<and>
    (\<forall>j k. used_head (b_state ?b) j k \<longleftrightarrow> used_head (b_state b) j k) \<and>
    reserved_set (b_state ?b) = reserved_set (b_state b) \<union> ({i} \<inter> {s..<e}) \<and> b_frames ?b = b_frames b"
    by (rule reserve_frame_ok [OF Suc.prems(1) [unfolded split] _ refl]) simp
  have "b' = fold (reserve_frame s e) [i + 1..<m] ?b"
    using Suc.prems(2) im by (simp add: upt_conv_Cons)
  from Suc.hyps(1) [OF _ conjunct1 [OF F] this] Suc.hyps(2) im F
  show ?case unfolding split by (simp add: Un_assoc Un_Diff Int_Un_distrib2 del: Un_insert_right Un_insert_left
      flip: insert_is_Un) auto
qed simp

lemma reserve_block_ok:
  assumes acc: "buddy_acc {} b" and fh: "free_head (b_state b) h k" and b': "b' = reserve_block b s e h k"
  shows "buddy_acc {} b' \<and>
    free_set (b_state b') = free_set (b_state b) - (blk h k \<inter> {s..<e}) \<and>
    (\<forall>j k. used_head (b_state b') j k \<longleftrightarrow> used_head (b_state b) j k) \<and>
    reserved_set (b_state b') = reserved_set (b_state b) \<union> (blk h k \<inter> {s..<e}) \<and> b_frames b' = b_frames b"
proof -
  let ?b1 = "set_st (unlink b h k) h ST_NONE"
  let ?b2 = "?b1\<lparr>b_free_frames := b_free_frames b - 2 ^ k\<rparr>"
  note T = wf_take [OF acc_wf [OF acc] fh]
  have bs: "blk h k \<subseteq> free_set (b_state b)" using fh unfolding free_set_def by blast
  have "card (free_set (b_state b) - blk h k) = card (free_set (b_state b)) - 2 ^ k"
    using bs by (subst card_Diff_subset) auto
  then have acc2: "buddy_acc (blk h k) ?b2"
    using T acc by (simp add: buddy_acc_def same_owned_def)
  have "[h..<h + 2 ^ k] = h # [h + 1..<h + 2 ^ k]" by (simp add: upt_conv_Cons)
  moreover have "reserve_frame s e h (c\<lparr>b_free_frames := n\<rparr>) =
      reserve_frame s e h ((set_st c h ST_NONE)\<lparr>b_free_frames := n\<rparr>)" for c n
    by (simp add: reserve_frame_def release_def set_st_def)
  ultimately have b': "b' = fold (reserve_frame s e) [h..<h + 2 ^ k] ?b2"
    by (simp add: b' reserve_block_def)
  have "free_set (b_state b) - blk h k \<union> (blk h k - {s..<e}) = free_set (b_state b) - (blk h k \<inter> {s..<e})"
    using bs by blast
  then show ?thesis using reserve_fold_ok [OF acc2 b'] T by (simp add: same_owned_def)
qed

lemma reserve_loop_ok:
  assumes "buddy_acc {} b" "{i..<e} \<subseteq> free_set (b_state b)" "s \<le> i" "{s..<min i e} \<inter> free_set (b_state b) = {}"
  shows "\<exists>b'. reserve_loop b s e i = Some b' \<and> buddy_acc {} b' \<and>
    free_set (b_state b') = free_set (b_state b) - {i..<e} \<and>
    (\<forall>j k. used_head (b_state b') j k \<longleftrightarrow> used_head (b_state b) j k) \<and>
    reserved_set (b_state b') = reserved_set (b_state b) \<union> {i..<e} \<and> b_frames b' = b_frames b"
  using assms
proof (induction b s e i rule: reserve_loop.induct)
  case (1 b s e i)
  show ?case
  proof (cases "i < e")
    case True
    then have "i \<in> free_set (b_state b)" using "1.prems"(2) by auto
    then obtain h k where hk: "free_head (b_state b) h k" "i \<in> blk h k" by (auto simp: free_set_def)
    then have fb: "free_block_containing b i = Some (h, k)"
      using free_block_containing_iff acc_shape acc_length "1.prems"(1) by blast
    define b1 where "b1 = reserve_block b s e h k"
    have eq: "reserve_loop b s e i = reserve_loop b1 s e (h + 2 ^ k)"
      using True fb by (subst reserve_loop.simps) (simp add: b1_def)
    note R = reserve_block_ok [OF "1.prems"(1) hk(1) b1_def]
    have sub: "blk h k \<subseteq> free_set (b_state b)" using hk(1) unfolding free_set_def by blast
    have lo: "blk h k \<inter> {s..<e} = {i..<e} \<inter> {..<h + 2 ^ k}"
    proof (rule set_eqI)
      fix x
      have "s \<le> x \<Longrightarrow> x < i \<Longrightarrow> x \<notin> blk h k"
        using "1.prems"(4) sub True by (metis atLeastLessThan_iff disjoint_iff min.absorb4 min.commute
            min.strict_order_iff subsetD)
      then show "x \<in> blk h k \<inter> {s..<e} \<longleftrightarrow> x \<in> {i..<e} \<inter> {..<h + 2 ^ k}"
        using hk(2) "1.prems"(3) by (cases "x < i") auto
    qed
    have "{h + 2 ^ k..<e} \<subseteq> free_set (b_state b1)" "s \<le> h + 2 ^ k"
      "{s..<min (h + 2 ^ k) e} \<inter> free_set (b_state b1) = {}"
      using R lo "1.prems"(2-4) hk(2) True by (auto simp: disjoint_iff)
    moreover have "{i..<e} = {i..<e} \<inter> {..<h + 2 ^ k} \<union> {h + 2 ^ k..<e}" using hk(2) by auto
    ultimately show ?thesis
      unfolding eq using "1.IH" [OF True fb refl] R lo by (auto simp: b1_def Diff_Un [symmetric] Un_assoc Diff_eq)
  next
    case False
    then show ?thesis using "1.prems" by (subst reserve_loop.simps) simp
  qed
qed

lemma acc_is_free: "buddy_acc H b \<Longrightarrow> is_free b i \<longleftrightarrow> i \<in> free_set (b_state b)"
  using is_free_iff acc_shape acc_length by blast

subsection \<open>The initial state\<close>

lemma buddy_new_inv:
  assumes "frames + 2 ^ MAX_ORDER \<le> NIL"
  shows "buddy_inv (buddy_new mem frames)" "free_set (b_state (buddy_new mem frames)) = {}"
    "\<not> used_head (b_state (buddy_new mem frames)) i k"
proof -
  let ?b = "buddy_new mem frames"
  have nf: "\<not> free_head (b_state ?b) i k" "\<not> used_head (b_state ?b) i k" for i k
    by (auto simp: buddy_new_def head_defs)
  have "lists_ok ?b (\<lambda>_. [])"
    unfolding lists_ok_def using nf assms
    by (auto simp: buddy_new_def dll_def simp del: replicate_Suc)
  moreover have "shape {} (b_state ?b)"
    unfolding shape_def block_head_def using nf by (auto simp: buddy_new_def)
  moreover show fs: "free_set (b_state ?b) = {}" using nf by (simp add: free_set_def)
  moreover have "reserved_set (b_state ?b) = {..<frames}" by (auto simp: buddy_new_def reserved_set_def)
  ultimately show "buddy_inv ?b"
    by (auto simp: buddy_inv_def buddy_acc_def buddy_wf_def) (simp_all add: buddy_new_def)
  show "\<not> used_head (b_state ?b) i k" by (rule nf)
qed

text \<open>The state bytes are determined by the three sets: there is only one coalesced layout.\<close>

lemma free_head_canonical:
  assumes "shape {} S" "shape {} S'" "free_set S' = free_set S" "free_head S i k"
  shows "free_head S' i k"
proof -
  have inS: "free_head T j k' \<Longrightarrow> blk j k' \<subseteq> free_set T" for T j k' unfolding free_set_def by blast
  have b: "2 ^ k dvd i" "k \<le> MAX_ORDER" using shapeD(2) [OF assms(1)] assms(4) by (auto simp: head_defs)
  obtain j k' where 1: "free_head S' j k'" "k \<le> k'" "blk i k \<subseteq> blk j k'"
    using aligned_run_in_block [OF assms(2) _ b] inS [OF assms(4)] assms(3) by auto
  have b': "2 ^ k' dvd j" "k' \<le> MAX_ORDER" using shapeD(2) [OF assms(2)] 1(1) by (auto simp: head_defs)
  obtain j2 k2 where 2: "free_head S j2 k2" "k' \<le> k2" "blk j k' \<subseteq> blk j2 k2"
    using aligned_run_in_block [OF assms(1) _ b'] inS [OF 1(1)] assms(3) by auto
  have "i \<in> blk i k" by simp
  then have "i \<in> blk j2 k2" using 1(3) 2(3) by blast
  then have "j2 = i" using blocks_disjoint [OF assms(1), of i k j2 k2] assms(4) 2(1) by (auto simp: block_head_def)
  then have "k2 = k" using 2(1) assms(4) by (auto simp: free_head_def)
  then have "k' = k" using 1(2) 2(2) by simp
  then have "j = i" using 1(3) by (auto simp: atLeastLessThan_subset_iff)
  then show ?thesis using 1(1) \<open>k' = k\<close> by simp
qed

lemma state_canonical:
  assumes "shape {} S" "shape {} S'" "length S' = length S" "free_set S' = free_set S"
    "reserved_set S' = reserved_set S" "\<And>i k. used_head S' i k \<longleftrightarrow> used_head S i k"
  shows "S' = S"
proof (rule nth_equalityI)
  fix i assume i: "i < length S'"
  have fh: "free_head S' j k \<longleftrightarrow> free_head S j k" for j k
    using free_head_canonical [OF assms(1,2,4)] free_head_canonical [OF assms(2,1) assms(4) [symmetric]] by blast
  have r: "S' ! i = ST_RESERVED \<longleftrightarrow> S ! i = ST_RESERVED"
    using assms(3,5) i by (auto simp: reserved_set_def set_eq_iff)
  have h: "block_head S' i k \<longleftrightarrow> block_head S i k" for k using fh assms(6) by (simp add: block_head_def)
  show "S' ! i = S ! i"
    using shapeD(1) [OF assms(1), of i] shapeD(1) [OF assms(2) i] assms(3) i r h fh [of i] assms(6) [of i]
    by (metis free_head_def used_head_def block_head_def head_not_NONE)
qed (rule assms(3))

section \<open>Operations, reachable states and the specification\<close>

text \<open>
  An abstract view: the frames that are free, the frames withheld, and the allocated blocks.
\<close>

definition free_frames_of :: "buddy \<Rightarrow> nat set" where
  "free_frames_of b = free_set (b_state b)"

definition reserved_frames_of :: "buddy \<Rightarrow> nat set" where
  "reserved_frames_of b = reserved_set (b_state b)"

definition allocated_blocks :: "buddy \<Rightarrow> (nat \<times> nat) set" where
  "allocated_blocks b = {(i, k). used_head (b_state b) i k}"

lemmas view_defs = free_frames_of_def reserved_frames_of_def allocated_blocks_def

lemma add_range_ok:
  assumes "buddy_inv b"
  shows "buddy_inv (add_range b s e)"
    "free_frames_of (add_range b s e) = free_frames_of b \<union> (reserved_frames_of b \<inter> {s..<e})"
    "reserved_frames_of (add_range b s e) = reserved_frames_of b - {s..<e}"
    "allocated_blocks (add_range b s e) = allocated_blocks b" "b_frames (add_range b s e) = b_frames b"
proof -
  let ?e = "min e (b_frames b)"
  note A = add_range_loop_ok [of b ?e s, folded add_range_def]
  have "reserved_set (b_state b) \<inter> {s..<?e} = reserved_set (b_state b) \<inter> {s..<e}"
    "reserved_set (b_state b) - {s..<?e} = reserved_set (b_state b) - {s..<e}"
    using assms acc_length by (auto simp: reserved_set_def buddy_inv_def)
  then show "buddy_inv (add_range b s e)"
    "free_frames_of (add_range b s e) = free_frames_of b \<union> (reserved_frames_of b \<inter> {s..<e})"
    "reserved_frames_of (add_range b s e) = reserved_frames_of b - {s..<e}"
    "allocated_blocks (add_range b s e) = allocated_blocks b" "b_frames (add_range b s e) = b_frames b"
    using A assms by (auto simp: buddy_inv_def view_defs)
qed

lemma reserve_range_ok:
  assumes "buddy_inv b"
  shows "\<exists>b'. reserve_range b s e =
      Some ({s..<min e (b_frames b)} \<subseteq> free_frames_of b, b') \<and> buddy_inv b' \<and>
    (if {s..<min e (b_frames b)} \<subseteq> free_frames_of b
     then free_frames_of b' = free_frames_of b - {s..<e} \<and>
       reserved_frames_of b' = reserved_frames_of b \<union> {s..<min e (b_frames b)} \<and>
       allocated_blocks b' = allocated_blocks b \<and> b_frames b' = b_frames b
     else b' = b)"
proof -
  let ?e = "min e (b_frames b)"
  have acc: "buddy_acc {} b" using assms by (simp add: buddy_inv_def)
  have c: "(\<exists>i\<in>set [s..<?e]. \<not> is_free b i) \<longleftrightarrow> \<not> {s..<?e} \<subseteq> free_frames_of b"
    using acc_is_free [OF acc] by (auto simp: free_frames_of_def)
  show ?thesis
  proof (cases "{s..<?e} \<subseteq> free_frames_of b")
    case True
    have fr: "free_set (b_state b) - {s..<?e} = free_set (b_state b) - {s..<e}"
      using free_set_range [OF acc_shape [OF acc]] acc_length [OF acc] by auto
    obtain b' where "reserve_loop b s ?e s = Some b'" "buddy_acc {} b'"
      "free_set (b_state b') = free_set (b_state b) - {s..<?e}"
      "\<forall>j k. used_head (b_state b') j k \<longleftrightarrow> used_head (b_state b) j k"
      "reserved_set (b_state b') = reserved_set (b_state b) \<union> {s..<?e}" "b_frames b' = b_frames b"
      using reserve_loop_ok [OF acc, of s ?e s] True by (auto simp: free_frames_of_def)
    then show ?thesis
      unfolding reserve_range_def Let_def c using True fr by (auto simp: buddy_inv_def view_defs)
  next
    case False
    then show ?thesis unfolding reserve_range_def Let_def c using assms by simp
  qed
qed

text \<open>The owner of an allocated or reserved frame may overwrite its memory.\<close>

lemma owner_write_inv:
  assumes "buddy_inv b" "i \<notin> free_frames_of b"
  shows "buddy_inv (b\<lparr>b_links := (b_links b)(i := l)\<rparr>)"
proof -
  obtain fl where ok: "lists_ok b fl" using assms(1) by (auto simp: buddy_inv_def buddy_acc_def buddy_wf_def)
  have "i \<notin> set (fl k)" if "k \<le> MAX_ORDER" for k
    using lists_okD(7) [OF ok that] assms(2) by (auto simp: free_frames_of_def free_set_def)
  then have "dll ((b_links b)(i := l)) (b_heads b ! k) (fl k)" if "k \<le> MAX_ORDER" for k
    using dll_frame [OF lists_okD(5) [OF ok that]] that by auto
  then have "lists_ok (b\<lparr>b_links := (b_links b)(i := l)\<rparr>) fl" using ok by (simp add: lists_ok_def)
  then show ?thesis using assms(1) by (auto simp: buddy_inv_def buddy_acc_def buddy_wf_def)
qed

inductive buddy_reachable :: "buddy \<Rightarrow> bool" where
  new: "frames + 2 ^ MAX_ORDER \<le> NIL \<Longrightarrow> buddy_reachable (buddy_new mem frames)"
| add: "buddy_reachable b \<Longrightarrow> buddy_reachable (add_range b s e)"
| reserve: "buddy_reachable b \<Longrightarrow> reserve_range b s e = Some (r, b') \<Longrightarrow> buddy_reachable b'"
| alloc: "buddy_reachable b \<Longrightarrow> alloc b order = (r, b') \<Longrightarrow> buddy_reachable b'"
| free: "buddy_reachable b \<Longrightarrow> buddy_free b i order = (x, b') \<Longrightarrow> buddy_reachable b'"
| owner_write: "buddy_reachable b \<Longrightarrow> i \<notin> free_frames_of b \<Longrightarrow>
    buddy_reachable (b\<lparr>b_links := (b_links b)(i := l)\<rparr>)"

lemma buddy_free_inv: "buddy_inv b \<Longrightarrow> buddy_free b i k = (r, b') \<Longrightarrow> buddy_inv b'"
  using buddy_free_ok(2) [of b i k r b'] buddy_free_not_used [of "{}" b i k]
  by (cases "used_head (b_state b) i k") (auto simp: buddy_inv_def)

lemma alloc_inv: "buddy_inv b \<Longrightarrow> alloc b order = (r, b') \<Longrightarrow> buddy_inv b'"
  using alloc_None(1) alloc_Some(1) by (cases r) auto

lemma reachable_inv: "buddy_reachable b \<Longrightarrow> buddy_inv b"
proof (induction rule: buddy_reachable.induct)
  case (reserve b s e r b')
  then show ?case using reserve_range_ok [of b s e] by auto
qed (auto intro: buddy_new_inv add_range_ok alloc_inv buddy_free_inv owner_write_inv)

section \<open>Correctness properties\<close>

text \<open>C1 (buddy invariant). In every state reachable from an empty allocator by any sequence
  of \<open>add_range\<close>, \<open>reserve_range\<close>, \<open>alloc\<close>, \<open>free\<close> (successful or not) and writes of owners into
  frames that are not free, the frames are partitioned into reserved frames, free frames and the
  blocks handed out; these blocks are aligned, in range and pairwise disjoint; and both frame
  counters equal what the state bytes say.\<close>

theorem buddy_reachable_partition:
  assumes "buddy_reachable b"
  shows "{..<b_frames b} =
      reserved_frames_of b \<union> free_frames_of b \<union> (\<Union>(i, k)\<in>allocated_blocks b. blk i k) \<and>
    reserved_frames_of b \<inter> free_frames_of b = {} \<and>
    (\<forall>i k. (i, k) \<in> allocated_blocks b \<longrightarrow>
      2 ^ k dvd i \<and> k \<le> MAX_ORDER \<and> blk i k \<inter> (reserved_frames_of b \<union> free_frames_of b) = {} \<and>
      (\<forall>j k'. (j, k') \<in> allocated_blocks b \<longrightarrow> (j, k') = (i, k) \<or> blk i k \<inter> blk j k' = {})) \<and>
    b_free_frames b = card (free_frames_of b) \<and>
    b_managed_frames b = b_frames b - card (reserved_frames_of b)"
proof -
  have acc: "buddy_acc {} b" using reachable_inv [OF assms] by (simp add: buddy_inv_def)
  note sh = acc_shape [OF acc]
  have U: "(\<Union>(i, k)\<in>allocated_blocks b. blk i k) = used_set (b_state b)"
    unfolding allocated_blocks_def used_set_def by blast
  have "2 ^ k dvd i \<and> k \<le> MAX_ORDER \<and> blk i k \<inter> (reserved_frames_of b \<union> free_frames_of b) = {} \<and>
      (\<forall>j k'. (j, k') \<in> allocated_blocks b \<longrightarrow> (j, k') = (i, k) \<or> blk i k \<inter> blk j k' = {})"
    if "(i, k) \<in> allocated_blocks b" for i k
  proof -
    have u: "used_head (b_state b) i k" using that by (simp add: allocated_blocks_def)
    then have h: "block_head (b_state b) i k" by (simp add: block_head_def)
    have "blk i k \<inter> blk j k' = {}" if "used_head (b_state b) j k'" "(j, k') \<noteq> (i, k)" for j k'
    proof (rule blocks_disjoint [OF sh h])
      show "i \<noteq> j" using that used_head_unique [OF u, of k'] by auto
    qed (use that(1) in \<open>simp add: block_head_def\<close>)
    moreover have "blk i k \<inter> (reserved_frames_of b \<union> free_frames_of b) = {}"
      using block_reserved_disjoint [OF sh h] used_free_disjoint [OF sh u] unfolding view_defs by blast
    ultimately show ?thesis
      using shapeD(2) [OF sh h] head_order [OF h] unfolding allocated_blocks_def by blast
  qed
  then show ?thesis
    unfolding U using frames_partition [OF sh] acc_length [OF acc] acc
    by (auto simp: view_defs buddy_acc_def)
qed

text \<open>An allocator with four released frames, used to exercise the properties.\<close>

definition four_frames :: buddy where
  "four_frames = add_range (buddy_new (\<lambda>_. \<lparr>l_next = 0, l_prev = 0\<rparr>) 4) 0 4"

lemma four_frames_inv: "buddy_inv four_frames"
  unfolding four_frames_def by (intro add_range_ok(1) buddy_new_inv(1)) (simp add: MAX_ORDER_def NIL_def)

lemma four_frames_reachable: "buddy_reachable four_frames"
  unfolding four_frames_def
  by (intro buddy_reachable.add buddy_reachable.new) (simp add: MAX_ORDER_def NIL_def)

lemma four_frames_view:
  "free_frames_of four_frames = {0..<4}" "allocated_blocks four_frames = {}" "b_frames four_frames = 4"
  using add_range_ok [OF buddy_new_inv(1) [of 4 "\<lambda>_. \<lparr>l_next = 0, l_prev = 0\<rparr>"], of 0 4]
    buddy_new_inv(2,3) [of 4 "\<lambda>_. \<lparr>l_next = 0, l_prev = 0\<rparr>"]
  by (auto simp: four_frames_def view_defs reserved_set_def MAX_ORDER_def NIL_def buddy_new_def)

lemma four_frames_alloc: "\<exists>i b'. alloc four_frames 1 = (Some i, b')"
proof -
  obtain r b' where a: "alloc four_frames 1 = (r, b')" by fastforce
  have "blk 0 1 \<subseteq> free_set (b_state four_frames)"
    using four_frames_view(1) by (auto simp: free_frames_of_def)
  then have "r \<noteq> None" using alloc_None(2) [of four_frames 1 b' 0] four_frames_inv a by (auto simp: MAX_ORDER_def)
  then show ?thesis using a by auto
qed

theorem buddy_reachable_partition_witness:
  "buddy_reachable four_frames \<and> b_free_frames four_frames = card (free_frames_of four_frames)"
  using buddy_reachable_partition [OF four_frames_reachable] four_frames_reachable by simp

text \<open>C11 (buddy alloc). \<open>alloc\<close> keeps the invariant. When it returns a block, the block is aligned to
  its size, consists of frames that were free, and exactly these frames move from free to
  allocated. It returns nothing only if the request is above the largest order or no aligned run of
  \<open>2 ^ order\<close> free frames exists at all, and then nothing changes.\<close>

theorem buddy_alloc_spec:
  assumes "buddy_inv b" and "alloc b order = (r, b')"
  shows "buddy_inv b' \<and>
    (case r of
       None \<Rightarrow> b' = b \<and>
         (MAX_ORDER < order \<or> \<not> (\<exists>i. 2 ^ order dvd i \<and> blk i order \<subseteq> free_frames_of b))
     | Some i \<Rightarrow> order \<le> MAX_ORDER \<and> 2 ^ order dvd i \<and> blk i order \<subseteq> free_frames_of b \<and>
         free_frames_of b' = free_frames_of b - blk i order \<and>
         reserved_frames_of b' = reserved_frames_of b \<and>
         allocated_blocks b' = insert (i, order) (allocated_blocks b))"
proof (cases r)
  case None
  then show ?thesis
    using alloc_inv [OF assms] alloc_None [of b order b'] assms by (auto simp: view_defs not_less)
next
  case (Some i)
  then have "alloc b order = (Some i, b')" using assms(2) by simp
  from alloc_Some [OF assms(1) this] Some show ?thesis by (auto simp: view_defs)
qed

theorem buddy_alloc_spec_witness:
  "\<exists>i b'. alloc four_frames 1 = (Some i, b') \<and> buddy_inv b' \<and> even i \<and> {i, i + 1} \<subseteq> {0..<4} \<and>
     free_frames_of b' = {0..<4} - {i, i + 1} \<and> allocated_blocks b' = {(i, 1)}"
proof -
  obtain i b' where a: "alloc four_frames 1 = (Some i, b')" using four_frames_alloc by auto
  have "blk i 1 = {i, i + 1}" by auto
  then show ?thesis
    using buddy_alloc_spec [OF four_frames_inv a] a four_frames_view by auto
qed

text \<open>C17 (buddy free). \<open>free\<close> succeeds exactly for a block that is allocated with the given order;
  it then keeps the invariant and returns exactly that block's frames to the free ones. In every
  other case (out of range, not a block head, double free, wrong order) the state is unchanged and
  the error is the documented one.\<close>

theorem buddy_free_spec:
  assumes "buddy_inv b" and "buddy_free b i order = (r, b')"
  shows "if (i, order) \<in> allocated_blocks b
    then r = None \<and> buddy_inv b' \<and> free_frames_of b' = free_frames_of b \<union> blk i order \<and>
      allocated_blocks b' = allocated_blocks b - {(i, order)} \<and>
      reserved_frames_of b' = reserved_frames_of b \<and> buddy_free b' i order = (Some NotAllocated, b')
    else b' = b \<and>
      r = Some (if b_frames b \<le> i then OutOfRange
                else case allocated_order b i of None \<Rightarrow> NotAllocated | Some k \<Rightarrow> WrongOrder k)"
proof (cases "(i, order) \<in> allocated_blocks b")
  case True
  then have u: "used_head (b_state b) i order" by (simp add: allocated_blocks_def)
  note F = buddy_free_ok [OF assms(1) u assms(2)]
  have acc': "buddy_acc {} b'" using F(2) by (simp add: buddy_inv_def)
  have i: "i < b_frames b'" "i < length (b_state b')"
    using u acc_length acc' assms(1) F(6) by (auto simp: used_head_def buddy_inv_def)
  have no: "\<not> used_head (b_state b') i k" for k using F(4) by simp
  then have "allocated_order b' i = None"
    using used_byte(1) [OF acc_shape [OF acc'] i(2)] by (simp add: allocated_order_def st_def)
  then have "buddy_free b' i order = (Some NotAllocated, b')"
    using buddy_free_not_used [OF acc' no] i by simp
  moreover have "allocated_blocks b' = allocated_blocks b - {(i, order)}"
    using F(4) used_head_unique [OF u] by (auto simp: allocated_blocks_def)
  ultimately show ?thesis using F True by (simp add: view_defs)
next
  case False
  then show ?thesis
    using buddy_free_not_used [of "{}" b i order] assms by (auto simp: allocated_blocks_def buddy_inv_def)
qed

theorem buddy_free_spec_witness:
  "\<exists>i b1 b2. alloc four_frames 1 = (Some i, b1) \<and> buddy_free b1 i 1 = (None, b2) \<and>
     buddy_free b2 i 1 = (Some NotAllocated, b2) \<and> free_frames_of b2 = {0..<4}"
proof -
  obtain i b1 where a: "alloc four_frames 1 = (Some i, b1)" using four_frames_alloc by auto
  note A = alloc_Some [OF four_frames_inv a]
  obtain r b2 where f: "buddy_free b1 i 1 = (r, b2)" by fastforce
  have "(i, 1) \<in> allocated_blocks b1" using A(6) by (simp add: allocated_blocks_def)
  with buddy_free_spec [OF A(1) f] have "r = None" "buddy_free b2 i 1 = (Some NotAllocated, b2)"
    "free_frames_of b2 = free_frames_of b1 \<union> blk i 1" by auto
  moreover have "free_frames_of b1 \<union> blk i 1 = {0..<4}"
    using A(4,5) four_frames_view(1) unfolding free_frames_of_def by blast
  ultimately show ?thesis using a f by auto
qed

text \<open>C18 (buddy alloc then free). Freeing a block right after allocating it brings every state byte
  and both counters back to their values before the allocation: splitting is always undone by
  merging, so no sequence of such pairs can fragment memory.\<close>

theorem buddy_alloc_free_restores:
  assumes "buddy_inv b" and "alloc b order = (Some i, b1)"
  shows "\<exists>b2. buddy_free b1 i order = (None, b2) \<and> buddy_inv b2 \<and> b_state b2 = b_state b \<and>
    b_free_frames b2 = b_free_frames b \<and> b_managed_frames b2 = b_managed_frames b"
proof -
  note A = alloc_Some [OF assms]
  obtain r b2 where f: "buddy_free b1 i order = (r, b2)" by fastforce
  have u: "used_head (b_state b1) i order" using A(6) by simp
  note F = buddy_free_ok [OF A(1) u f]
  have acc: "buddy_acc {} b" "buddy_acc {} b2" using assms(1) F(2) by (auto simp: buddy_inv_def)
  have not_used: "\<not> used_head (b_state b) i k" for k
  proof
    assume "used_head (b_state b) i k"
    then have "blk i k \<inter> free_set (b_state b) = {}" using used_free_disjoint acc_shape [OF acc(1)] by blast
    moreover have "i \<in> blk i k" "i \<in> blk i order" by auto
    ultimately show False using A(4) by blast
  qed
  have "b_state b2 = b_state b"
  proof (rule state_canonical)
    show "free_set (b_state b2) = free_set (b_state b)" using F(3) A(4,5) by auto
    show "used_head (b_state b2) j k \<longleftrightarrow> used_head (b_state b) j k" for j k
      using F(4) A(6) not_used by auto
  qed (use acc acc_shape acc_length F A in auto)
  moreover from this have "b_free_frames b2 = b_free_frames b" "b_managed_frames b2 = b_managed_frames b"
    using acc F(6) A(8) by (auto simp: buddy_acc_def)
  ultimately show ?thesis using f F(1,2) by auto
qed

theorem buddy_alloc_free_restores_witness:
  "\<exists>i b1 b2. alloc four_frames 1 = (Some i, b1) \<and> buddy_free b1 i 1 = (None, b2) \<and>
     b_state b2 = b_state four_frames"
proof -
  obtain i b1 where a: "alloc four_frames 1 = (Some i, b1)" using four_frames_alloc by auto
  from buddy_alloc_free_restores [OF four_frames_inv a] a show ?thesis by auto
qed

text \<open>C37 (buddy reserve). \<open>reserve_range\<close> never reaches its panic. It is all or nothing: it answers
  true exactly if every frame of the range is free, and then exactly these frames move from free to
  reserved; otherwise it changes nothing.\<close>

theorem buddy_reserve_spec:
  assumes "buddy_inv b"
  shows "\<exists>b'. reserve_range b s e =
      Some ({s..<min e (b_frames b)} \<subseteq> free_frames_of b, b') \<and> buddy_inv b' \<and>
    (if {s..<min e (b_frames b)} \<subseteq> free_frames_of b
     then free_frames_of b' = free_frames_of b - {s..<e} \<and>
       reserved_frames_of b' = reserved_frames_of b \<union> {s..<min e (b_frames b)} \<and>
       allocated_blocks b' = allocated_blocks b \<and> b_frames b' = b_frames b
     else b' = b)"
  using reserve_range_ok [OF assms] .

theorem buddy_reserve_spec_witness:
  "\<exists>b'. reserve_range four_frames 1 2 = Some (True, b') \<and> free_frames_of b' = {0, 2, 3}"
proof -
  have "{0..<4} - {1..<2} = {0, 2, 3::nat}" by auto
  then show ?thesis using buddy_reserve_spec [OF four_frames_inv, of 1 2] four_frames_view by auto
qed

end
