(* ===== verification/Packet.thy ===== *)
theory Packet
  imports Prelude "HOL-Library.Product_Lexorder" "HOL-Library.Monad_Syntax"
begin

unbundle bit_operations_syntax

text \<open>
  The packet side of \<^verbatim>\<open>lib/netfilter/src/lib.rs\<close>: the Ethernet and IPv4 parsers and the address,
  network and port-range types with their text forms. The parsers index byte slices; an index out
  of range would panic, so slice accesses are modelled with an explicit failure (\<^const>\<open>None\<close>) and the
  parsers are shown never to reach it.
\<close>

section \<open>Types\<close>

type_synonym ip = "u8 \<times> u8 \<times> u8 \<times> u8"

datatype Proto = Tcp | Udp | Icmp | Other u8

definition proto_number :: "Proto \<Rightarrow> u8" where
  "proto_number p = (case p of Icmp \<Rightarrow> 1 | Tcp \<Rightarrow> 6 | Udp \<Rightarrow> 17 | Other n \<Rightarrow> n)"

definition from_number :: "u8 \<Rightarrow> Proto" where
  "from_number n = (if n = 1 then Icmp else if n = 6 then Tcp else if n = 17 then Udp else Other n)"

definition proto_name :: "Proto \<Rightarrow> string" where
  "proto_name p = (case p of Tcp \<Rightarrow> ''tcp'' | Udp \<Rightarrow> ''udp'' | Icmp \<Rightarrow> ''icmp'' | Other _ \<Rightarrow> ''ip'')"

definition FIN :: u8 where "FIN = 0x01"
definition SYN :: u8 where "SYN = 0x02"
definition RST :: u8 where "RST = 0x04"
definition PSH :: u8 where "PSH = 0x08"
definition ACK :: u8 where "ACK = 0x10"
definition URG :: u8 where "URG = 0x20"

record packet =
  p_src :: ip
  p_dst :: ip
  p_proto :: Proto
  p_sport :: u16
  p_dport :: u16
  p_tcp_flags :: u8
  p_icmp_type :: u8
  p_len :: nat
  p_fragment :: bool

datatype Frame = Ipv4 packet | Arp | Frame_Malformed | Frame_Other

section \<open>Parsing\<close>

text \<open>Checked slice access: \<^verbatim>\<open>p[i]\<close> and \<^verbatim>\<open>p[i..j]\<close>, \<^const>\<open>None\<close> is the bounds panic.\<close>

definition idx :: "'a list \<Rightarrow> nat \<Rightarrow> 'a option" where
  "idx p i = (if i < length p then Some (p ! i) else None)"

definition subslice :: "'a list \<Rightarrow> nat \<Rightarrow> nat \<Rightarrow> 'a list option" where
  "subslice p i j = (if i \<le> j \<and> j \<le> length p then Some (take (j - i) (drop i p)) else None)"

definition be_u16 :: "u8 \<Rightarrow> u8 \<Rightarrow> u16" where
  "be_u16 a b = push_bit 8 (ucast a) OR ucast b"

definition be_u32 :: "ip \<Rightarrow> u32" where
  "be_u32 a = (case a of (a0, a1, a2, a3) \<Rightarrow>
     push_bit 24 (ucast a0) OR push_bit 16 (ucast a1) OR push_bit 8 (ucast a2) OR ucast a3)"

definition idx_u16 :: "u8 list \<Rightarrow> nat \<Rightarrow> u16 option" where
  "idx_u16 p i = do { a \<leftarrow> idx p i; b \<leftarrow> idx p (i + 1); Some (be_u16 a b) }"

definition idx_ip :: "u8 list \<Rightarrow> nat \<Rightarrow> ip option" where
  "idx_ip p i = do { a \<leftarrow> idx p i; b \<leftarrow> idx p (i + 1); c \<leftarrow> idx p (i + 2); d \<leftarrow> idx p (i + 3);
     Some (a, b, c, d) }"

definition parse_l4 :: "packet \<Rightarrow> u8 list \<Rightarrow> Frame option" where
  "parse_l4 pkt l4 =
     (case p_proto pkt of
        Tcp \<Rightarrow>
          if length l4 < 20 then Some Frame_Malformed
          else do { s \<leftarrow> idx_u16 l4 0; d \<leftarrow> idx_u16 l4 2; f \<leftarrow> idx l4 13;
            Some (Ipv4 (pkt\<lparr>p_sport := s, p_dport := d, p_tcp_flags := f AND 0x3F\<rparr>)) }
      | Udp \<Rightarrow>
          if length l4 < 8 then Some Frame_Malformed
          else do { s \<leftarrow> idx_u16 l4 0; d \<leftarrow> idx_u16 l4 2;
            Some (Ipv4 (pkt\<lparr>p_sport := s, p_dport := d\<rparr>)) }
      | Icmp \<Rightarrow>
          if length l4 < 8 then Some Frame_Malformed
          else do { t \<leftarrow> idx l4 0; s \<leftarrow> idx_u16 l4 4;
            Some (Ipv4 (pkt\<lparr>p_icmp_type := t, p_sport := s, p_dport := s\<rparr>)) }
      | Other _ \<Rightarrow> Some (Ipv4 pkt))"

definition parse_ipv4 :: "u8 list \<Rightarrow> Frame option" where
  "parse_ipv4 p =
     (if length p < 20 then Some Frame_Malformed
      else do {
        b0 \<leftarrow> idx p 0;
        if drop_bit 4 b0 \<noteq> 4 then Some Frame_Malformed
        else do {
          let ihl = unat (b0 AND 0x0F) * 4;
          tot \<leftarrow> idx_u16 p 2;
          let total = unat tot;
          if ihl < 20 \<or> total < ihl \<or> length p < total then Some Frame_Malformed
          else do {
            frag \<leftarrow> idx_u16 p 6;
            let more_fragments = (frag AND 0x2000 \<noteq> 0);
            let offset = frag AND 0x1FFF;
            pr \<leftarrow> idx p 9;
            src \<leftarrow> idx_ip p 12;
            dst \<leftarrow> idx_ip p 16;
            l4 \<leftarrow> subslice p ihl total;
            let pkt = \<lparr>p_src = src, p_dst = dst, p_proto = from_number pr, p_sport = 0, p_dport = 0,
                       p_tcp_flags = 0, p_icmp_type = 0, p_len = total,
                       p_fragment = (more_fragments \<or> offset \<noteq> 0)\<rparr>;
            if p_fragment pkt then Some (Ipv4 pkt) else parse_l4 pkt l4 } } })"

definition parse_ethernet :: "u8 list \<Rightarrow> Frame option" where
  "parse_ethernet frame =
     (if length frame < 14 then Some Frame_Malformed
      else do {
        t \<leftarrow> idx_u16 frame 12;
        if t = 0x0806 then Some Arp
        else if t = 0x0800 then subslice frame 14 (length frame) \<bind> parse_ipv4
        else Some Frame_Other })"

section \<open>Networks and port ranges\<close>

record cidr =
  c_addr :: ip
  c_prefix :: nat

text \<open>
  The prefix of a \<^verbatim>\<open>Cidr\<close> is at most 32 (\<^verbatim>\<open>parse\<close> checks it); a larger one would trap in the shift.
\<close>

definition cidr_contains :: "cidr \<Rightarrow> ip \<Rightarrow> bool" where
  "cidr_contains c a \<longleftrightarrow>
     c_prefix c = 0 \<or>
     (let mask = push_bit (32 - c_prefix c) (- 1 :: u32)
      in be_u32 (c_addr c) AND mask = be_u32 a AND mask)"

fun parse_ip_loop :: "u8 list \<Rightarrow> string list \<Rightarrow> u8 list option" where
  "parse_ip_loop os [] = Some os"
| "parse_ip_loop os (part # ps) =
     (if length os = 4 \<or> part = [] \<or> 3 < length part \<or> \<not> list_all is_ascii_digit part then None
      else case parse_unsigned 8 10 part of
             None \<Rightarrow> None
           | Some v \<Rightarrow> parse_ip_loop (os @ [word_of_nat v]) ps)"

definition parse_ip :: "string \<Rightarrow> ip option" where
  "parse_ip s =
     (case parse_ip_loop [] (split_on (CHR ''.'') s) of
        None \<Rightarrow> None
      | Some os \<Rightarrow> if length os = 4 then Some (os ! 0, os ! 1, os ! 2, os ! 3) else None)"

definition fmt_ip :: "ip \<Rightarrow> string" where
  "fmt_ip a = (case a of (a0, a1, a2, a3) \<Rightarrow>
     dec_str (unat a0) @ ''.'' @ dec_str (unat a1) @ ''.'' @ dec_str (unat a2) @ ''.'' @ dec_str (unat a3))"

definition cidr_parse :: "string \<Rightarrow> cidr option" where
  "cidr_parse s =
     (case split_once (\<lambda>c. c = CHR ''/'') s of
        Some (a, p) \<Rightarrow>
          (case parse_unsigned 8 10 p of
             None \<Rightarrow> None
           | Some n \<Rightarrow> if n \<le> 32
               then map_option (\<lambda>addr. \<lparr>c_addr = addr, c_prefix = n\<rparr>) (parse_ip a) else None)
      | None \<Rightarrow> map_option (\<lambda>addr. \<lparr>c_addr = addr, c_prefix = 32\<rparr>) (parse_ip s))"

definition cidr_fmt :: "cidr \<Rightarrow> string" where
  "cidr_fmt c = (if c_prefix c = 32 then fmt_ip (c_addr c)
     else fmt_ip (c_addr c) @ ''/'' @ dec_str (c_prefix c))"

record port_range =
  r_lo :: u16
  r_hi :: u16

definition port_range_parse :: "string \<Rightarrow> port_range option" where
  "port_range_parse s =
     (case split_once (\<lambda>c. c = CHR ''-'' \<or> c = CHR '':'') s of
        Some (a, b) \<Rightarrow> do {
          lo \<leftarrow> parse_unsigned 16 10 a;
          hi \<leftarrow> parse_unsigned 16 10 b;
          if lo \<le> hi then Some \<lparr>r_lo = word_of_nat lo, r_hi = word_of_nat hi\<rparr> else None }
      | None \<Rightarrow> do {
          p \<leftarrow> parse_unsigned 16 10 s;
          Some \<lparr>r_lo = word_of_nat p, r_hi = word_of_nat p\<rparr> })"

definition port_contains :: "port_range \<Rightarrow> u16 \<Rightarrow> bool" where
  "port_contains r p \<longleftrightarrow> r_lo r \<le> p \<and> p \<le> r_hi r"

definition port_range_fmt :: "port_range \<Rightarrow> string" where
  "port_range_fmt r = (if r_lo r = r_hi r then dec_str (unat (r_lo r))
     else dec_str (unat (r_lo r)) @ ''-'' @ dec_str (unat (r_hi r)))"

section \<open>Lemmas\<close>

lemma idx_Some [simp]: "i < length p \<Longrightarrow> idx p i = Some (p ! i)"
  by (simp add: idx_def)

lemma idx_u16_Some [simp]: "i + 1 < length p \<Longrightarrow> idx_u16 p i = Some (be_u16 (p ! i) (p ! (i + 1)))"
  by (simp add: idx_u16_def)

lemma idx_ip_Some [simp]:
  "i + 3 < length p \<Longrightarrow> idx_ip p i = Some (p ! i, p ! (i + 1), p ! (i + 2), p ! (i + 3))"
  by (simp add: idx_ip_def)

lemma idx_0 [simp]: "p \<noteq> [] \<Longrightarrow> idx p 0 = Some (p ! 0)"
  by (simp add: idx_def)

lemma parse_l4_Some: "\<exists>f. parse_l4 pkt l4 = Some f"
  by (cases "l4 = []") (auto simp: parse_l4_def split: Proto.splits)

lemma parse_ipv4_Some: "\<exists>f. parse_ipv4 p = Some f"
  using parse_l4_Some by (cases "p = []") (auto simp: parse_ipv4_def subslice_def Let_def)

text \<open>C38 (parser safety). The Ethernet and IPv4 parsers return a result for every byte string: no
  slice access is ever out of bounds, whatever arrives from the wire.\<close>

theorem parse_ethernet_total: "\<exists>f. parse_ethernet frame = Some f"
  using parse_ipv4_Some by (auto simp: parse_ethernet_def subslice_def)

lemma proto_number_roundtrip: "proto_number (from_number n) = n"
  by (simp add: proto_number_def from_number_def)

lemma octet_lt: "unat (a :: u8) < 256" "unat (a :: u8) < 2 ^ 8" "unat (a :: u8) < 10 ^ 3"
proof -
  show "unat a < 2 ^ 8" using unsigned_less [of a, where ?'a = nat] by simp
  then show "unat a < 256" "unat a < 10 ^ 3" by auto
qed

lemma port_lt: "unat (p :: u16) < 2 ^ 16"
  using unsigned_less [of p, where ?'a = nat] by simp

lemma dec_no_sep: "\<not> is_ascii_digit c \<Longrightarrow> c \<notin> set (dec_str n)"
  using dec_str_digits by blast

lemma seps_not_digits [simp]:
  "\<not> is_ascii_digit (CHR ''.'')" "\<not> is_ascii_digit (CHR ''/'')" "\<not> is_ascii_digit (CHR ''-'')"
  "\<not> is_ascii_digit (CHR '':'')"
  by (simp_all add: is_ascii_digit_def)

lemma parse_ip_loop_octet:
  "length os < 4 \<Longrightarrow> parse_ip_loop os (dec_str (unat a) # ps) = parse_ip_loop (os @ [a]) ps" for a :: u8
  using octet_lt [of a] length_dec_str [of "unat a" 3] dec_str_digits [of _ "unat a"]
  by (auto simp: list_all_iff)

lemma parse_fmt_ip: "parse_ip (fmt_ip a) = Some a"
proof -
  obtain a0 a1 a2 a3 where a: "a = (a0, a1, a2, a3)" by (cases a) auto
  have "split_on (CHR ''.'') (fmt_ip a) =
      [dec_str (unat a0), dec_str (unat a1), dec_str (unat a2), dec_str (unat a3)]"
    by (simp add: a fmt_ip_def split_on_sep split_on_last dec_no_sep)
  then show ?thesis by (simp add: parse_ip_def parse_ip_loop_octet a del: parse_ip_loop.simps(2))
qed

lemma fmt_ip_chars: "c \<in> set (fmt_ip a) \<Longrightarrow> is_ascii_digit c \<or> c = CHR ''.''"
  using dec_str_digits by (cases a) (auto simp: fmt_ip_def)

text \<open>The text form of an address, a network and a port range reads back as the
  same value, so a rule printed by the firewall can be entered again.\<close>

theorem netfilter_text_roundtrip:
  assumes "c_prefix c \<le> 32" and "r_lo r \<le> r_hi r"
  shows "parse_ip (fmt_ip a) = Some a \<and> cidr_parse (cidr_fmt c) = Some c \<and>
    port_range_parse (port_range_fmt r) = Some r"
proof (intro conjI)
  show "parse_ip (fmt_ip a) = Some a" by (rule parse_fmt_ip)
  have no: "\<forall>x\<in>set (fmt_ip (c_addr c)). \<not> x = CHR ''/''" using fmt_ip_chars by fastforce
  show "cidr_parse (cidr_fmt c) = Some c"
  proof (cases "c_prefix c = 32")
    case True
    then show ?thesis
      using split_once_none [OF no] by (simp add: cidr_parse_def cidr_fmt_def parse_fmt_ip)
  next
    case False
    then show ?thesis
      using split_once_sep [OF no refl, of "dec_str (c_prefix c)"] assms(1)
      by (simp add: cidr_parse_def cidr_fmt_def parse_fmt_ip)
  qed
  let ?P = "\<lambda>x. x = CHR ''-'' \<or> x = CHR '':''"
  have no: "\<forall>x\<in>set (dec_str n). \<not> ?P x" for n using dec_str_digits by fastforce
  show "port_range_parse (port_range_fmt r) = Some r"
  proof (cases "r_lo r = r_hi r")
    case True
    then show ?thesis
      using split_once_none [OF no, of "unat (r_lo r)"] port_lt [of "r_hi r"]
      by (simp add: port_range_parse_def port_range_fmt_def)
  next
    case False
    then show ?thesis
      using split_once_sep [of "dec_str (unat (r_lo r))" ?P "CHR ''-''", OF no, of "dec_str (unat (r_hi r))"]
        port_lt [of "r_lo r"] port_lt [of "r_hi r"] assms(2)
      by (simp add: port_range_parse_def port_range_fmt_def word_le_nat_alt)
  qed
qed

theorem netfilter_text_roundtrip_witness:
  "cidr_parse (cidr_fmt \<lparr>c_addr = (10, 0, 2, 15), c_prefix = 24\<rparr>) = Some \<lparr>c_addr = (10, 0, 2, 15), c_prefix = 24\<rparr> \<and>
   port_range_parse (port_range_fmt \<lparr>r_lo = 80, r_hi = 443\<rparr>) = Some \<lparr>r_lo = 80, r_hi = 443\<rparr>"
  using netfilter_text_roundtrip [of "\<lparr>c_addr = (10, 0, 2, 15), c_prefix = 24\<rparr>" "\<lparr>r_lo = 80, r_hi = 443\<rparr>" "(0, 0, 0, 0)"]
  by simp

text \<open>An address is inside a network exactly if its leading \<open>prefix\<close> bits are
  those of the network address.\<close>

theorem cidr_contains_iff:
  assumes "c_prefix c \<le> 32"
  shows "cidr_contains c a \<longleftrightarrow>
    (\<forall>k<c_prefix c. bit (be_u32 a) (31 - k) \<longleftrightarrow> bit (be_u32 (c_addr c)) (31 - k))"
proof -
  let ?x = "be_u32 (c_addr c)" and ?y = "be_u32 a" and ?n = "32 - c_prefix c"
  have "?x AND push_bit ?n (- 1) = ?y AND push_bit ?n (- 1) \<longleftrightarrow>
      (\<forall>i<32. ?n \<le> i \<longrightarrow> (bit ?x i \<longleftrightarrow> bit ?y i))"
    by (auto simp: bit_eq_iff bit_simps) 
  also have "\<dots> \<longleftrightarrow> (\<forall>k<c_prefix c. bit ?y (31 - k) \<longleftrightarrow> bit ?x (31 - k))"
  proof (rule iffI; intro allI impI)
    fix k assume h: "\<forall>i<32. ?n \<le> i \<longrightarrow> (bit ?x i \<longleftrightarrow> bit ?y i)" "k < c_prefix c"
    then show "bit ?y (31 - k) \<longleftrightarrow> bit ?x (31 - k)" using assms by (auto dest: spec [of _ "31 - k"])
  next
    fix i assume h: "\<forall>k<c_prefix c. bit ?y (31 - k) \<longleftrightarrow> bit ?x (31 - k)" "i < 32" "?n \<le> i"
    then have "31 - i < c_prefix c" "31 - (31 - i) = i" using assms by auto
    then show "bit ?x i \<longleftrightarrow> bit ?y i" using h(1) by metis
  qed
  finally show ?thesis by (auto simp: cidr_contains_def Let_def)
qed

theorem cidr_contains_iff_witness:
  "cidr_contains \<lparr>c_addr = (10, 0, 2, 0), c_prefix = 24\<rparr> (10, 0, 2, 77) \<and>
   (bit (be_u32 (10, 0, 2, 77)) (31 - 22) \<longleftrightarrow> bit (be_u32 (10, 0, 2, 0)) (31 - 22))"
proof -
  have c: "cidr_contains \<lparr>c_addr = (10, 0, 2, 0), c_prefix = 24\<rparr> (10, 0, 2, 77)" by code_simp
  with cidr_contains_iff [of "\<lparr>c_addr = (10, 0, 2, 0), c_prefix = 24\<rparr>" "(10, 0, 2, 77)"]
  have "\<forall>k<24. bit (be_u32 (10, 0, 2, 77)) (31 - k) \<longleftrightarrow> bit (be_u32 (10, 0, 2, 0)) (31 - k)"
    by simp
  from spec [OF this, of 22] c show ?thesis by simp
qed

end
