(* ===== verification/Ordered_Map.thy ===== *)
theory Ordered_Map
  imports Prelude
begin

text \<open>
  The contract of an ordered map and its instance: \<^verbatim>\<open>BTreeMap\<close> of the Rust standard library, as the
  list of its entries in key order, which is what its iterators visit. The laws are stated once as
  a locale; the kernel components that keep tables (connection tracking, bans, descriptor tables,
  control groups) use the facts of its interpretation.
\<close>

locale ordered_map =
  fixes get :: "'m \<Rightarrow> 'k \<Rightarrow> 'v option" and ins :: "'k \<Rightarrow> 'v \<Rightarrow> 'm \<Rightarrow> 'm" and del :: "'k \<Rightarrow> 'm \<Rightarrow> 'm"
    and keep :: "('k \<Rightarrow> 'v \<Rightarrow> bool) \<Rightarrow> 'm \<Rightarrow> 'm" and cnt :: "'m \<Rightarrow> nat" and ok :: "'m \<Rightarrow> bool"
  assumes get_ins: "ok m \<Longrightarrow> get (ins k v m) k' = (if k' = k then Some v else get m k')"
    and get_del: "ok m \<Longrightarrow> get (del k m) k' = (if k' = k then None else get m k')"
    and get_keep: "ok m \<Longrightarrow> get (keep P m) k =
      (case get m k of None \<Rightarrow> None | Some v \<Rightarrow> if P k v then Some v else None)"
    and cnt_card: "ok m \<Longrightarrow> finite (dom (get m)) \<and> cnt m = card (dom (get m))"
    and ok_ins: "ok m \<Longrightarrow> ok (ins k v m)" and ok_del: "ok m \<Longrightarrow> ok (del k m)" and ok_keep: "ok m \<Longrightarrow> ok (keep P m)"
begin

lemma dom_ins: "ok m \<Longrightarrow> dom (get (ins k v m)) = insert k (dom (get m))"
  by (auto simp: get_ins)

lemma dom_del: "ok m \<Longrightarrow> dom (get (del k m)) = dom (get m) - {k}"
  by (auto simp: get_del split: if_splits)

lemma dom_keep: "ok m \<Longrightarrow> dom (get (keep P m)) \<subseteq> dom (get m)"
  by (auto simp: get_keep split: option.splits)

lemma cnt_ins: "ok m \<Longrightarrow> cnt (ins k v m) = (if get m k = None then Suc (cnt m) else cnt m)"
  using cnt_card [of m] cnt_card [of "ins k v m"] by (auto simp: ok_ins dom_ins card_insert_if)

lemma cnt_del: "ok m \<Longrightarrow> cnt (del k m) = (if get m k = None then cnt m else cnt m - 1)"
  using cnt_card [of m] cnt_card [of "del k m"] by (auto simp: ok_del dom_del card_Diff_singleton_if)

lemma cnt_keep: "ok m \<Longrightarrow> cnt (keep P m) \<le> cnt m"
  using cnt_card [of m] cnt_card [of "keep P m"] dom_keep [of m P] by (auto simp: ok_keep intro: card_mono)

end

text \<open>\<^verbatim>\<open>BTreeMap\<close>: \<open>get\<close>, \<open>insert\<close> (which replaces), \<open>remove\<close> and \<open>retain\<close>.\<close>

type_synonym ('k, 'v) btree = "('k \<times> 'v) list"

definition bt_get :: "('k, 'v) btree \<Rightarrow> 'k \<Rightarrow> 'v option" where
  "bt_get m k = map_of m k"

fun bt_insert :: "'k::linorder \<Rightarrow> 'v \<Rightarrow> ('k, 'v) btree \<Rightarrow> ('k, 'v) btree" where
  "bt_insert k v [] = [(k, v)]"
| "bt_insert k v (e # m) =
     (if k < fst e then (k, v) # e # m
      else if k = fst e then (k, v) # m
      else e # bt_insert k v m)"

definition bt_remove :: "'k \<Rightarrow> ('k, 'v) btree \<Rightarrow> ('k, 'v) btree" where
  "bt_remove k m = filter (\<lambda>e. fst e \<noteq> k) m"

definition bt_retain :: "('k \<Rightarrow> 'v \<Rightarrow> bool) \<Rightarrow> ('k, 'v) btree \<Rightarrow> ('k, 'v) btree" where
  "bt_retain P m = filter (\<lambda>(k, v). P k v) m"

definition bt_ok :: "('k::linorder, 'v) btree \<Rightarrow> bool" where
  "bt_ok m \<longleftrightarrow> sorted_wrt (<) (map fst m)"

lemma bt_ok_Nil [simp]: "bt_ok []"
  by (simp add: bt_ok_def)

lemma bt_get_Nil [simp]: "bt_get [] k = None"
  by (simp add: bt_get_def)

lemma bt_get_insert: "bt_get (bt_insert k v m) k' = (if k' = k then Some v else bt_get m k')"
  unfolding bt_get_def by (induction m) auto

lemma bt_ok_distinct: "bt_ok m \<Longrightarrow> distinct (map fst m)"
  by (simp add: bt_ok_def strict_sorted_iff)

lemma keys_bt_insert: "set (map fst (bt_insert k v m)) = insert k (set (map fst m))"
  by (induction m) auto

lemma bt_ok_insert: "bt_ok m \<Longrightarrow> bt_ok (bt_insert k v m)"
proof (induction m)
  case (Cons e m)
  then show ?case using keys_bt_insert [of k v m]
    by (auto simp: bt_ok_def simp del: map_map)
qed (simp add: bt_ok_def)

lemma bt_get_remove: "bt_get (bt_remove k m) k' = (if k' = k then None else bt_get m k')"
  unfolding bt_get_def bt_remove_def by (induction m) auto

lemma bt_get_retain:
  assumes "bt_ok m"
  shows "bt_get (bt_retain P m) k =
    (case bt_get m k of None \<Rightarrow> None | Some v \<Rightarrow> if P k v then Some v else None)"
  using bt_ok_distinct [OF assms] unfolding bt_get_def bt_retain_def
proof (induction m)
  case (Cons e m)
  then show ?case
    by (cases e) (auto split: option.splits dest: map_of_SomeD simp: rev_image_eqI map_of_eq_None_iff)
qed simp

lemma bt_ok_filter: "bt_ok m \<Longrightarrow> bt_ok (filter P m)"
  unfolding bt_ok_def by (induction m) auto

interpretation bt: ordered_map bt_get bt_insert bt_remove bt_retain length bt_ok
proof
  fix m :: "('a::linorder, 'b) btree"
  assume ok: "bt_ok m"
  have "card (set (map fst m)) = length m" using bt_ok_distinct [OF ok] distinct_card by force
  then show "finite (dom (bt_get m)) \<and> length m = card (dom (bt_get m))"
    by (simp add: bt_get_def [abs_def] dom_map_of_conv_image_fst finite_dom_map_of)
  show "bt_ok (bt_remove k m)" "bt_ok (bt_retain P m)" for k P
    using ok bt_ok_filter by (simp_all add: bt_remove_def bt_retain_def)
qed (simp_all add: bt_get_insert bt_get_remove bt_get_retain bt_ok_insert)

lemmas bt_oks [simp] = bt.ok_ins bt.ok_del bt.ok_keep

end
