(* ===== verification/Netfilter.thy ===== *)
theory Netfilter
  imports Packet Ordered_Map
begin

unbundle bit_operations_syntax

text \<open>
  The packet filter of \<^verbatim>\<open>lib/netfilter/src/lib.rs\<close> (rules, rate limits, connection tracking, bans,
  scan detection) and its kernel front end \<^verbatim>\<open>kernel/src/firewall.rs\<close>. Times, counters and limits
  are natural numbers: the build traps on integer overflow, so a run that continues computed the
  exact value. The two computations whose operands come from configuration or from a command
  (\<^verbatim>\<open>Bucket::take\<close> and \<^verbatim>\<open>Firewall::ban\<close>) have the trap as an explicit result \<^const>\<open>None\<close>; statistics
  counters, which would need \<open>2 ^ 64\<close> packets, do not.
\<close>

section \<open>Data\<close>

datatype Dir = In | Out

definition dir_name :: "Dir \<Rightarrow> string" where
  "dir_name d = (case d of In \<Rightarrow> ''in'' | Out \<Rightarrow> ''out'')"

datatype Action = Action_Accept | Action_Drop

definition action_name :: "Action \<Rightarrow> string" where
  "action_name a = (case a of Action_Accept \<Rightarrow> ''accept'' | Action_Drop \<Rightarrow> ''drop'')"

definition chk64 :: "nat \<Rightarrow> nat option" where
  "chk64 n = (if n < 2 ^ 64 then Some n else None)"

definition saturating_mul64 :: "nat \<Rightarrow> nat \<Rightarrow> nat" where
  "saturating_mul64 a b = min (a * b) (2 ^ 64 - 1)"

record bucket =
  bk_rate :: nat
  bk_burst :: nat
  bk_tokens_milli :: nat
  bk_last_ms :: nat

definition bucket_new :: "nat \<Rightarrow> nat \<Rightarrow> bucket" where
  "bucket_new rate burst = \<lparr>bk_rate = rate, bk_burst = burst, bk_tokens_milli = burst * 1000, bk_last_ms = 0\<rparr>"

text \<open>Natural subtraction is \<^verbatim>\<open>saturating_sub\<close>.\<close>

definition bucket_take :: "nat \<Rightarrow> bucket \<Rightarrow> (bool \<times> bucket) option" where
  "bucket_take now_ms b = do {
     let elapsed = now_ms - bk_last_ms b;
     inc \<leftarrow> chk64 (elapsed * bk_rate b);
     sum \<leftarrow> chk64 (bk_tokens_milli b + inc);
     let tokens = min sum (bk_burst b * 1000);
     if 1000 \<le> tokens
       then Some (True, b\<lparr>bk_last_ms := now_ms, bk_tokens_milli := tokens - 1000\<rparr>)
       else Some (False, b\<lparr>bk_last_ms := now_ms, bk_tokens_milli := tokens\<rparr>) }"

record rule =
  ru_dir :: Dir
  ru_action :: Action
  ru_proto :: "Proto option"
  ru_src :: "cidr option"
  ru_dst :: "cidr option"
  ru_sport :: "port_range option"
  ru_dport :: "port_range option"
  ru_icmp_type :: "u8 option"
  ru_limit :: "bucket option"
  ru_comment :: string
  ru_hits :: nat
  ru_bytes :: nat
  ru_system :: bool

definition rule_new :: "Dir \<Rightarrow> Action \<Rightarrow> rule" where
  "rule_new dir action =
     \<lparr>ru_dir = dir, ru_action = action, ru_proto = None, ru_src = None, ru_dst = None, ru_sport = None,
      ru_dport = None, ru_icmp_type = None, ru_limit = None, ru_comment = [], ru_hits = 0, ru_bytes = 0,
      ru_system = False\<rparr>"

definition is_none_or :: "('a \<Rightarrow> bool) \<Rightarrow> 'a option \<Rightarrow> bool" where
  "is_none_or P x = (case x of None \<Rightarrow> True | Some a \<Rightarrow> P a)"

definition rule_matches :: "rule \<Rightarrow> Dir \<Rightarrow> packet \<Rightarrow> bool" where
  "rule_matches r dir p \<longleftrightarrow>
     ru_dir r = dir
     \<and> is_none_or (\<lambda>x. x = p_proto p) (ru_proto r)
     \<and> is_none_or (\<lambda>c. cidr_contains c (p_src p)) (ru_src r)
     \<and> is_none_or (\<lambda>c. cidr_contains c (p_dst p)) (ru_dst r)
     \<and> is_none_or (\<lambda>x. port_contains x (p_sport p)) (ru_sport r)
     \<and> is_none_or (\<lambda>x. port_contains x (p_dport p)) (ru_dport r)
     \<and> is_none_or (\<lambda>t. t = p_icmp_type p) (ru_icmp_type r)"

definition push_opt :: "('a \<Rightarrow> string) \<Rightarrow> 'a option \<Rightarrow> string" where
  "push_opt f x = (case x of None \<Rightarrow> [] | Some a \<Rightarrow> f a)"

definition rule_describe :: "rule \<Rightarrow> string" where
  "rule_describe r =
     dir_name (ru_dir r) @ '' '' @ action_name (ru_action r)
     @ push_opt (\<lambda>p. '' '' @ proto_name p) (ru_proto r)
     @ push_opt (\<lambda>c. '' from '' @ cidr_fmt c) (ru_src r)
     @ push_opt (\<lambda>c. '' to '' @ cidr_fmt c) (ru_dst r)
     @ push_opt (\<lambda>x. '' sport '' @ port_range_fmt x) (ru_sport r)
     @ push_opt (\<lambda>x. '' port '' @ port_range_fmt x) (ru_dport r)
     @ push_opt (\<lambda>t. '' type '' @ dec_str (unat t)) (ru_icmp_type r)
     @ push_opt (\<lambda>b. '' limit '' @ dec_str (bk_rate b) @ ''/s'') (ru_limit r)"

text \<open>A flow as seen from this host. The derived order compares the fields in turn.\<close>

datatype flow_key = FlowKey (fk_proto: u8) (fk_local: "ip \<times> u16") (fk_remote: "ip \<times> u16")

instantiation flow_key :: linorder
begin

definition less_eq_flow_key :: "flow_key \<Rightarrow> flow_key \<Rightarrow> bool" where
  "less_eq_flow_key a b \<longleftrightarrow> (fk_proto a, fk_local a, fk_remote a) \<le> (fk_proto b, fk_local b, fk_remote b)"

definition less_flow_key :: "flow_key \<Rightarrow> flow_key \<Rightarrow> bool" where
  "less_flow_key a b \<longleftrightarrow> (fk_proto a, fk_local a, fk_remote a) < (fk_proto b, fk_local b, fk_remote b)"

instance
proof
  fix x y z :: flow_key
  show "x < y \<longleftrightarrow> x \<le> y \<and> \<not> y \<le> x"
    unfolding less_eq_flow_key_def less_flow_key_def by (rule less_le_not_le)
  show "x \<le> x" unfolding less_eq_flow_key_def by (rule order_refl)
  show "x \<le> y \<Longrightarrow> y \<le> z \<Longrightarrow> x \<le> z" unfolding less_eq_flow_key_def by (rule order_trans)
  show "x \<le> y \<or> y \<le> x" unfolding less_eq_flow_key_def by (rule linear)
  assume "x \<le> y" "y \<le> x"
  then have "(fk_proto x, fk_local x, fk_remote x) = (fk_proto y, fk_local y, fk_remote y)"
    unfolding less_eq_flow_key_def by (rule antisym)
  then show "x = y" by (simp add: flow_key.expand)
qed

end

record flow =
  f_created_ms :: nat
  f_last_ms :: nat
  f_packets :: nat
  f_bytes :: nat
  f_replied :: bool
  f_opened_by :: Dir
  f_closing :: bool

datatype Reason = Reason_Malformed | Fragment | BadFlags | Spoofed | Banned | SynFlood | Reason_Rule nat | Policy

datatype Verdict = Verdict_Accept | Verdict_Drop Reason

definition reason_name :: "Reason \<Rightarrow> string" where
  "reason_name r =
     (case r of Reason_Malformed \<Rightarrow> ''malformed'' | Fragment \<Rightarrow> ''fragment'' | BadFlags \<Rightarrow> ''bad-tcp-flags''
      | Spoofed \<Rightarrow> ''spoofed-source'' | Banned \<Rightarrow> ''banned'' | SynFlood \<Rightarrow> ''syn-flood''
      | Reason_Rule _ \<Rightarrow> ''rule'' | Policy \<Rightarrow> ''policy'')"

record ban =
  bn_until_ms :: nat
  bn_reason :: string
  bn_strikes :: nat

record counters =
  ct_accepted_in :: nat
  ct_accepted_out :: nat
  ct_dropped_in :: nat
  ct_dropped_out :: nat
  ct_malformed :: nat
  ct_spoofed :: nat
  ct_banned :: nat
  ct_syn_flood :: nat
  ct_scans_detected :: nat
  ct_bans_issued :: nat

record scan_tracker =
  sc_window_start_ms :: nat
  sc_ports :: "u16 list"

record protections =
  pr_syn_rate :: nat
  pr_syn_burst :: nat
  pr_scan_ports :: nat
  pr_scan_window_ms :: nat
  pr_scan_ban_ms :: nat
  pr_drop_fragments :: bool

definition protections_default :: protections where
  "protections_default = \<lparr>pr_syn_rate = 20, pr_syn_burst = 40, pr_scan_ports = 20,
     pr_scan_window_ms = 10000, pr_scan_ban_ms = 3600000, pr_drop_fragments = True\<rparr>"

record firewall =
  fw_rules :: "rule list"
  fw_policy_in :: Action
  fw_policy_out :: Action
  fw_protections :: protections
  fw_enabled :: bool
  fw_flows :: "(flow_key, flow) btree"
  fw_max_flows :: nat
  fw_bans :: "(ip, ban) btree"
  fw_syn_buckets :: "(ip, bucket) btree"
  fw_scans :: "(ip, scan_tracker) btree"
  fw_local_ips :: "ip list"
  fw_allowlist :: "cidr list"
  fw_counters :: counters
  fw_log :: "(Dir \<times> packet \<times> Reason) list"
  fw_log_drops :: bool

abbreviation TCP_EST_TIMEOUT_MS :: nat where "TCP_EST_TIMEOUT_MS \<equiv> 3600000"
abbreviation TCP_CLOSE_TIMEOUT_MS :: nat where "TCP_CLOSE_TIMEOUT_MS \<equiv> 10000"
abbreviation TCP_NEW_TIMEOUT_MS :: nat where "TCP_NEW_TIMEOUT_MS \<equiv> 60000"
abbreviation UDP_TIMEOUT_MS :: nat where "UDP_TIMEOUT_MS \<equiv> 30000"
abbreviation UDP_STREAM_TIMEOUT_MS :: nat where "UDP_STREAM_TIMEOUT_MS \<equiv> 180000"
abbreviation ICMP_TIMEOUT_MS :: nat where "ICMP_TIMEOUT_MS \<equiv> 30000"

section \<open>The filter\<close>

definition ssh_rule :: rule where
  "ssh_rule = (rule_new In Action_Accept)\<lparr>ru_proto := Some Tcp, ru_dport := Some \<lparr>r_lo = 22, r_hi = 22\<rparr>,
     ru_comment := ''ssh'', ru_system := True\<rparr>"

definition ping_rule :: rule where
  "ping_rule = (rule_new In Action_Accept)\<lparr>ru_proto := Some Icmp, ru_icmp_type := Some 8,
     ru_limit := Some (bucket_new 10 20), ru_comment := ''ping (rate limited)'', ru_system := True\<rparr>"

definition dhcp_rule :: rule where
  "dhcp_rule = (rule_new In Action_Accept)\<lparr>ru_proto := Some Udp, ru_sport := Some \<lparr>r_lo = 67, r_hi = 67\<rparr>,
     ru_dport := Some \<lparr>r_lo = 68, r_hi = 68\<rparr>, ru_comment := ''dhcp client'', ru_system := True\<rparr>"

definition counters_zero :: counters where
  "counters_zero = \<lparr>ct_accepted_in = 0, ct_accepted_out = 0, ct_dropped_in = 0, ct_dropped_out = 0,
     ct_malformed = 0, ct_spoofed = 0, ct_banned = 0, ct_syn_flood = 0, ct_scans_detected = 0,
     ct_bans_issued = 0\<rparr>"

definition with_defaults :: firewall where
  "with_defaults =
     \<lparr>fw_rules = [ssh_rule, ping_rule, dhcp_rule], fw_policy_in = Action_Drop, fw_policy_out = Action_Accept,
      fw_protections = protections_default, fw_enabled = True, fw_flows = [], fw_max_flows = 32768,
      fw_bans = [], fw_syn_buckets = [], fw_scans = [], fw_local_ips = [], fw_allowlist = [],
      fw_counters = counters_zero, fw_log = [], fw_log_drops = True\<rparr>"

definition flow_key_of :: "Dir \<Rightarrow> packet \<Rightarrow> flow_key" where
  "flow_key_of dir p =
     (case dir of
        Out \<Rightarrow> FlowKey (proto_number (p_proto p)) (p_src p, p_sport p) (p_dst p, p_dport p)
      | In \<Rightarrow> FlowKey (proto_number (p_proto p)) (p_dst p, p_dport p) (p_src p, p_sport p))"

definition flow_timeout :: "u8 \<Rightarrow> flow \<Rightarrow> nat" where
  "flow_timeout proto f =
     (if proto = 6 \<and> f_closing f then TCP_CLOSE_TIMEOUT_MS
      else if proto = 6 \<and> f_replied f then TCP_EST_TIMEOUT_MS
      else if proto = 6 then TCP_NEW_TIMEOUT_MS
      else if proto = 17 \<and> f_replied f then UDP_STREAM_TIMEOUT_MS
      else if proto = 17 then UDP_TIMEOUT_MS
      else ICMP_TIMEOUT_MS)"

definition bad_flags :: "u8 \<Rightarrow> bool" where
  "bad_flags f \<longleftrightarrow>
     (let syn = (f AND SYN \<noteq> 0) in
      f AND (FIN OR SYN OR RST OR ACK OR PSH OR URG) = 0
      \<or> (f AND (FIN OR PSH OR URG) = (FIN OR PSH OR URG) \<and> \<not> syn \<and> f AND ACK = 0)
      \<or> (syn \<and> f AND FIN \<noteq> 0)
      \<or> (syn \<and> f AND RST \<noteq> 0))"

definition sanity :: "firewall \<Rightarrow> Dir \<Rightarrow> packet \<Rightarrow> Reason option" where
  "sanity fw dir p =
     (if p_fragment p \<and> pr_drop_fragments (fw_protections fw) then Some Fragment
      else if p_proto p = Tcp \<and> bad_flags (p_tcp_flags p) then Some BadFlags
      else if dir = In \<and> (fst (p_src p) = 127 \<or> p_src p \<in> set (fw_local_ips fw) \<or> fst (p_src p) = 0)
        then Some Spoofed
      else None)"

definition allowlisted :: "firewall \<Rightarrow> ip \<Rightarrow> bool" where
  "allowlisted fw a \<longleftrightarrow> list_ex (\<lambda>c. cidr_contains c a) (fw_allowlist fw)"

definition count :: "Dir \<Rightarrow> bool \<Rightarrow> firewall \<Rightarrow> firewall" where
  "count dir accepted fw =
     (let c = fw_counters fw in
      fw\<lparr>fw_counters :=
        (case (dir, accepted) of
           (In, True) \<Rightarrow> c\<lparr>ct_accepted_in := ct_accepted_in c + 1\<rparr>
         | (Out, True) \<Rightarrow> c\<lparr>ct_accepted_out := ct_accepted_out c + 1\<rparr>
         | (In, False) \<Rightarrow> c\<lparr>ct_dropped_in := ct_dropped_in c + 1\<rparr>
         | (Out, False) \<Rightarrow> c\<lparr>ct_dropped_out := ct_dropped_out c + 1\<rparr>)\<rparr>)"

definition flow_live :: "nat \<Rightarrow> flow_key \<Rightarrow> flow \<Rightarrow> bool" where
  "flow_live now_ms k f \<longleftrightarrow> now_ms - f_last_ms f \<le> flow_timeout (fk_proto k) f"

definition expire :: "nat \<Rightarrow> firewall \<Rightarrow> firewall" where
  "expire now_ms fw =
     fw\<lparr>fw_flows := bt_retain (flow_live now_ms) (fw_flows fw),
        fw_bans := bt_retain (\<lambda>_ b. now_ms < bn_until_ms b) (fw_bans fw),
        fw_syn_buckets := bt_retain (\<lambda>_ b. now_ms - bk_last_ms b < 60000) (fw_syn_buckets fw),
        fw_scans := bt_retain (\<lambda>_ t. now_ms - sc_window_start_ms t \<le> pr_scan_window_ms (fw_protections fw))
          (fw_scans fw)\<rparr>"

text \<open>\<^verbatim>\<open>iter().min_by_key(last_ms)\<close>: the first entry, in key order, with the smallest time.\<close>

fun stalest :: "(flow_key, flow) btree \<Rightarrow> flow_key option" where
  "stalest [] = None"
| "stalest ((k, f) # m) =
     (case stalest m of
        None \<Rightarrow> Some k
      | Some k' \<Rightarrow>
          (case bt_get m k' of
             Some f' \<Rightarrow> if f_last_ms f' < f_last_ms f then Some k' else Some k
           | None \<Rightarrow> Some k))"

definition track :: "flow_key \<Rightarrow> Dir \<Rightarrow> packet \<Rightarrow> nat \<Rightarrow> firewall \<Rightarrow> firewall" where
  "track key dir p now_ms fw =
     (let fw1 = (if fw_max_flows fw \<le> length (fw_flows fw) then expire now_ms fw else fw);
          fw2 = (if fw_max_flows fw \<le> length (fw_flows fw) \<and> fw_max_flows fw1 \<le> length (fw_flows fw1)
                 then (case stalest (fw_flows fw1) of
                         Some k \<Rightarrow> fw1\<lparr>fw_flows := bt_remove k (fw_flows fw1)\<rparr>
                       | None \<Rightarrow> fw1)
                 else fw1)
      in fw2\<lparr>fw_flows := bt_insert key
           \<lparr>f_created_ms = now_ms, f_last_ms = now_ms, f_packets = 1, f_bytes = p_len p, f_replied = False,
            f_opened_by = dir, f_closing = False\<rparr> (fw_flows fw2)\<rparr>)"

definition fw_ban :: "ip \<Rightarrow> nat \<Rightarrow> nat \<Rightarrow> string \<Rightarrow> firewall \<Rightarrow> (nat \<times> firewall) option" where
  "fw_ban a now_ms duration_ms reason fw =
     (if allowlisted fw a \<or> a \<in> set (fw_local_ips fw) then Some (0, fw)
      else do {
        let strikes = (case bt_get (fw_bans fw) a of None \<Rightarrow> 0 | Some b \<Rightarrow> bn_strikes b) + 1;
        let dur = saturating_mul64 duration_ms (2 ^ min (strikes - 1) 6);
        until \<leftarrow> chk64 (now_ms + dur);
        let c = fw_counters fw;
        Some (dur, fw\<lparr>
          fw_bans := bt_insert a \<lparr>bn_until_ms = until, bn_reason = reason, bn_strikes = strikes\<rparr> (fw_bans fw),
          fw_counters := c\<lparr>ct_bans_issued := ct_bans_issued c + 1\<rparr>,
          fw_flows := bt_retain (\<lambda>k _. fst (fk_remote k) \<noteq> a) (fw_flows fw)\<rparr>) })"

definition unban :: "ip \<Rightarrow> firewall \<Rightarrow> bool \<times> firewall" where
  "unban a fw = (bt_get (fw_bans fw) a \<noteq> None, fw\<lparr>fw_bans := bt_remove a (fw_bans fw)\<rparr>)"

definition active_bans :: "nat \<Rightarrow> firewall \<Rightarrow> (ip \<times> ban) list" where
  "active_bans now_ms fw = filter (\<lambda>(_, b). now_ms < bn_until_ms b) (fw_bans fw)"

definition is_banned :: "firewall \<Rightarrow> ip \<Rightarrow> nat \<Rightarrow> bool" where
  "is_banned fw a now_ms = (case bt_get (fw_bans fw) a of None \<Rightarrow> False | Some b \<Rightarrow> now_ms < bn_until_ms b)"

definition note_refused :: "packet \<Rightarrow> nat \<Rightarrow> firewall \<Rightarrow> firewall option" where
  "note_refused p now_ms fw =
     (let pr = fw_protections fw in
      if pr_scan_ports pr = 0 \<or> allowlisted fw (p_src p) \<or> (p_proto p \<noteq> Tcp \<and> p_proto p \<noteq> Udp) then Some fw
      else
        let t0 = (case bt_get (fw_scans fw) (p_src p) of
                    Some t \<Rightarrow> t | None \<Rightarrow> \<lparr>sc_window_start_ms = now_ms, sc_ports = []\<rparr>);
            t1 = (if pr_scan_window_ms pr < now_ms - sc_window_start_ms t0
                  then \<lparr>sc_window_start_ms = now_ms, sc_ports = []\<rparr> else t0);
            t2 = (if p_dport p \<in> set (sc_ports t1) then t1
                  else t1\<lparr>sc_ports := sc_ports t1 @ [p_dport p]\<rparr>)
        in if pr_scan_ports pr \<le> length (sc_ports t2)
           then
             let c = fw_counters fw;
                 fw1 = fw\<lparr>fw_scans := bt_remove (p_src p) (fw_scans fw),
                          fw_counters := c\<lparr>ct_scans_detected := ct_scans_detected c + 1\<rparr>\<rparr>
             in map_option snd (fw_ban (p_src p) now_ms (pr_scan_ban_ms pr) ''port scan'' fw1)
           else Some (fw\<lparr>fw_scans := bt_insert (p_src p) t2 (fw_scans fw)\<rparr>))"

text \<open>The rule loop: the first rule that matches and is within its limit decides.\<close>

fun eval_rules :: "Dir \<Rightarrow> packet \<Rightarrow> nat \<Rightarrow> nat \<Rightarrow> rule list \<Rightarrow> ((Action \<times> Reason) option \<times> rule list) option" where
  "eval_rules dir p now_ms i [] = Some (None, [])"
| "eval_rules dir p now_ms i (r # rs) =
     (let hit = (\<lambda>r. Some (Some (ru_action r, Reason_Rule i),
                  r\<lparr>ru_hits := ru_hits r + 1, ru_bytes := ru_bytes r + p_len p\<rparr> # rs));
          skip = (\<lambda>r. map_option (\<lambda>(d, rs'). (d, r # rs')) (eval_rules dir p now_ms (i + 1) rs))
      in if \<not> rule_matches r dir p then skip r
         else case ru_limit r of
                None \<Rightarrow> hit r
              | Some b \<Rightarrow> do {
                  (ok, b') \<leftarrow> bucket_take now_ms b;
                  if ok then hit (r\<lparr>ru_limit := Some b'\<rparr>) else skip (r\<lparr>ru_limit := Some b'\<rparr>) })"

definition new_tcp_in :: "Dir \<Rightarrow> packet \<Rightarrow> bool" where
  "new_tcp_in dir p \<longleftrightarrow> dir = In \<and> p_proto p = Tcp \<and> p_tcp_flags p AND SYN \<noteq> 0 \<and> p_tcp_flags p AND ACK = 0"

text \<open>The SYN limiter of \<open>decide\<close>: false when the source exceeds it.\<close>

definition syn_limit :: "Dir \<Rightarrow> packet \<Rightarrow> nat \<Rightarrow> firewall \<Rightarrow> (bool \<times> firewall) option" where
  "syn_limit dir p now_ms fw =
     (if new_tcp_in dir p \<and> 0 < pr_syn_rate (fw_protections fw) \<and> \<not> allowlisted fw (p_src p) then do {
        let b = (case bt_get (fw_syn_buckets fw) (p_src p) of
                   Some b \<Rightarrow> b
                 | None \<Rightarrow> bucket_new (pr_syn_rate (fw_protections fw)) (pr_syn_burst (fw_protections fw)));
        (ok, b') \<leftarrow> bucket_take now_ms b;
        let fw1 = fw\<lparr>fw_syn_buckets := bt_insert (p_src p) b' (fw_syn_buckets fw)\<rparr>;
        let c = fw_counters fw;
        if ok then Some (True, fw1)
        else Some (False, fw1\<lparr>fw_counters := c\<lparr>ct_syn_flood := ct_syn_flood c + 1\<rparr>\<rparr>) }
      else Some (True, fw))"

definition flow_update :: "Dir \<Rightarrow> packet \<Rightarrow> nat \<Rightarrow> flow \<Rightarrow> flow" where
  "flow_update dir p now_ms f =
     f\<lparr>f_last_ms := now_ms, f_packets := f_packets f + 1, f_bytes := f_bytes f + p_len p,
       f_replied := (dir \<noteq> f_opened_by f \<or> f_replied f),
       f_closing := ((p_proto p = Tcp \<and> p_tcp_flags p AND (FIN OR RST) \<noteq> 0) \<or> f_closing f)\<rparr>"

text \<open>From the rules on: a packet that is sane, not banned and of no live flow.\<close>

definition decide_new :: "Dir \<Rightarrow> packet \<Rightarrow> nat \<Rightarrow> firewall \<Rightarrow> (Verdict \<times> firewall) option" where
  "decide_new dir p now_ms fw =
     (if dir = In \<and> p_proto p = Tcp \<and> \<not> new_tcp_in dir p then Some (Verdict_Drop Policy, fw)
      else do {
        (decision, rules) \<leftarrow> eval_rules dir p now_ms 0 (fw_rules fw);
        let fw1 = fw\<lparr>fw_rules := rules\<rparr>;
        let (action, reason) = (case decision of
              Some d \<Rightarrow> d
            | None \<Rightarrow> (if dir = In then fw_policy_in fw else fw_policy_out fw, Policy));
        if action = Action_Drop then
          (if dir = In then map_option (\<lambda>fw2. (Verdict_Drop reason, fw2)) (note_refused p now_ms fw1)
           else Some (Verdict_Drop reason, fw1))
        else do {
          (ok, fw2) \<leftarrow> syn_limit dir p now_ms fw1;
          if \<not> ok then Some (Verdict_Drop SynFlood, fw2)
          else Some (Verdict_Accept, track (flow_key_of dir p) dir p now_ms fw2) } })"

definition remote_of :: "Dir \<Rightarrow> packet \<Rightarrow> ip" where
  "remote_of dir p = (if dir = In then p_src p else p_dst p)"

definition decide :: "Dir \<Rightarrow> packet \<Rightarrow> nat \<Rightarrow> firewall \<Rightarrow> (Verdict \<times> firewall) option" where
  "decide dir p now_ms fw =
     (if \<not> fw_enabled fw then Some (Verdict_Accept, fw)
      else case sanity fw dir p of
        Some r \<Rightarrow>
          let c = fw_counters fw in
          Some (Verdict_Drop r,
            if r = Spoofed then fw\<lparr>fw_counters := c\<lparr>ct_spoofed := ct_spoofed c + 1\<rparr>\<rparr> else fw)
      | None \<Rightarrow>
          let remote = remote_of dir p; c = fw_counters fw in
          if is_banned fw remote now_ms then
            Some (Verdict_Drop Banned, fw\<lparr>fw_counters := c\<lparr>ct_banned := ct_banned c + 1\<rparr>\<rparr>)
          else
            let fw1 = fw\<lparr>fw_bans := bt_remove remote (fw_bans fw)\<rparr>;
                key = flow_key_of dir p in
            (case bt_get (fw_flows fw1) key of
               Some f \<Rightarrow>
                 if flow_live now_ms key f then
                   Some (Verdict_Accept, fw1\<lparr>fw_flows := bt_insert key (flow_update dir p now_ms f) (fw_flows fw1)\<rparr>)
                 else decide_new dir p now_ms (fw1\<lparr>fw_flows := bt_remove key (fw_flows fw1)\<rparr>)
             | None \<Rightarrow> decide_new dir p now_ms fw1))"

definition check :: "Dir \<Rightarrow> packet \<Rightarrow> nat \<Rightarrow> firewall \<Rightarrow> (Verdict \<times> firewall) option" where
  "check dir p now_ms fw = do {
     (v, fw1) \<leftarrow> decide dir p now_ms fw;
     Some (v, case v of
       Verdict_Accept \<Rightarrow> count dir True fw1
     | Verdict_Drop r \<Rightarrow>
         let fw2 = count dir False fw1 in
         if fw_log_drops fw2 \<and> length (fw_log fw2) < 64 \<and> r \<noteq> Policy
         then fw2\<lparr>fw_log := fw_log fw2 @ [(dir, p, r)]\<rparr> else fw2) }"

definition check_frame :: "Dir \<Rightarrow> u8 list \<Rightarrow> nat \<Rightarrow> firewall \<Rightarrow> (Verdict \<times> firewall) option" where
  "check_frame dir frame now_ms fw = do {
     f \<leftarrow> parse_ethernet frame;
     (case f of
        Ipv4 p \<Rightarrow> check dir p now_ms fw
      | Frame_Malformed \<Rightarrow>
          let c = fw_counters fw in
          Some (Verdict_Drop Reason_Malformed,
            count dir False (fw\<lparr>fw_counters := c\<lparr>ct_malformed := ct_malformed c + 1\<rparr>\<rparr>))
      | Arp \<Rightarrow> Some (Verdict_Accept, fw)
      | Frame_Other \<Rightarrow> Some (Verdict_Accept, fw)) }"

definition add_rule :: "rule \<Rightarrow> firewall \<Rightarrow> nat \<times> firewall" where
  "add_rule r fw = (length (fw_rules fw), fw\<lparr>fw_rules := fw_rules fw @ [r]\<rparr>)"

definition remove_rule :: "nat \<Rightarrow> firewall \<Rightarrow> rule option \<times> firewall" where
  "remove_rule i fw =
     (if i < length (fw_rules fw)
      then (Some (fw_rules fw ! i), fw\<lparr>fw_rules := take i (fw_rules fw) @ drop (i + 1) (fw_rules fw)\<rparr>)
      else (None, fw))"

section \<open>Rule evaluation\<close>

text \<open>A rule lets a packet through to the next rule if it does not match or is over its limit.\<close>

definition rule_passes :: "Dir \<Rightarrow> packet \<Rightarrow> nat \<Rightarrow> rule \<Rightarrow> bool" where
  "rule_passes dir p now_ms r \<longleftrightarrow>
     \<not> rule_matches r dir p \<or> (\<exists>b b'. ru_limit r = Some b \<and> bucket_take now_ms b = Some (False, b'))"

lemma eval_rules_hit:
  "eval_rules dir p t i rs = Some (Some (a, w), rs') \<Longrightarrow>
    \<exists>j<length rs. w = Reason_Rule (i + j) \<and> a = ru_action (rs ! j) \<and> rule_matches (rs ! j) dir p \<and>
      (\<forall>l<j. rule_passes dir p t (rs ! l))"
proof (induction rs arbitrary: i rs')
  case (Cons r rs)
  have skip: ?case if e: "eval_rules dir p t (i + 1) rs = Some (Some (a, w), rs'')" and r: "rule_passes dir p t r" for rs''
  proof -
    obtain j where "j < length rs" "w = Reason_Rule (i + 1 + j)" "a = ru_action (rs ! j)"
      "rule_matches (rs ! j) dir p" "\<forall>l<j. rule_passes dir p t (rs ! l)"
      using Cons.IH [OF e] by auto
    then show ?thesis using r by (intro exI [of _ "Suc j"]) (auto simp: nth_Cons split: nat.splits)
  qed
  show ?case
  proof (cases "rule_matches r dir p")
    case False
    then have "rule_passes dir p t r" by (simp add: rule_passes_def)
    then show ?thesis using Cons.prems False skip by auto
  next
    case m: True
    show ?thesis
    proof (cases "ru_limit r")
      case None
      then show ?thesis using Cons.prems m by (auto intro!: exI [of _ 0])
    next
      case (Some b)
      then obtain ok b' where bt: "bucket_take t b = Some (ok, b')"
        using Cons.prems m by (cases "bucket_take t b") auto
      show ?thesis
      proof (cases ok)
        case True
        then show ?thesis using Cons.prems m Some bt by (auto intro!: exI [of _ 0])
      next
        case False
        then have "rule_passes dir p t r" using Some bt by (auto simp: rule_passes_def)
        then show ?thesis using Cons.prems m Some bt False skip by auto
      qed
    qed
  qed
qed simp

lemma eval_rules_none:
  "eval_rules dir p t i rs = Some (None, rs') \<Longrightarrow> r \<in> set rs \<Longrightarrow> rule_passes dir p t r"
proof (induction rs arbitrary: i rs')
  case (Cons x rs)
  show ?case
  proof (cases "rule_matches x dir p")
    case False
    then have "rule_passes dir p t x" by (simp add: rule_passes_def)
    then show ?thesis using Cons False by auto
  next
    case m: True
    then obtain b ok b' where b: "ru_limit x = Some b" "bucket_take t b = Some (ok, b')"
      using Cons.prems(1) by (cases "ru_limit x"; cases "bucket_take t (the (ru_limit x))") auto
    then have "\<not> ok" using Cons.prems(1) m by auto
    then have "rule_passes dir p t x" using b by (auto simp: rule_passes_def)
    then show ?thesis using Cons.IH [of "i + 1"] Cons.prems m b \<open>\<not> ok\<close> by auto
  qed
qed simp

section \<open>What decide does\<close>

text \<open>The three ways a packet is accepted by an enabled filter, and the state changes that go with them.\<close>

lemma decide_accept:
  assumes "decide dir p t fw = Some (Verdict_Accept, fw')" "fw_enabled fw"
  obtains (flow) f where "sanity fw dir p = None" "\<not> is_banned fw (remote_of dir p) t"
      "bt_get (fw_flows fw) (flow_key_of dir p) = Some f" "flow_live t (flow_key_of dir p) f"
      "fw' = fw\<lparr>fw_bans := bt_remove (remote_of dir p) (fw_bans fw),
        fw_flows := bt_insert (flow_key_of dir p) (flow_update dir p t f) (fw_flows fw)\<rparr>"
  | (new) fl where "sanity fw dir p = None" "\<not> is_banned fw (remote_of dir p) t"
      "decide_new dir p t (fw\<lparr>fw_bans := bt_remove (remote_of dir p) (fw_bans fw), fw_flows := fl\<rparr>) =
        Some (Verdict_Accept, fw')"
      "fl = fw_flows fw \<or> fl = bt_remove (flow_key_of dir p) (fw_flows fw)"
proof -
  let ?k = "flow_key_of dir p" and ?fw1 = "fw\<lparr>fw_bans := bt_remove (remote_of dir p) (fw_bans fw)\<rparr>"
  have s: "sanity fw dir p = None" "\<not> is_banned fw (remote_of dir p) t"
    using assms by (auto simp: decide_def Let_def split: option.splits if_splits)
  show ?thesis
  proof (cases "bt_get (fw_flows fw) ?k")
    case None
    then have "decide_new dir p t (?fw1\<lparr>fw_flows := fw_flows fw\<rparr>) = Some (Verdict_Accept, fw')"
      using assms s by (simp add: decide_def Let_def)
    then show ?thesis using new [OF s, of "fw_flows fw"] by simp
  next
    case (Some f)
    show ?thesis
    proof (cases "flow_live t ?k f")
      case True
      then show ?thesis using flow [OF s Some True] assms s Some by (simp add: decide_def Let_def)
    next
      case False
      then show ?thesis using new [OF s, of "bt_remove ?k (fw_flows fw)"] assms s Some
        by (simp add: decide_def Let_def)
    qed
  qed
qed

lemma decide_new_accept:
  assumes "decide_new dir p t fw = Some (Verdict_Accept, fw')"
  obtains decision rules fw2 where
    "dir = In \<and> p_proto p = Tcp \<longrightarrow> new_tcp_in dir p"
    "eval_rules dir p t 0 (fw_rules fw) = Some (decision, rules)"
    "case decision of Some (a, _) \<Rightarrow> a = Action_Accept
       | None \<Rightarrow> (if dir = In then fw_policy_in fw else fw_policy_out fw) = Action_Accept"
    "syn_limit dir p t (fw\<lparr>fw_rules := rules\<rparr>) = Some (True, fw2)"
    "fw' = track (flow_key_of dir p) dir p t fw2"
proof -
  have n: "dir = In \<and> p_proto p = Tcp \<longrightarrow> new_tcp_in dir p"
    using assms by (auto simp: decide_new_def split: if_splits)
  obtain decision rules where e: "eval_rules dir p t 0 (fw_rules fw) = Some (decision, rules)"
    using assms n by (cases "eval_rules dir p t 0 (fw_rules fw)") (auto simp: decide_new_def split: if_splits)
  define ar where "ar = (case decision of Some d \<Rightarrow> d
      | None \<Rightarrow> (if dir = In then fw_policy_in fw else fw_policy_out fw, Policy))"
  have a: "fst ar = Action_Accept"
    using assms n e by (cases ar; cases "fst ar") (auto simp: decide_new_def ar_def Let_def split: if_splits option.splits)
  obtain fw2 where "syn_limit dir p t (fw\<lparr>fw_rules := rules\<rparr>) = Some (True, fw2)"
    "fw' = track (flow_key_of dir p) dir p t fw2"
    using assms n e a
    by (cases ar; cases "syn_limit dir p t (fw\<lparr>fw_rules := rules\<rparr>)")
      (auto simp: decide_new_def ar_def Let_def split: if_splits option.splits)
  then show ?thesis using that [OF n e _] a by (auto simp: ar_def split: option.splits)
qed

section \<open>Flow tracking\<close>

lemma track_get:
  "bt_get (fw_flows (track k dir p t fw)) k = Some \<lparr>f_created_ms = t, f_last_ms = t, f_packets = 1,
     f_bytes = p_len p, f_replied = False, f_opened_by = dir, f_closing = False\<rparr>"
  by (simp add: track_def Let_def bt_get_insert)

lemma track_fields [simp]:
  "fw_enabled (track k dir p t fw) = fw_enabled fw" "fw_rules (track k dir p t fw) = fw_rules fw"
  "fw_max_flows (track k dir p t fw) = fw_max_flows fw" "fw_local_ips (track k dir p t fw) = fw_local_ips fw"
  "fw_protections (track k dir p t fw) = fw_protections fw" "fw_allowlist (track k dir p t fw) = fw_allowlist fw"
  by (auto simp: track_def expire_def Let_def split: option.splits)

lemma syn_limit_fields:
  assumes "syn_limit dir p t fw = Some (r, fw')"
  shows "fw_enabled fw' = fw_enabled fw" "fw_flows fw' = fw_flows fw" "fw_bans fw' = fw_bans fw"
    "fw_max_flows fw' = fw_max_flows fw" "fw_local_ips fw' = fw_local_ips fw" "fw_rules fw' = fw_rules fw"
    "fw_protections fw' = fw_protections fw" "fw_allowlist fw' = fw_allowlist fw" "fw_scans fw' = fw_scans fw"
    "bt_ok (fw_syn_buckets fw) \<Longrightarrow> bt_ok (fw_syn_buckets fw')"
  using assms by (auto simp: syn_limit_def Let_def bt_ok_insert split: if_splits bind_splits option.splits)

lemma accept_tracks:
  assumes "decide dir p t fw = Some (Verdict_Accept, fw')" "fw_enabled fw"
  shows "\<exists>f. bt_get (fw_flows fw') (flow_key_of dir p) = Some f \<and> f_last_ms f = t" "fw_enabled fw'"
proof -
  have "(\<exists>f. bt_get (fw_flows fw') (flow_key_of dir p) = Some f \<and> f_last_ms f = t) \<and> fw_enabled fw'"
    using assms
  proof (cases rule: decide_accept)
    case (flow f)
    then show ?thesis using assms(2) by (simp add: bt_get_insert flow_update_def)
  next
    case (new fl)
    from new(3) show ?thesis
    proof (cases rule: decide_new_accept)
      case (1 decision rules fw2)
      then show ?thesis using assms(2) syn_limit_fields(1) [OF 1(4)] by (simp add: track_get)
    qed
  qed
  then show "\<exists>f. bt_get (fw_flows fw') (flow_key_of dir p) = Some f \<and> f_last_ms f = t" "fw_enabled fw'" by auto
qed

lemma flow_timeout_ge: "TCP_CLOSE_TIMEOUT_MS \<le> flow_timeout proto f"
  by (simp add: flow_timeout_def)

section \<open>Bans\<close>

lemma is_banned_insert:
  "is_banned (fw\<lparr>fw_bans := bt_insert a b m\<rparr>) a' t =
     (if a' = a then t < bn_until_ms b else is_banned (fw\<lparr>fw_bans := m\<rparr>) a' t)"
  by (simp add: is_banned_def bt_get_insert)

lemma fw_ban_effect:
  assumes "fw_ban a now d why fw = Some (dur, fw')" "\<not> allowlisted fw a" "a \<notin> set (fw_local_ips fw)"
  shows "bt_get (fw_bans fw') a' = (if a' = a then
      Some \<lparr>bn_until_ms = now + dur, bn_reason = why,
        bn_strikes = (case bt_get (fw_bans fw) a of None \<Rightarrow> 0 | Some b \<Rightarrow> bn_strikes b) + 1\<rparr>
      else bt_get (fw_bans fw) a')"
    and "fw_flows fw' = bt_retain (\<lambda>k _. fst (fk_remote k) \<noteq> a) (fw_flows fw)"
    and "dur = saturating_mul64 d (2 ^ min (case bt_get (fw_bans fw) a of None \<Rightarrow> 0 | Some b \<Rightarrow> bn_strikes b) 6)"
    and "fw_enabled fw' = fw_enabled fw" and "now + dur < 2 ^ 64"
  using assms by (auto simp: fw_ban_def Let_def chk64_def bt_get_insert split: bind_splits if_splits)

lemma fw_ban_other:
  assumes "fw_ban a now d why fw = Some (dur, fw')" "a' \<noteq> a"
  shows "bt_get (fw_bans fw') a' = bt_get (fw_bans fw) a'"
  using assms by (auto simp: fw_ban_def Let_def bt_get_insert split: bind_splits if_splits)

lemma note_refused_other:
  assumes "note_refused p t fw = Some fw'" "a \<noteq> p_src p"
  shows "bt_get (fw_bans fw') a = bt_get (fw_bans fw) a"
  using assms fw_ban_other [of "p_src p" t _ _ _ _ fw' a]
  by (auto simp: note_refused_def Let_def split: if_splits) 

lemma expire_bans:
  assumes "bt_ok (fw_bans fw)"
  shows "bt_get (fw_bans (expire t fw)) a =
    (case bt_get (fw_bans fw) a of None \<Rightarrow> None | Some b \<Rightarrow> if t < bn_until_ms b then Some b else None)"
  using bt_get_retain [OF assms] by (simp add: expire_def)

lemma track_bans:
  assumes "bt_ok (fw_bans fw)" "is_banned fw a t'" "t \<le> t'"
  shows "is_banned (track k dir p t fw) a t'"
proof -
  have "fw_bans (track k dir p t fw) = fw_bans fw \<or> fw_bans (track k dir p t fw) = fw_bans (expire t fw)"
    by (auto simp: track_def Let_def expire_def split: option.splits)
  then show ?thesis
    using assms by (auto simp: is_banned_def expire_bans split: option.splits)
qed

section \<open>Invariant\<close>

definition fw_inv :: "firewall \<Rightarrow> bool" where [inv_defs]:
  "fw_inv fw \<longleftrightarrow> bt_ok (fw_flows fw) \<and> bt_ok (fw_bans fw) \<and> bt_ok (fw_syn_buckets fw) \<and> bt_ok (fw_scans fw) \<and>
     0 < fw_max_flows fw \<and> length (fw_flows fw) \<le> fw_max_flows fw"

lemma stalest_some:
  assumes "distinct (map fst m)" "m \<noteq> []"
  shows "\<exists>k f. stalest m = Some k \<and> bt_get m k = Some f \<and> (\<forall>(k', f')\<in>set m. f_last_ms f \<le> f_last_ms f')"
  using assms
proof (induction m rule: stalest.induct)
  case (2 k f m)
  show ?case
  proof (cases "m = []")
    case True
    then show ?thesis by (simp add: bt_get_def)
  next
    case False
    then obtain k' f' where k': "stalest m = Some k'" "bt_get m k' = Some f'"
      "\<forall>(k'', f'')\<in>set m. f_last_ms f' \<le> f_last_ms f''"
      using 2 by auto
    moreover have "k' \<noteq> k" using k'(2) "2.prems"(1) by (force simp: bt_get_def dest: map_of_SomeD)
    ultimately show ?thesis by (cases "f_last_ms f' < f_last_ms f") (auto simp: bt_get_def)
  qed
qed simp

lemma expire_inv: "fw_inv fw \<Longrightarrow> fw_inv (expire t fw)"
  using bt.cnt_keep [of "fw_flows fw" "flow_live t"]
  by (auto simp: fw_inv_def expire_def bt.ok_keep)

lemma track_inv:
  assumes "fw_inv fw"
  shows "fw_inv (track k dir p t fw)"
proof -
  define fw1 where "fw1 = (if fw_max_flows fw \<le> length (fw_flows fw) then expire t fw else fw)"
  define fw2 where "fw2 = (if fw_max_flows fw \<le> length (fw_flows fw) \<and> fw_max_flows fw1 \<le> length (fw_flows fw1)
      then (case stalest (fw_flows fw1) of Some k \<Rightarrow> fw1\<lparr>fw_flows := bt_remove k (fw_flows fw1)\<rparr> | None \<Rightarrow> fw1)
      else fw1)"
  have i1: "fw_inv fw1" using assms expire_inv by (simp add: fw1_def)
  have m1: "fw_max_flows fw1 = fw_max_flows fw" by (simp add: fw1_def expire_def)
  have "fw_inv fw2 \<and> length (fw_flows fw2) < fw_max_flows fw2"
  proof (cases "fw_max_flows fw1 \<le> length (fw_flows fw1)")
    case True
    then have c: "fw_max_flows fw \<le> length (fw_flows fw)" using m1 by (auto simp: fw1_def split: if_splits)
    have "fw_flows fw1 \<noteq> []" using True i1 by (auto simp: fw_inv_def)
    then obtain j f where j: "stalest (fw_flows fw1) = Some j" "bt_get (fw_flows fw1) j = Some f"
      using stalest_some i1 bt_ok_distinct by (metis fw_inv_def)
    then have "length (bt_remove j (fw_flows fw1)) = length (fw_flows fw1) - 1"
      using i1 by (simp add: fw_inv_def bt.cnt_del)
    then show ?thesis using j c True i1 by (auto simp: fw2_def fw_inv_def)
  next
    case False
    then show ?thesis using i1 by (auto simp: fw2_def fw_inv_def)
  qed
  moreover have "track k dir p t fw = fw2\<lparr>fw_flows := bt_insert k
      \<lparr>f_created_ms = t, f_last_ms = t, f_packets = 1, f_bytes = p_len p, f_replied = False,
       f_opened_by = dir, f_closing = False\<rparr> (fw_flows fw2)\<rparr>"
    unfolding track_def Let_def fw2_def fw1_def by (rule refl)
  ultimately show ?thesis using bt.cnt_ins [of "fw_flows fw2" k] by (auto simp: fw_inv_def bt.ok_ins)
qed

lemma fw_ban_inv:
  assumes "fw_ban a now d why fw = Some (dur, fw')" "fw_inv fw"
  shows "fw_inv fw'"
  using assms bt.cnt_keep [of "fw_flows fw" "\<lambda>k _. fst (fk_remote k) \<noteq> a"]
  by (auto simp: fw_ban_def fw_inv_def Let_def bt.ok_ins bt.ok_keep split: bind_splits if_splits)

lemma note_refused_inv:
  assumes "note_refused p t fw = Some fw'" "fw_inv fw"
  shows "fw_inv fw'"
proof -
  let ?fw1 = "fw\<lparr>fw_scans := bt_remove (p_src p) (fw_scans fw),
    fw_counters := (fw_counters fw)\<lparr>ct_scans_detected := ct_scans_detected (fw_counters fw) + 1\<rparr>\<rparr>"
  have "fw_inv ?fw1" using assms(2) by (simp add: fw_inv_def)
  then have "fw_inv fw''" if "fw_ban (p_src p) t d why ?fw1 = Some (r, fw'')" for d why r fw''
    using fw_ban_inv that by blast
  moreover have "fw_inv (fw\<lparr>fw_scans := bt_insert (p_src p) x (fw_scans fw)\<rparr>)" for x
    using assms(2) by (simp add: fw_inv_def)
  ultimately show ?thesis using assms by (auto simp: note_refused_def Let_def split: if_splits)
qed

text \<open>The outcomes of \<open>decide_new\<close>: the state comes from the scan detector, the SYN limiter or the flow table.\<close>

lemma decide_new_cases:
  assumes "decide_new dir p t fw = Some (v, fw')"
  obtains (same) "fw' = fw" | (rules) rules where "fw' = fw\<lparr>fw_rules := rules\<rparr>"
  | (refused) rules where "dir = In" "note_refused p t (fw\<lparr>fw_rules := rules\<rparr>) = Some fw'"
  | (flood) rules where "syn_limit dir p t (fw\<lparr>fw_rules := rules\<rparr>) = Some (False, fw')"
  | (track) rules fw2 where "syn_limit dir p t (fw\<lparr>fw_rules := rules\<rparr>) = Some (True, fw2)"
      "fw' = track (flow_key_of dir p) dir p t fw2"
  using assms by (auto simp: decide_new_def Let_def split: if_splits bind_splits option.splits prod.splits)

lemma decide_cases:
  assumes "decide dir p t fw = Some (v, fw')"
  obtains (counted) c where "fw' = fw\<lparr>fw_counters := c\<rparr>"
  | (flow) f where "\<not> is_banned fw (remote_of dir p) t"
      "fw' = fw\<lparr>fw_bans := bt_remove (remote_of dir p) (fw_bans fw),
        fw_flows := bt_insert (flow_key_of dir p) f (fw_flows fw)\<rparr>"
      "bt_get (fw_flows fw) (flow_key_of dir p) \<noteq> None"
  | (new) fl where "\<not> is_banned fw (remote_of dir p) t"
      "fl = fw_flows fw \<or> fl = bt_remove (flow_key_of dir p) (fw_flows fw)"
      "decide_new dir p t (fw\<lparr>fw_bans := bt_remove (remote_of dir p) (fw_bans fw), fw_flows := fl\<rparr>) = Some (v, fw')"
proof -
  have id: "fw' = fw \<Longrightarrow> thesis" using counted [of "fw_counters fw"] by simp
  show ?thesis
  proof (cases "fw_enabled fw \<and> sanity fw dir p = None \<and> \<not> is_banned fw (remote_of dir p) t")
    case False
    then show ?thesis using assms counted id
      by (auto simp: decide_def Let_def split: option.splits if_splits)
  next
    case True
    let ?k = "flow_key_of dir p"
    consider "bt_get (fw_flows fw) ?k = None"
      | f where "bt_get (fw_flows fw) ?k = Some f" "flow_live t ?k f"
      | f where "bt_get (fw_flows fw) ?k = Some f" "\<not> flow_live t ?k f" by (cases "bt_get (fw_flows fw) ?k") auto
    then show ?thesis
    proof cases
      case 1
      then show ?thesis using new [of "fw_flows fw"] assms True by (auto simp: decide_def Let_def)
    next
      case 2
      then show ?thesis using flow assms True by (auto simp: decide_def Let_def)
    next
      case 3
      then show ?thesis using new [of "bt_remove ?k (fw_flows fw)"] assms True by (auto simp: decide_def Let_def)
    qed
  qed
qed

lemma decide_new_inv:
  assumes "decide_new dir p t fw = Some (v, fw')" "fw_inv fw"
  shows "fw_inv fw'"
proof -
  have r: "fw_inv (fw\<lparr>fw_rules := rules\<rparr>)" for rules using assms(2) by (simp add: fw_inv_def)
  have s: "fw_inv fw2" if "syn_limit dir p t (fw\<lparr>fw_rules := rules\<rparr>) = Some (x, fw2)" for rules x fw2
    using r [of rules] syn_limit_fields [OF that] by (simp add: fw_inv_def)
  show ?thesis using assms(1)
    by (cases rule: decide_new_cases) (use assms(2) r s note_refused_inv track_inv in blast)+
qed

lemma decide_inv:
  assumes "decide dir p t fw = Some (v, fw')" "fw_inv fw"
  shows "fw_inv fw'"
  using assms(1)
proof (cases rule: decide_cases)
  case (counted c)
  then show ?thesis using assms(2) by (simp add: fw_inv_def)
next
  case (flow f)
  then show ?thesis using assms(2) by (auto simp: fw_inv_def bt.cnt_ins)
next
  case (new fl)
  have "fw_inv (fw\<lparr>fw_bans := bt_remove (remote_of dir p) (fw_bans fw), fw_flows := fl\<rparr>)"
    using new(2) assms(2) bt.cnt_del [of "fw_flows fw" "flow_key_of dir p"]
    by (auto simp: fw_inv_def bt.ok_del)
  then show ?thesis using decide_new_inv new(3) by blast
qed

lemma decide_keeps_ban:
  assumes "decide dir p t fw = Some (v, fw')" "fw_inv fw" "is_banned fw a t'" "t \<le> t'"
  shows "is_banned fw' a t'"
  using assms(1)
proof (cases rule: decide_cases)
  case (counted c)
  then show ?thesis using assms(3) by (simp add: is_banned_def)
next
  case (flow f)
  have "a \<noteq> remote_of dir p" using flow(1) assms(3,4) by (auto simp: is_banned_def split: option.splits)
  then show ?thesis using flow assms(3) by (simp add: is_banned_def bt_get_remove)
next
  case (new fl)
  let ?fw = "fw\<lparr>fw_bans := bt_remove (remote_of dir p) (fw_bans fw), fw_flows := fl\<rparr>"
  have ne: "a \<noteq> remote_of dir p" using new(1) assms(3,4) by (auto simp: is_banned_def split: option.splits)
  then have b: "is_banned ?fw a t'" using assms(3) by (simp add: is_banned_def bt_get_remove)
  have ok: "bt_ok (fw_bans ?fw)" using assms(2) by (simp add: fw_inv_def)
  from new(3) show ?thesis
  proof (cases rule: decide_new_cases)
    case (refused rules)
    then show ?thesis using note_refused_other [OF refused(2), of a] ne b by (simp add: is_banned_def remote_of_def)
  next
    case (flood rules)
    then show ?thesis using syn_limit_fields(3) [OF flood] b by (simp add: is_banned_def)
  next
    case (track rules fw2)
    then have "fw_bans fw2 = fw_bans ?fw" using syn_limit_fields(3) [OF track(1)] by simp
    then show ?thesis using track_bans [of fw2 a t' t] ok b assms(4) track(2) by (simp add: is_banned_def)
  qed (use b in \<open>simp_all add: is_banned_def\<close>)
qed

section \<open>Token buckets\<close>

text \<open>The packets a limiter lets pass over a sequence of arrival times.\<close>

fun bucket_run :: "bucket \<Rightarrow> nat list \<Rightarrow> (nat \<times> bucket) option" where
  "bucket_run b [] = Some (0, b)"
| "bucket_run b (t # ts) = do {
     (ok, b1) \<leftarrow> bucket_take t b;
     (n, b2) \<leftarrow> bucket_run b1 ts;
     Some (if ok then n + 1 else n, b2) }"

lemma bucket_take_tokens:
  assumes "bucket_take t b = Some (ok, b')" "bk_last_ms b \<le> t"
  shows "(if ok then 1000 else 0) + bk_tokens_milli b' \<le> bk_tokens_milli b + (t - bk_last_ms b) * bk_rate b"
    and "bk_last_ms b' = t" "bk_rate b' = bk_rate b" "bk_burst b' = bk_burst b"
    and "(if ok then 1000 else 0) + bk_tokens_milli b' \<le> bk_burst b * 1000"
  using assms by (auto simp: bucket_take_def chk64_def Let_def split: if_splits bind_splits)

lemma bucket_run_tokens:
  assumes "bucket_run b ts = Some (n, b')" "sorted (bk_last_ms b # ts)"
  shows "1000 * n + bk_tokens_milli b' \<le> bk_tokens_milli b + (bk_last_ms b' - bk_last_ms b) * bk_rate b"
    and "bk_last_ms b' = last (bk_last_ms b # ts)" "bk_last_ms b \<le> bk_last_ms b'" "bk_rate b' = bk_rate b"
proof -
  have "1000 * n + bk_tokens_milli b' \<le> bk_tokens_milli b + (bk_last_ms b' - bk_last_ms b) * bk_rate b \<and>
    bk_last_ms b' = last (bk_last_ms b # ts) \<and> bk_last_ms b \<le> bk_last_ms b' \<and> bk_rate b' = bk_rate b"
    using assms
  proof (induction ts arbitrary: b n)
    case (Cons t ts)
    then obtain ok b1 m where s: "bucket_take t b = Some (ok, b1)" "bucket_run b1 ts = Some (m, b')"
      "n = (if ok then m + 1 else m)" by (auto split: bind_splits)
    have le: "bk_last_ms b \<le> t" using Cons.prems(2) by simp
    note T = bucket_take_tokens [OF s(1) le]
    have IH: "1000 * m + bk_tokens_milli b' \<le> bk_tokens_milli b1 + (bk_last_ms b' - t) * bk_rate b"
      "bk_last_ms b' = last (t # ts)" "t \<le> bk_last_ms b'" "bk_rate b' = bk_rate b"
      using Cons.IH [OF s(2)] Cons.prems(2) T(2,3) by auto
    have "(bk_last_ms b' - t) * bk_rate b + (t - bk_last_ms b) * bk_rate b =
        (bk_last_ms b' - bk_last_ms b) * bk_rate b"
      using le IH(3) by (simp flip: add_mult_distrib)
    then show ?case using IH T(1) s(3) le by (auto split: if_splits)
  qed simp
  then show "1000 * n + bk_tokens_milli b' \<le> bk_tokens_milli b + (bk_last_ms b' - bk_last_ms b) * bk_rate b"
    "bk_last_ms b' = last (bk_last_ms b # ts)" "bk_last_ms b \<le> bk_last_ms b'" "bk_rate b' = bk_rate b"
    by auto
qed

section \<open>Runs\<close>

fun filter_run :: "(Dir \<times> packet \<times> nat) list \<Rightarrow> firewall \<Rightarrow> (Verdict list \<times> firewall) option" where
  "filter_run [] fw = Some ([], fw)"
| "filter_run ((dir, p, t) # evs) fw = do {
     (v, fw1) \<leftarrow> check dir p t fw;
     (vs, fw2) \<leftarrow> filter_run evs fw1;
     Some (v # vs, fw2) }"

lemma decide_enabled:
  assumes "decide dir p t fw = Some (v, fw')"
  shows "fw_enabled fw' = fw_enabled fw"
proof -
  have nr: "fw_enabled fw2 = fw_enabled fw1" if "note_refused p t fw1 = Some fw2" for fw1 fw2
    using that by (auto simp: note_refused_def fw_ban_def Let_def split: if_splits bind_splits)
  have "fw_enabled fw2 = fw_enabled fw1" if "decide_new dir p t fw1 = Some (v, fw2)" for fw1 fw2
    using that by (cases rule: decide_new_cases) (auto dest: nr syn_limit_fields(1))
  with assms show ?thesis by (cases rule: decide_cases) auto
qed

lemma check_decide:
  assumes "check dir p t fw = Some (v, fw')"
  obtains fw1 where "decide dir p t fw = Some (v, fw1)" "fw_bans fw' = fw_bans fw1"
    "fw_enabled fw' = fw_enabled fw" "fw_inv fw' \<longleftrightarrow> fw_inv fw1" "fw_flows fw' = fw_flows fw1"
proof -
  obtain fw1 where d: "decide dir p t fw = Some (v, fw1)" using assms by (auto simp: check_def split: bind_splits)
  with assms that [OF d] show ?thesis
    using decide_enabled [OF d]
    by (auto simp: check_def count_def Let_def fw_inv_def split: Verdict.splits if_splits)
qed

lemma filter_run_banned:
  assumes "filter_run evs fw = Some (vs, fw')" "fw_inv fw" "is_banned fw a T" "fw_enabled fw"
    "\<forall>(dir, p, t) \<in> set evs. t \<le> T"
  shows "list_all2 (\<lambda>(dir, p, t) v. remote_of dir p = a \<longrightarrow> (\<exists>r. v = Verdict_Drop r)) evs vs"
  using assms
proof (induction evs arbitrary: fw vs)
  case (Cons e evs)
  obtain dir p t where e: "e = (dir, p, t)" by (cases e)
  obtain v fw1 ws where c: "check dir p t fw = Some (v, fw1)" "filter_run evs fw1 = Some (ws, fw')" "vs = v # ws"
    using Cons.prems(1) e by (auto split: bind_splits)
  from c(1) obtain fw0 where d: "decide dir p t fw = Some (v, fw0)" "fw_bans fw1 = fw_bans fw0"
    "fw_enabled fw1 = fw_enabled fw" "fw_inv fw1 \<longleftrightarrow> fw_inv fw0" by (rule check_decide)
  have t: "t \<le> T" using Cons.prems(5) e by auto
  have "is_banned fw0 a T" using decide_keeps_ban [OF d(1) Cons.prems(2,3) t] .
  then have IH: "list_all2 (\<lambda>(dir, p, t) v. remote_of dir p = a \<longrightarrow> (\<exists>r. v = Verdict_Drop r)) evs ws"
    using Cons.IH [OF c(2)] decide_inv [OF d(1) Cons.prems(2)] d Cons.prems(4,5) e by (auto simp: is_banned_def)
  have "\<exists>r. v = Verdict_Drop r" if "remote_of dir p = a"
  proof -
    have "is_banned fw a t" using Cons.prems(3) t by (auto simp: is_banned_def split: option.splits)
    then show ?thesis using d(1) that Cons.prems(4) by (auto simp: decide_def Let_def split: option.splits)
  qed
  then show ?case using IH c(3) e by simp
qed simp

section \<open>Correctness properties\<close>

text \<open>C2 (default deny). An enabled filter accepts an inbound packet only if it is well formed and its
  source is not banned, and either it belongs to a live tracked flow, or it opens a connection (for
  TCP: a SYN without ACK) that the first rule that matches within its limit accepts, or that no rule
  decides and the inbound policy accepts.\<close>

theorem firewall_inbound_accept:
  assumes "decide In p t fw = Some (Verdict_Accept, fw')" and "fw_enabled fw"
  shows "sanity fw In p = None \<and> \<not> is_banned fw (p_src p) t \<and>
    ((\<exists>f. bt_get (fw_flows fw) (flow_key_of In p) = Some f \<and> flow_live t (flow_key_of In p) f) \<or>
     (p_proto p = Tcp \<longrightarrow> p_tcp_flags p AND SYN \<noteq> 0 \<and> p_tcp_flags p AND ACK = 0) \<and>
     ((\<exists>j<length (fw_rules fw). ru_action (fw_rules fw ! j) = Action_Accept \<and>
         rule_matches (fw_rules fw ! j) In p \<and> (\<forall>l<j. rule_passes In p t (fw_rules fw ! l))) \<or>
      fw_policy_in fw = Action_Accept \<and> (\<forall>r\<in>set (fw_rules fw). rule_passes In p t r)))"
  using assms
proof (cases rule: decide_accept)
  case (flow f)
  then show ?thesis by (auto simp: remote_of_def)
next
  case (new fl)
  from new(3) show ?thesis
  proof (cases rule: decide_new_accept)
    case (1 decision rules fw2)
    have tcp: "p_proto p = Tcp \<longrightarrow> p_tcp_flags p AND SYN \<noteq> 0 \<and> p_tcp_flags p AND ACK = 0"
      using 1(1) by (auto simp: new_tcp_in_def)
    show ?thesis
    proof (cases decision)
      case None
      then show ?thesis
        using 1(2,3) new(1,2) tcp eval_rules_none [of In p t 0 "fw_rules fw" rules] by (auto simp: remote_of_def)
    next
      case (Some d)
      then obtain w where "eval_rules In p t 0 (fw_rules fw) = Some (Some (Action_Accept, w), rules)"
        using 1(2,3) by (cases d) auto
      from eval_rules_hit [OF this] show ?thesis using new(1,2) tcp by (auto simp: remote_of_def)
    qed
  qed
qed

text \<open>Secure defaults: the initial configuration, with any addresses of its own, lets in nothing
  unsolicited but SSH connection attempts, ping requests and DHCP replies.\<close>

theorem firewall_secure_defaults:
  assumes "decide In p t (with_defaults\<lparr>fw_local_ips := ips\<rparr>) = Some (Verdict_Accept, fw')"
  shows "(p_proto p = Tcp \<and> p_dport p = 22 \<and> p_tcp_flags p AND SYN \<noteq> 0 \<and> p_tcp_flags p AND ACK = 0) \<or>
    (p_proto p = Icmp \<and> p_icmp_type p = 8) \<or> (p_proto p = Udp \<and> p_sport p = 67 \<and> p_dport p = 68)"
proof -
  let ?fw = "with_defaults\<lparr>fw_local_ips := ips\<rparr>"
  have "fw_enabled ?fw" by (simp add: with_defaults_def)
  with assms show ?thesis
  proof (cases rule: decide_accept)
    case (flow f)
    then show ?thesis by (simp add: with_defaults_def)
  next
    case (new fl)
    from new(3) show ?thesis
    proof (cases rule: decide_new_accept)
      case (1 decision rules fw2)
      have pol: "fw_policy_in ?fw = Action_Drop" by (simp add: with_defaults_def)
      have rs: "fw_rules ?fw = [ssh_rule, ping_rule, dhcp_rule]" by (simp add: with_defaults_def)
      obtain d where "decision = Some d" using 1(3) pol by (cases decision) auto
      then obtain w where e: "eval_rules In p t 0 (fw_rules ?fw) = Some (Some (Action_Accept, w), rules)"
        using 1(2,3) by (cases d) auto
      from eval_rules_hit [OF e] obtain j where j: "j < length (fw_rules ?fw)" "rule_matches (fw_rules ?fw ! j) In p"
        by blast
      then have "rule_matches ssh_rule In p \<or> rule_matches ping_rule In p \<or> rule_matches dhcp_rule In p"
        unfolding rs by (auto simp: less_Suc_eq)
      then show ?thesis
        using 1(1) by (auto simp: rule_matches_def ssh_rule_def ping_rule_def dhcp_rule_def rule_new_def
            is_none_or_def port_contains_def new_tcp_in_def intro: antisym)
    qed
  qed
qed

text \<open>C14 (bans). Once a source is banned, every packet from or to it is dropped until the ban ends,
  no matter which other packets the filter processes in between; its tracked flows are gone; and the
  ban lasts at least as long as requested.\<close>

theorem firewall_ban_effective:
  assumes "fw_ban a now d why fw = Some (dur, fw1)" and "\<not> allowlisted fw a" and "a \<notin> set (fw_local_ips fw)"
    and "fw_inv fw" and "fw_enabled fw" and "d < 2 ^ 64"
    and "filter_run evs fw1 = Some (vs, fw2)" and "\<forall>(dir, p, t) \<in> set evs. t < now + dur"
  shows "d \<le> dur \<and> (\<forall>k f. bt_get (fw_flows fw1) k = Some f \<longrightarrow> fst (fk_remote k) \<noteq> a) \<and>
    list_all2 (\<lambda>(dir, p, t) v. remote_of dir p = a \<longrightarrow> (\<exists>r. v = Verdict_Drop r)) evs vs"
proof (intro conjI allI impI)
  note B = fw_ban_effect [OF assms(1-3)]
  have "d \<le> d * 2 ^ k" for k by simp
  then show "d \<le> dur" using B(3) assms(6) by (auto simp: saturating_mul64_def)
  show "fst (fk_remote k) \<noteq> a" if "bt_get (fw_flows fw1) k = Some f" for k f
    using that assms(4) by (auto simp: B(2) bt_get_retain fw_inv_def split: option.splits if_splits)
  show "list_all2 (\<lambda>(dir, p, t) v. remote_of dir p = a \<longrightarrow> (\<exists>r. v = Verdict_Drop r)) evs vs"
  proof (cases evs)
    case Nil
    then show ?thesis using assms(7) by simp
  next
    case (Cons e es)
    then have "now + dur > 0" using assms(8) by (cases e) auto
    moreover from this have "is_banned fw1 a (now + dur - 1)" using B(1) [of a] by (simp add: is_banned_def)
    ultimately show ?thesis
      using filter_run_banned [OF assms(7) fw_ban_inv [OF assms(1,4)], of a "now + dur - 1"] B(4) assms(5,8)
      by fastforce
  qed
qed

text \<open>C20 (replies). When an outbound packet is accepted, a packet of the same protocol that comes back
  from its destination to its source ports within ten seconds is accepted, without any rule for it,
  provided it is well formed and its sender has not been banned.\<close>

theorem firewall_reply_accepted:
  assumes "decide Out p t fw = Some (Verdict_Accept, fw1)" and "fw_enabled fw"
    and "p_src q = p_dst p" "p_dst q = p_src p" "p_sport q = p_dport p" "p_dport q = p_sport p"
      "p_proto q = p_proto p"
    and "sanity fw1 In q = None" and "\<not> is_banned fw1 (p_src q) t'" and "t' \<le> t + 10000"
  shows "\<exists>fw2. decide In q t' fw1 = Some (Verdict_Accept, fw2)"
proof -
  note A = accept_tracks [OF assms(1,2)]
  have k: "flow_key_of In q = flow_key_of Out p" using assms(3-7) by (simp add: flow_key_of_def)
  obtain f where f: "bt_get (fw_flows fw1) (flow_key_of In q) = Some f" "f_last_ms f = t" using A(1) k by auto
  have "flow_live t' (flow_key_of In q) f"
    using flow_timeout_ge [of "fk_proto (flow_key_of In q)" f] assms(10) f(2)
    by (simp add: flow_live_def)
  then show ?thesis using A(2) assms(8,9) f by (simp add: decide_def Let_def remote_of_def)
qed

text \<open>C21 (rate limits). Over any sequence of arrival times in order, a token bucket lets at most
  \<open>burst + rate * seconds\<close> packets pass.\<close>

theorem bucket_rate_bound:
  assumes "bucket_run (bucket_new rate burst) (t # ts) = Some (n, b')" and "sorted (t # ts)"
  shows "1000 * n \<le> 1000 * burst + rate * (last (t # ts) - t)"
proof -
  let ?b = "bucket_new rate burst"
  obtain ok b1 m where s: "bucket_take t ?b = Some (ok, b1)" "bucket_run b1 ts = Some (m, b')"
    "n = (if ok then m + 1 else m)" using assms(1) by (auto split: bind_splits)
  have T: "bk_last_ms b1 = t" "bk_rate b1 = rate" "(if ok then 1000 else 0) + bk_tokens_milli b1 \<le> burst * 1000"
    using bucket_take_tokens [OF s(1)] by (auto simp: bucket_new_def)
  have "1000 * m \<le> bk_tokens_milli b1 + (last (t # ts) - t) * rate"
    using bucket_run_tokens [OF s(2)] assms(2) T by simp
  then show ?thesis using T(3) s(3) by (auto simp: mult.commute split: if_splits)
qed

theorem bucket_rate_bound_witness:
  "map_option fst (bucket_run (bucket_new 1 2) [5, 5, 5, 1005]) = Some 3 \<and>
   1000 * (3::nat) \<le> 1000 * 2 + 1 * (1005 - 5)"
proof -
  obtain b' where "bucket_run (bucket_new 1 2) [5, 5, 5, 1005] = Some (3, b')"
    by (simp add: bucket_take_def bucket_new_def chk64_def Let_def)
  with bucket_rate_bound [OF this] show ?thesis by simp
qed

text \<open>Bounded flow table: whatever packets arrive, the connection table never holds more than
  \<open>max_flows\<close> entries, and all tables of the filter stay ordered; when the table is full of live
  flows, the one that makes room is the one idle longest.\<close>

theorem firewall_tables_bounded:
  assumes "fw_inv fw" and "check_frame dir frame t fw = Some (v, fw')"
  shows "fw_inv fw' \<and>
    (\<forall>m. bt_ok m \<longrightarrow> m \<noteq> [] \<longrightarrow> (\<exists>k f. stalest m = Some k \<and> bt_get m k = Some f \<and>
       (\<forall>k' f'. bt_get m k' = Some f' \<longrightarrow> f_last_ms f \<le> f_last_ms f')))"
proof (intro conjI allI impI)
  have cnt: "fw_inv (count dir' x fw'') \<longleftrightarrow> fw_inv fw''" for dir' x fw'' by (simp add: fw_inv_def count_def Let_def)
  have log: "fw_inv (fw''\<lparr>fw_log := l\<rparr>) \<longleftrightarrow> fw_inv fw''" for fw'' l by (simp add: fw_inv_def)
  have ctr: "fw_inv (fw''\<lparr>fw_counters := c\<rparr>) \<longleftrightarrow> fw_inv fw''" for fw'' c by (simp add: fw_inv_def)
  show "fw_inv fw'"
    using assms decide_inv
    by (auto simp: check_frame_def check_def Let_def cnt log ctr split: bind_splits Frame.splits Verdict.splits)
next
  fix m :: "(flow_key, flow) btree" assume "bt_ok m" "m \<noteq> []"
  then show "\<exists>k f. stalest m = Some k \<and> bt_get m k = Some f \<and>
      (\<forall>k' f'. bt_get m k' = Some f' \<longrightarrow> f_last_ms f \<le> f_last_ms f')"
    using stalest_some [OF bt_ok_distinct] by (fastforce simp: bt_get_def dest: map_of_SomeD)
qed

text \<open>Packets used to exercise the properties.\<close>

definition tcp_packet :: "ip \<Rightarrow> ip \<Rightarrow> u16 \<Rightarrow> u16 \<Rightarrow> u8 \<Rightarrow> packet" where
  "tcp_packet src dst sport dport flags =
     \<lparr>p_src = src, p_dst = dst, p_proto = Tcp, p_sport = sport, p_dport = dport, p_tcp_flags = flags,
      p_icmp_type = 0, p_len = 60, p_fragment = False\<rparr>"

lemmas run_simps = decide_def decide_new_def sanity_def bad_flags_def is_banned_def remote_of_def
  rule_matches_def is_none_or_def port_contains_def new_tcp_in_def syn_limit_def bucket_take_def
  bucket_new_def chk64_def allowlisted_def with_defaults_def tcp_packet_def ssh_rule_def rule_new_def
  protections_default_def bt_get_def SYN_def ACK_def FIN_def RST_def PSH_def URG_def

lemma ssh_syn_accepted:
  "\<exists>fw'. decide In (tcp_packet (9, 9, 9, 9) (10, 0, 2, 15) 4000 22 SYN) 5 (with_defaults\<lparr>fw_local_ips := [(10, 0, 2, 15)]\<rparr>)
   = Some (Verdict_Accept, fw')"
  by (simp add: run_simps Let_def)

text \<open>Refusals of a source that is swept one after the other.\<close>

fun refuse_run :: "(packet \<times> nat) list \<Rightarrow> firewall \<Rightarrow> firewall option" where
  "refuse_run [] fw = Some fw"
| "refuse_run ((p, t) # evs) fw = note_refused p t fw \<bind> refuse_run evs"

definition tracker_of :: "firewall \<Rightarrow> ip \<Rightarrow> nat \<Rightarrow> scan_tracker" where
  "tracker_of fw a t = (case bt_get (fw_scans fw) a of Some tr \<Rightarrow> tr | None \<Rightarrow> \<lparr>sc_window_start_ms = t, sc_ports = []\<rparr>)"

lemma note_refused_step:
  assumes "0 < pr_scan_ports (fw_protections fw)" "\<not> allowlisted fw (p_src p)" "p_proto p = Tcp \<or> p_proto p = Udp"
    and "tracker_of fw (p_src p) t = \<lparr>sc_window_start_ms = t0, sc_ports = P\<rparr>"
    and "t - t0 \<le> pr_scan_window_ms (fw_protections fw)" "p_dport p \<notin> set P"
  shows "length P + 1 < pr_scan_ports (fw_protections fw) \<Longrightarrow> note_refused p t fw =
      Some (fw\<lparr>fw_scans := bt_insert (p_src p) \<lparr>sc_window_start_ms = t0, sc_ports = P @ [p_dport p]\<rparr> (fw_scans fw)\<rparr>)"
    and "pr_scan_ports (fw_protections fw) \<le> length P + 1 \<Longrightarrow> note_refused p t fw =
      map_option snd (fw_ban (p_src p) t (pr_scan_ban_ms (fw_protections fw)) ''port scan''
        (fw\<lparr>fw_scans := bt_remove (p_src p) (fw_scans fw), fw_counters := (fw_counters fw)
           \<lparr>ct_scans_detected := ct_scans_detected (fw_counters fw) + 1\<rparr>\<rparr>))"
  using assms unfolding note_refused_def tracker_of_def by (auto simp: Let_def)

lemma refuse_run_bans:
  assumes "refuse_run evs fw = Some fw'" "evs \<noteq> []" "0 < pr_scan_ports (fw_protections fw)"
    and "\<not> allowlisted fw a" "a \<notin> set (fw_local_ips fw)" "pr_scan_ban_ms (fw_protections fw) < 2 ^ 64"
    and "\<forall>(p, t) \<in> set evs. p_src p = a \<and> (p_proto p = Tcp \<or> p_proto p = Udp) \<and>
      t \<le> t0 + pr_scan_window_ms (fw_protections fw)"
    and "tracker_of fw a (snd (hd evs)) = \<lparr>sc_window_start_ms = t0, sc_ports = P\<rparr>"
    and "distinct (P @ map (p_dport \<circ> fst) evs)" "length P + length evs = pr_scan_ports (fw_protections fw)"
    and "s < snd (last evs) + pr_scan_ban_ms (fw_protections fw)"
  shows "is_banned fw' a s"
  using assms
proof (induction evs arbitrary: fw P)
  case (Cons e evs)
  obtain p t where e: "e = (p, t)" by (cases e)
  have src: "p_src p = a" and pp: "p_proto p = Tcp \<or> p_proto p = Udp"
    and t: "t - t0 \<le> pr_scan_window_ms (fw_protections fw)"
    using Cons.prems(7) e by auto
  have np: "p_dport p \<notin> set P" using Cons.prems(9) e by simp
  have tr: "tracker_of fw (p_src p) t = \<lparr>sc_window_start_ms = t0, sc_ports = P\<rparr>"
    using Cons.prems(8) e src by simp
  have na: "\<not> allowlisted fw (p_src p)" using Cons.prems(4) src by simp
  note S = note_refused_step [OF Cons.prems(3) na pp tr t np, unfolded src]
  show ?case
  proof (cases "evs = []")
    case True
    define fw1 where "fw1 = fw\<lparr>fw_scans := bt_remove a (fw_scans fw), fw_counters := (fw_counters fw)
        \<lparr>ct_scans_detected := ct_scans_detected (fw_counters fw) + 1\<rparr>\<rparr>"
    obtain dur where b: "fw_ban a t (pr_scan_ban_ms (fw_protections fw)) ''port scan'' fw1 = Some (dur, fw')"
      using Cons.prems(1,10) S(2) [folded fw1_def] True e
      by (cases "fw_ban a t (pr_scan_ban_ms (fw_protections fw)) ''port scan'' fw1") auto
    have "\<not> allowlisted fw1 a" "a \<notin> set (fw_local_ips fw1)"
      using Cons.prems(4,5) by (auto simp: fw1_def allowlisted_def)
    note B = fw_ban_effect [OF b this]
    have "x \<le> x * 2 ^ k" for x k :: nat by simp
    then have "pr_scan_ban_ms (fw_protections fw) \<le> dur" using B(3) Cons.prems(6) by (auto simp: saturating_mul64_def)
    then show ?thesis using B(1) [of a] Cons.prems(11) True e by (simp add: is_banned_def)
  next
    case False
    let ?fw1 = "fw\<lparr>fw_scans := bt_insert a \<lparr>sc_window_start_ms = t0, sc_ports = P @ [p_dport p]\<rparr> (fw_scans fw)\<rparr>"
    have "length P + 1 < pr_scan_ports (fw_protections fw)" using False Cons.prems(10) by (cases evs) auto
    then have "refuse_run evs ?fw1 = Some fw'" using Cons.prems(1) S(1) e by simp
    then show ?thesis
      using Cons.IH [of ?fw1 "P @ [p_dport p]"] False Cons.prems e
      by (auto simp: tracker_of_def bt_get_insert allowlisted_def)
  qed
qed simp

text \<open>C22 (port scans). A source that is refused on as many distinct ports as the scan limit within one
  window, starting from a clean record, ends up banned for at least the configured time.\<close>

theorem firewall_scan_banned:
  assumes "refuse_run evs fw = Some fw'" and "length evs = pr_scan_ports (fw_protections fw)" "evs \<noteq> []"
    and "bt_get (fw_scans fw) a = None" and "\<not> allowlisted fw a" and "a \<notin> set (fw_local_ips fw)"
    and "pr_scan_ban_ms (fw_protections fw) < 2 ^ 64"
    and "\<forall>(p, t) \<in> set evs. p_src p = a \<and> (p_proto p = Tcp \<or> p_proto p = Udp) \<and>
      t \<le> snd (hd evs) + pr_scan_window_ms (fw_protections fw)"
    and "distinct (map (p_dport \<circ> fst) evs)"
    and "t < snd (last evs) + pr_scan_ban_ms (fw_protections fw)"
  shows "is_banned fw' a t"
proof (rule refuse_run_bans [OF assms(1,3) _ assms(5,6,7,8) _ _ _ assms(10)])
  show "0 < pr_scan_ports (fw_protections fw)" using assms(2,3) by (cases evs) auto
  show "tracker_of fw a (snd (hd evs)) = \<lparr>sc_window_start_ms = snd (hd evs), sc_ports = []\<rparr>"
    using assms(4) by (simp add: tracker_of_def)
qed (use assms(2,9) in auto)

theorem firewall_scan_banned_witness:
  "\<exists>fw'. refuse_run [(tcp_packet (9, 9, 9, 9) (10, 0, 2, 15) 4000 23 SYN, 5), (tcp_packet (9, 9, 9, 9) (10, 0, 2, 15) 4000 24 SYN, 6)]
      (with_defaults\<lparr>fw_protections := protections_default\<lparr>pr_scan_ports := 2\<rparr>\<rparr>) = Some fw' \<and>
    is_banned fw' (9, 9, 9, 9) 3600000"
proof -
  let ?evs = "[(tcp_packet (9, 9, 9, 9) (10, 0, 2, 15) 4000 23 SYN, 5), (tcp_packet (9, 9, 9, 9) (10, 0, 2, 15) 4000 24 SYN, 6)]"
  let ?fw = "with_defaults\<lparr>fw_protections := protections_default\<lparr>pr_scan_ports := 2\<rparr>\<rparr>"
  obtain fw' where r: "refuse_run ?evs ?fw = Some fw'"
    by (simp add: note_refused_def fw_ban_def saturating_mul64_def run_simps Let_def)
  have "is_banned fw' (9, 9, 9, 9) 3600000"
    by (rule firewall_scan_banned [OF r]) (simp_all add: run_simps)
  then show ?thesis using r by blast
qed

theorem firewall_inbound_accept_witness:
  "\<exists>fw'. decide In (tcp_packet (9, 9, 9, 9) (10, 0, 2, 15) 4000 22 SYN) 5 (with_defaults\<lparr>fw_local_ips := [(10, 0, 2, 15)]\<rparr>)
     = Some (Verdict_Accept, fw') \<and>
   sanity (with_defaults\<lparr>fw_local_ips := [(10, 0, 2, 15)]\<rparr>) In (tcp_packet (9, 9, 9, 9) (10, 0, 2, 15) 4000 22 SYN) = None"
proof -
  obtain fw' where d: "decide In (tcp_packet (9, 9, 9, 9) (10, 0, 2, 15) 4000 22 SYN) 5
      (with_defaults\<lparr>fw_local_ips := [(10, 0, 2, 15)]\<rparr>) = Some (Verdict_Accept, fw')"
    using ssh_syn_accepted by auto
  from firewall_inbound_accept [OF d] d show ?thesis by (simp add: with_defaults_def)
qed

theorem firewall_secure_defaults_witness:
  "\<exists>fw'. decide In (tcp_packet (9, 9, 9, 9) (10, 0, 2, 15) 4000 22 SYN) 5 (with_defaults\<lparr>fw_local_ips := [(10, 0, 2, 15)]\<rparr>)
     = Some (Verdict_Accept, fw') \<and> SYN AND ACK = 0"
proof -
  obtain fw' where d: "decide In (tcp_packet (9, 9, 9, 9) (10, 0, 2, 15) 4000 22 SYN) 5
      (with_defaults\<lparr>fw_local_ips := [(10, 0, 2, 15)]\<rparr>) = Some (Verdict_Accept, fw')"
    using ssh_syn_accepted by auto
  from firewall_secure_defaults [OF d] d show ?thesis by (simp add: tcp_packet_def)
qed

lemma with_defaults_inv: "fw_inv with_defaults"
  by (simp add: with_defaults_def fw_inv_def)

theorem firewall_ban_effective_witness:
  "\<exists>fw1 v fw2. fw_ban (9, 9, 9, 9) 100 5000 ''manual'' with_defaults = Some (5000, fw1) \<and>
     filter_run [(In, tcp_packet (9, 9, 9, 9) (10, 0, 2, 15) 4000 22 SYN, 200)] fw1 = Some ([v], fw2) \<and>
     (\<exists>r. v = Verdict_Drop r)"
proof -
  obtain fw1 where b: "fw_ban (9, 9, 9, 9) 100 5000 ''manual'' with_defaults = Some (5000, fw1)"
    by (simp add: fw_ban_def saturating_mul64_def run_simps Let_def)
  obtain v fw2 where f: "filter_run [(In, tcp_packet (9, 9, 9, 9) (10, 0, 2, 15) 4000 22 SYN, 200)] fw1 = Some ([v], fw2)"
    using b by (auto simp: fw_ban_def saturating_mul64_def check_def run_simps Let_def)
  have "\<exists>r. v = Verdict_Drop r"
    using firewall_ban_effective [OF b _ _ with_defaults_inv _ _ f]
    by (simp add: run_simps)
  then show ?thesis using b f by blast
qed

theorem firewall_reply_accepted_witness:
  "\<exists>fw1 fw2. decide Out (tcp_packet (10, 0, 2, 15) (9, 9, 9, 9) 5000 443 SYN) 5 with_defaults = Some (Verdict_Accept, fw1) \<and>
     decide In (tcp_packet (9, 9, 9, 9) (10, 0, 2, 15) 443 5000 (SYN OR ACK)) 900 fw1 = Some (Verdict_Accept, fw2)"
proof -
  let ?p = "tcp_packet (10, 0, 2, 15) (9, 9, 9, 9) 5000 443 SYN"
  let ?q = "tcp_packet (9, 9, 9, 9) (10, 0, 2, 15) 443 5000 (SYN OR ACK)"
  obtain fw1 where d: "decide Out ?p 5 with_defaults = Some (Verdict_Accept, fw1)"
    "fw_protections fw1 = protections_default" "fw_local_ips fw1 = []" "fw_bans fw1 = []"
    by (simp add: run_simps ping_rule_def dhcp_rule_def track_def bt_remove_def Let_def)
  have "\<exists>fw2. decide In ?q 900 fw1 = Some (Verdict_Accept, fw2)"
    by (rule firewall_reply_accepted [OF d(1)]) (use d in \<open>simp_all add: run_simps\<close>)
  then show ?thesis using d(1) by blast
qed

theorem firewall_tables_bounded_witness:
  "fw_inv with_defaults \<and> (\<exists>fw'. check_frame In [] 7 with_defaults = Some (Verdict_Drop Reason_Malformed, fw') \<and> fw_inv fw')"
proof -
  obtain fw' where c: "check_frame In [] 7 with_defaults = Some (Verdict_Drop Reason_Malformed, fw')"
    by (simp add: check_frame_def parse_ethernet_def Let_def)
  from firewall_tables_bounded [OF with_defaults_inv c] c show ?thesis using with_defaults_inv by blast
qed

text \<open>
  The end of a ban is computed with checked addition after a saturating multiplication, so the longest
  durations trap instead of saturating.
\<close>

lemma fw_ban_longest_traps: "0 < now \<Longrightarrow> fw_ban (9, 9, 9, 9) now (2 ^ 64 - 1) why with_defaults = None"
  by (simp add: fw_ban_def saturating_mul64_def chk64_def allowlisted_def with_defaults_def)

end
