(* ===== verification/Kernel_Firewall.thy ===== *)
theory Kernel_Firewall
  imports Netfilter
begin

text \<open>
  The system firewall of \<^verbatim>\<open>kernel/src/firewall.rs\<close>: the two locked globals \<^verbatim>\<open>FW\<close> and \<^verbatim>\<open>AUTH_FAILS\<close>
  as one record, the filter hook of the network path, and the brute-force protection that turns
  repeated authentication failures into a ban. \<^const>\<open>None\<close> is the trap of an arithmetic overflow.
\<close>

section \<open>State and operations\<close>

record kfirewall =
  kf_fw :: "firewall option"
  kf_auth :: "(ip, nat \<times> nat) btree"

abbreviation AUTH_FAIL_LIMIT :: nat where "AUTH_FAIL_LIMIT \<equiv> 5"
abbreviation AUTH_FAIL_WINDOW_MS :: nat where "AUTH_FAIL_WINDOW_MS \<equiv> 600000"
abbreviation AUTH_BAN_MS :: nat where "AUTH_BAN_MS \<equiv> 600000"

definition kf_init :: "kfirewall \<Rightarrow> kfirewall" where
  "kf_init k = k\<lparr>kf_fw := Some with_defaults\<rparr>"

text \<open>One round of the \<^verbatim>\<open>kfirewalld\<close> thread: expire, then hand the pending log to the caller.\<close>

definition kf_tick :: "nat \<Rightarrow> kfirewall \<Rightarrow> (Dir \<times> packet \<times> Reason) list \<times> kfirewall" where
  "kf_tick now k =
     (case kf_fw k of
        None \<Rightarrow> ([], k)
      | Some fw \<Rightarrow>
          let fw1 = expire now fw in (fw_log fw1, k\<lparr>kf_fw := Some (fw1\<lparr>fw_log := []\<rparr>)\<rparr>))"

definition kf_check :: "Dir \<Rightarrow> u8 list \<Rightarrow> nat \<Rightarrow> kfirewall \<Rightarrow> (bool \<times> kfirewall) option" where
  "kf_check dir frame now k =
     (case kf_fw k of
        None \<Rightarrow> Some (True, k)
      | Some fw \<Rightarrow> do {
          (v, fw1) \<leftarrow> check_frame dir frame now fw;
          Some (v = Verdict_Accept, k\<lparr>kf_fw := Some fw1\<rparr>) })"

definition set_local_ips :: "ip list \<Rightarrow> kfirewall \<Rightarrow> kfirewall" where
  "set_local_ips ips k = k\<lparr>kf_fw := map_option (\<lambda>fw. fw\<lparr>fw_local_ips := ips\<rparr>) (kf_fw k)\<rparr>"

definition kf_ban :: "ip \<Rightarrow> nat \<Rightarrow> nat \<Rightarrow> string \<Rightarrow> kfirewall \<Rightarrow> (nat \<times> kfirewall) option" where
  "kf_ban a ms now why k =
     (case kf_fw k of
        None \<Rightarrow> Some (0, k)
      | Some fw \<Rightarrow> do {
          (d, fw1) \<leftarrow> fw_ban a now ms why fw;
          Some (d, k\<lparr>kf_fw := Some fw1\<rparr>) })"

definition kf_is_banned :: "ip \<Rightarrow> nat \<Rightarrow> kfirewall \<Rightarrow> bool" where
  "kf_is_banned a now k = (case kf_fw k of None \<Rightarrow> False | Some fw \<Rightarrow> is_banned fw a now)"

definition auth_failure :: "ip \<Rightarrow> nat \<Rightarrow> kfirewall \<Rightarrow> kfirewall option" where
  "auth_failure a now k =
     (let e0 = (case bt_get (kf_auth k) a of Some e \<Rightarrow> e | None \<Rightarrow> (now, 0)) in
      if now < fst e0 then None
      else
        let e1 = (if AUTH_FAIL_WINDOW_MS < now - fst e0 then (now, 0) else e0);
            e2 = (fst e1, snd e1 + 1);
            hit = (AUTH_FAIL_LIMIT \<le> snd e2);
            k1 = k\<lparr>kf_auth := (if hit then bt_remove a (kf_auth k) else bt_insert a e2 (kf_auth k))\<rparr>
        in if hit then map_option snd (kf_ban a AUTH_BAN_MS now ''repeated authentication failures'' k1)
           else Some k1)"

definition auth_success :: "ip \<Rightarrow> kfirewall \<Rightarrow> kfirewall" where
  "auth_success a k = k\<lparr>kf_auth := bt_remove a (kf_auth k)\<rparr>"

definition port_rule_for :: "Proto \<Rightarrow> u16 \<Rightarrow> rule \<Rightarrow> bool" where
  "port_rule_for proto port r \<longleftrightarrow> ru_proto r = Some proto \<and> ru_dport r = Some \<lparr>r_lo = port, r_hi = port\<rparr>"

definition open_port :: "Proto \<Rightarrow> u16 \<Rightarrow> string \<Rightarrow> kfirewall \<Rightarrow> kfirewall" where
  "open_port proto port comment k =
     k\<lparr>kf_fw := map_option (\<lambda>fw.
       if list_ex (\<lambda>r. ru_system r \<and> port_rule_for proto port r) (fw_rules fw) then fw
       else snd (add_rule ((rule_new In Action_Accept)\<lparr>ru_proto := Some proto,
              ru_dport := Some \<lparr>r_lo = port, r_hi = port\<rparr>, ru_comment := comment, ru_system := True\<rparr>) fw)) (kf_fw k)\<rparr>"

definition close_port :: "Proto \<Rightarrow> u16 \<Rightarrow> kfirewall \<Rightarrow> kfirewall" where
  "close_port proto port k =
     k\<lparr>kf_fw := map_option (\<lambda>fw. fw\<lparr>fw_rules := filter (\<lambda>r. \<not> (ru_system r \<and> port_rule_for proto port r \<and>
       take 9 (ru_comment r) = ''container'')) (fw_rules fw)\<rparr>) (kf_fw k)\<rparr>"

text \<open>\<^verbatim>\<open>fw deny\<close> of the shell.\<close>

definition fw_deny :: "Proto \<Rightarrow> u16 \<Rightarrow> kfirewall \<Rightarrow> kfirewall" where
  "fw_deny proto port k =
     k\<lparr>kf_fw := map_option (\<lambda>fw. fw\<lparr>fw_rules := filter (\<lambda>r. \<not> (port_rule_for proto port r \<and>
       ru_action r = Action_Accept)) (fw_rules fw)\<rparr>) (kf_fw k)\<rparr>"

section \<open>Brute-force protection\<close>

fun auth_failures :: "ip \<Rightarrow> nat list \<Rightarrow> kfirewall \<Rightarrow> kfirewall option" where
  "auth_failures a [] k = Some k"
| "auth_failures a (t # ts) k = auth_failure a t k \<bind> auth_failures a ts"

lemma auth_failure_below:
  assumes "(case bt_get (kf_auth k) a of Some e \<Rightarrow> e | None \<Rightarrow> (t, 0)) = (t0, n)" "t0 \<le> t"
    "t - t0 \<le> AUTH_FAIL_WINDOW_MS" "Suc n < AUTH_FAIL_LIMIT"
  shows "auth_failure a t k = Some (k\<lparr>kf_auth := bt_insert a (t0, Suc n) (kf_auth k)\<rparr>)"
  using assms by (simp add: auth_failure_def Let_def)

lemma auth_failure_at_limit:
  assumes "bt_get (kf_auth k) a = Some (t0, n)" "t0 \<le> t" "t - t0 \<le> AUTH_FAIL_WINDOW_MS" "Suc n = AUTH_FAIL_LIMIT"
  shows "auth_failure a t k = map_option snd (kf_ban a AUTH_BAN_MS t ''repeated authentication failures''
    (k\<lparr>kf_auth := bt_remove a (kf_auth k)\<rparr>))"
  using assms by (simp add: auth_failure_def Let_def)

lemma auth_failures_count:
  assumes "bt_get (kf_auth k) a = Some (t0, n)" "\<forall>t\<in>set ts. t0 \<le> t \<and> t - t0 \<le> AUTH_FAIL_WINDOW_MS"
    "n + length ts < AUTH_FAIL_LIMIT"
  shows "\<exists>m. auth_failures a ts k = Some (k\<lparr>kf_auth := m\<rparr>) \<and> bt_get m a = Some (t0, n + length ts)"
  using assms
proof (induction ts arbitrary: k n)
  case Nil
  then show ?case by (auto intro: exI [of _ "kf_auth k"])
next
  case (Cons t ts)
  let ?k = "k\<lparr>kf_auth := bt_insert a (t0, Suc n) (kf_auth k)\<rparr>"
  have "auth_failure a t k = Some ?k" using Cons.prems by (intro auth_failure_below) auto
  moreover have "\<exists>m. auth_failures a ts ?k = Some (?k\<lparr>kf_auth := m\<rparr>) \<and> bt_get m a = Some (t0, Suc n + length ts)"
    using Cons.prems by (intro Cons.IH) (auto simp: bt_get_insert)
  ultimately show ?case by auto
qed

lemma auth_failures_append: "auth_failures a (ts @ us) k = auth_failures a ts k \<bind> auth_failures a us"
proof (induction ts arbitrary: k)
  case (Cons t ts)
  then show ?case by (cases "auth_failure a t k") auto
qed simp

text \<open>C36 (brute force). Five authentication failures of one address within ten minutes, starting from a
  clean record and in order of time, ban the address for at least ten minutes after the last one;
  fewer than five never ban anybody.\<close>

theorem auth_failures_ban:
  assumes "kf_fw k = Some fw" and "\<not> allowlisted fw a" and "a \<notin> set (fw_local_ips fw)"
    and "bt_get (kf_auth k) a = None"
    and "\<forall>t\<in>set ts. t0 \<le> t \<and> t \<le> t0 + 600000" and "auth_failures a (t0 # ts) k = Some k'"
  shows "(length ts = 4 \<longrightarrow> (\<forall>t < last ts + 600000. kf_is_banned a t k')) \<and>
    (length ts < 4 \<longrightarrow> kf_fw k' = kf_fw k)"
proof -
  have w: "\<forall>t\<in>set us. t0 \<le> t \<and> t - t0 \<le> AUTH_FAIL_WINDOW_MS" if "set us \<subseteq> set ts" for us
    using assms(5) that by fastforce
  let ?k1 = "k\<lparr>kf_auth := bt_insert a (t0, 1) (kf_auth k)\<rparr>"
  have s: "auth_failure a t0 k = Some ?k1"
    using auth_failure_below [where k = k and a = a and t = t0 and ?t0.0 = t0 and n = 0] assms(4) by simp
  have few: "\<exists>m. auth_failures a us ?k1 = Some (?k1\<lparr>kf_auth := m\<rparr>) \<and> bt_get m a = Some (t0, 1 + length us)"
    if "set us \<subseteq> set ts" "length us < 4" for us
    by (rule auth_failures_count) (use w that in \<open>auto simp: bt_get_insert\<close>)
  have "kf_is_banned a t k'" if l: "length ts = 4" "t < last ts + 600000" for t
  proof -
    have ts: "ts = butlast ts @ [last ts]" using l(1) by (cases ts) auto
    obtain m where m: "auth_failures a (butlast ts) ?k1 = Some (?k1\<lparr>kf_auth := m\<rparr>)" "bt_get m a = Some (t0, 4)"
      using few [of "butlast ts"] l(1) by (auto dest: in_set_butlastD)
    let ?k2 = "?k1\<lparr>kf_auth := m\<rparr>"
    have "last ts \<in> set ts" using l(1) by (cases ts) auto
    then have "auth_failure a (last ts) ?k2 = map_option snd (kf_ban a AUTH_BAN_MS (last ts)
        ''repeated authentication failures'' (?k2\<lparr>kf_auth := bt_remove a m\<rparr>))"
      using auth_failure_at_limit [of ?k2 a t0 4 "last ts"] m(2) w [of ts] by simp
    moreover have "auth_failure a (last ts) ?k2 = Some k'"
      using assms(6) s m(1) auth_failures_append [of a "butlast ts" "[last ts]" ?k1] ts
      by (cases "auth_failure a (last ts) ?k2") auto
    ultimately obtain d fw1 where b: "fw_ban a (last ts) AUTH_BAN_MS ''repeated authentication failures'' fw = Some (d, fw1)"
      "kf_fw k' = Some fw1" using assms(1) by (auto simp: kf_ban_def split: bind_splits)
    have "x \<le> x * 2 ^ e" for x e :: nat by simp
    then have "600000 \<le> d"
      using fw_ban_effect(3) [OF b(1) assms(2,3)] by (auto simp: saturating_mul64_def)
    then show ?thesis using fw_ban_effect(1) [OF b(1) assms(2,3), of a] b(2) l(2)
      by (simp add: kf_is_banned_def is_banned_def)
  qed
  moreover have "kf_fw k' = kf_fw k" if "length ts < 4"
    using few [of ts] that assms(6) s by auto
  ultimately show ?thesis by blast
qed

theorem auth_failures_ban_witness:
  "\<exists>k'. auth_failures (9, 9, 9, 9) [10, 20, 30, 40, 50] \<lparr>kf_fw = Some with_defaults, kf_auth = []\<rparr> = Some k' \<and>
     kf_is_banned (9, 9, 9, 9) 600000 k'"
proof -
  obtain k' where r: "auth_failures (9, 9, 9, 9) [10, 20, 30, 40, 50] \<lparr>kf_fw = Some with_defaults, kf_auth = []\<rparr> = Some k'"
    by (simp add: auth_failure_def kf_ban_def fw_ban_def
        saturating_mul64_def chk64_def allowlisted_def with_defaults_def bt_get_def Let_def)
  have "kf_is_banned (9, 9, 9, 9) 600000 k'"
    using auth_failures_ban [OF _ _ _ _ _ r, of with_defaults] by (simp add: allowlisted_def with_defaults_def)
  then show ?thesis using r by blast
qed

end
