(* ===== verification/Errno.thy ===== *)
theory Errno
  imports Prelude
begin

text \<open>
  The error numbers of \<^verbatim>\<open>kernel/src/errno.rs\<close>: the enumeration, its numeric codes (the Linux values
  that system calls return negated) and the \<^verbatim>\<open>strerror\<close> texts. The result type of the kernel's
  fallible operations, \<^verbatim>\<open>KResult<T>\<close>, is the sum \<open>Errno + 'a\<close> with the error on the left.
\<close>

datatype (plugins only:) Errno =
    EPERM | ENOENT | ESRCH | EINTR | EIO | ENXIO | E2BIG | ENOEXEC | EBADF | ECHILD | EAGAIN
    | ENOMEM | EACCES | EFAULT | ENOTBLK | EBUSY | EEXIST | EXDEV | ENODEV | ENOTDIR | EISDIR
    | EINVAL | ENFILE | EMFILE | ENOTTY | ETXTBSY | EFBIG | ENOSPC | ESPIPE | EROFS | EMLINK | EPIPE
    | EDOM | ERANGE | EDEADLK | ENAMETOOLONG | ENOLCK | ENOSYS | ENOTEMPTY | ELOOP | ENOMSG
    | ENODATA | ETIME | EPROTO | EBADMSG | EOVERFLOW | EILSEQ | ENOTSOCK | EDESTADDRREQ | EMSGSIZE
    | EPROTOTYPE | ENOPROTOOPT | EPROTONOSUPPORT | EOPNOTSUPP | EAFNOSUPPORT | EADDRINUSE
    | EADDRNOTAVAIL | ENETDOWN | ENETUNREACH | ECONNABORTED | ECONNRESET | ENOBUFS | EISCONN
    | ENOTCONN | ESHUTDOWN | ETIMEDOUT | ECONNREFUSED | EHOSTDOWN | EHOSTUNREACH | EALREADY
    | EINPROGRESS | ESTALE | EDQUOT | ECANCELED

type_synonym 'a KResult = "Errno + 'a"

primrec errno_code :: "Errno \<Rightarrow> nat" where
  "errno_code EPERM = 1"
| "errno_code ENOENT = 2"
| "errno_code ESRCH = 3"
| "errno_code EINTR = 4"
| "errno_code EIO = 5"
| "errno_code ENXIO = 6"
| "errno_code E2BIG = 7"
| "errno_code ENOEXEC = 8"
| "errno_code EBADF = 9"
| "errno_code ECHILD = 10"
| "errno_code EAGAIN = 11"
| "errno_code ENOMEM = 12"
| "errno_code EACCES = 13"
| "errno_code EFAULT = 14"
| "errno_code ENOTBLK = 15"
| "errno_code EBUSY = 16"
| "errno_code EEXIST = 17"
| "errno_code EXDEV = 18"
| "errno_code ENODEV = 19"
| "errno_code ENOTDIR = 20"
| "errno_code EISDIR = 21"
| "errno_code EINVAL = 22"
| "errno_code ENFILE = 23"
| "errno_code EMFILE = 24"
| "errno_code ENOTTY = 25"
| "errno_code ETXTBSY = 26"
| "errno_code EFBIG = 27"
| "errno_code ENOSPC = 28"
| "errno_code ESPIPE = 29"
| "errno_code EROFS = 30"
| "errno_code EMLINK = 31"
| "errno_code EPIPE = 32"
| "errno_code EDOM = 33"
| "errno_code ERANGE = 34"
| "errno_code EDEADLK = 35"
| "errno_code ENAMETOOLONG = 36"
| "errno_code ENOLCK = 37"
| "errno_code ENOSYS = 38"
| "errno_code ENOTEMPTY = 39"
| "errno_code ELOOP = 40"
| "errno_code ENOMSG = 42"
| "errno_code ENODATA = 61"
| "errno_code ETIME = 62"
| "errno_code EPROTO = 71"
| "errno_code EBADMSG = 74"
| "errno_code EOVERFLOW = 75"
| "errno_code EILSEQ = 84"
| "errno_code ENOTSOCK = 88"
| "errno_code EDESTADDRREQ = 89"
| "errno_code EMSGSIZE = 90"
| "errno_code EPROTOTYPE = 91"
| "errno_code ENOPROTOOPT = 92"
| "errno_code EPROTONOSUPPORT = 93"
| "errno_code EOPNOTSUPP = 95"
| "errno_code EAFNOSUPPORT = 97"
| "errno_code EADDRINUSE = 98"
| "errno_code EADDRNOTAVAIL = 99"
| "errno_code ENETDOWN = 100"
| "errno_code ENETUNREACH = 101"
| "errno_code ECONNABORTED = 103"
| "errno_code ECONNRESET = 104"
| "errno_code ENOBUFS = 105"
| "errno_code EISCONN = 106"
| "errno_code ENOTCONN = 107"
| "errno_code ESHUTDOWN = 108"
| "errno_code ETIMEDOUT = 110"
| "errno_code ECONNREFUSED = 111"
| "errno_code EHOSTDOWN = 112"
| "errno_code EHOSTUNREACH = 113"
| "errno_code EALREADY = 114"
| "errno_code EINPROGRESS = 115"
| "errno_code ESTALE = 116"
| "errno_code EDQUOT = 122"
| "errno_code ECANCELED = 125"

primrec errno_desc :: "Errno \<Rightarrow> string" where
  "errno_desc EPERM = ''Operation not permitted''"
| "errno_desc ENOENT = ''No such file or directory''"
| "errno_desc ESRCH = ''No such process''"
| "errno_desc EINTR = ''Interrupted system call''"
| "errno_desc EIO = ''Input/output error''"
| "errno_desc ENXIO = ''No such device or address''"
| "errno_desc E2BIG = ''Argument list too long''"
| "errno_desc ENOEXEC = ''Exec format error''"
| "errno_desc EBADF = ''Bad file descriptor''"
| "errno_desc ECHILD = ''No child processes''"
| "errno_desc EAGAIN = ''Resource temporarily unavailable''"
| "errno_desc ENOMEM = ''Cannot allocate memory''"
| "errno_desc EACCES = ''Permission denied''"
| "errno_desc EFAULT = ''Bad address''"
| "errno_desc ENOTBLK = ''Block device required''"
| "errno_desc EBUSY = ''Device or resource busy''"
| "errno_desc EEXIST = ''File exists''"
| "errno_desc EXDEV = ''Invalid cross-device link''"
| "errno_desc ENODEV = ''No such device''"
| "errno_desc ENOTDIR = ''Not a directory''"
| "errno_desc EISDIR = ''Is a directory''"
| "errno_desc EINVAL = ''Invalid argument''"
| "errno_desc ENFILE = ''Too many open files in system''"
| "errno_desc EMFILE = ''Too many open files''"
| "errno_desc ENOTTY = ''Inappropriate ioctl for device''"
| "errno_desc ETXTBSY = ''Text file busy''"
| "errno_desc EFBIG = ''File too large''"
| "errno_desc ENOSPC = ''No space left on device''"
| "errno_desc ESPIPE = ''Illegal seek''"
| "errno_desc EROFS = ''Read-only file system''"
| "errno_desc EMLINK = ''Too many links''"
| "errno_desc EPIPE = ''Broken pipe''"
| "errno_desc EDOM = ''Numerical argument out of domain''"
| "errno_desc ERANGE = ''Numerical result out of range''"
| "errno_desc EDEADLK = ''Resource deadlock avoided''"
| "errno_desc ENAMETOOLONG = ''File name too long''"
| "errno_desc ENOLCK = ''No locks available''"
| "errno_desc ENOSYS = ''Function not implemented''"
| "errno_desc ENOTEMPTY = ''Directory not empty''"
| "errno_desc ELOOP = ''Too many levels of symbolic links''"
| "errno_desc ENOMSG = ''No message of desired type''"
| "errno_desc ENODATA = ''No data available''"
| "errno_desc ETIME = ''Timer expired''"
| "errno_desc EPROTO = ''Protocol error''"
| "errno_desc EBADMSG = ''Bad message''"
| "errno_desc EOVERFLOW = ''Value too large for defined data type''"
| "errno_desc EILSEQ = ''Invalid or incomplete multibyte or wide character''"
| "errno_desc ENOTSOCK = ''Socket operation on non-socket''"
| "errno_desc EDESTADDRREQ = ''Destination address required''"
| "errno_desc EMSGSIZE = ''Message too long''"
| "errno_desc EPROTOTYPE = ''Protocol wrong type for socket''"
| "errno_desc ENOPROTOOPT = ''Protocol not available''"
| "errno_desc EPROTONOSUPPORT = ''Protocol not supported''"
| "errno_desc EOPNOTSUPP = ''Operation not supported''"
| "errno_desc EAFNOSUPPORT = ''Address family not supported by protocol''"
| "errno_desc EADDRINUSE = ''Address already in use''"
| "errno_desc EADDRNOTAVAIL = ''Cannot assign requested address''"
| "errno_desc ENETDOWN = ''Network is down''"
| "errno_desc ENETUNREACH = ''Network is unreachable''"
| "errno_desc ECONNABORTED = ''Software caused connection abort''"
| "errno_desc ECONNRESET = ''Connection reset by peer''"
| "errno_desc ENOBUFS = ''No buffer space available''"
| "errno_desc EISCONN = ''Transport endpoint is already connected''"
| "errno_desc ENOTCONN = ''Transport endpoint is not connected''"
| "errno_desc ESHUTDOWN = ''Cannot send after transport endpoint shutdown''"
| "errno_desc ETIMEDOUT = ''Connection timed out''"
| "errno_desc ECONNREFUSED = ''Connection refused''"
| "errno_desc EHOSTDOWN = ''Host is down''"
| "errno_desc EHOSTUNREACH = ''No route to host''"
| "errno_desc EALREADY = ''Operation already in progress''"
| "errno_desc EINPROGRESS = ''Operation now in progress''"
| "errno_desc ESTALE = ''Stale file handle''"
| "errno_desc EDQUOT = ''Disk quota exceeded''"
| "errno_desc ECANCELED = ''Operation canceled''"

definition errno_list :: "Errno list" where
  "errno_list = [
    EPERM, ENOENT, ESRCH, EINTR, EIO, ENXIO, E2BIG, ENOEXEC, EBADF, ECHILD, EAGAIN, ENOMEM, EACCES
    , EFAULT, ENOTBLK, EBUSY, EEXIST, EXDEV, ENODEV, ENOTDIR, EISDIR, EINVAL, ENFILE, EMFILE, ENOTTY
    , ETXTBSY, EFBIG, ENOSPC, ESPIPE, EROFS, EMLINK, EPIPE, EDOM, ERANGE, EDEADLK, ENAMETOOLONG
    , ENOLCK, ENOSYS, ENOTEMPTY, ELOOP, ENOMSG, ENODATA, ETIME, EPROTO, EBADMSG, EOVERFLOW, EILSEQ
    , ENOTSOCK, EDESTADDRREQ, EMSGSIZE, EPROTOTYPE, ENOPROTOOPT, EPROTONOSUPPORT, EOPNOTSUPP
    , EAFNOSUPPORT, EADDRINUSE, EADDRNOTAVAIL, ENETDOWN, ENETUNREACH, ECONNABORTED, ECONNRESET
    , ENOBUFS, EISCONN, ENOTCONN, ESHUTDOWN, ETIMEDOUT, ECONNREFUSED, EHOSTDOWN, EHOSTUNREACH
    , EALREADY, EINPROGRESS, ESTALE, EDQUOT, ECANCELED]"

lemma errno_list_complete: "e \<in> set errno_list"
  unfolding errno_list_def by (cases e) simp_all

lemma errno_codes_distinct: "distinct (map errno_code errno_list)"
  by (simp add: errno_list_def)


section \<open>The result monad\<close>

definition kbind :: "'a KResult \<Rightarrow> ('a \<Rightarrow> 'b KResult) \<Rightarrow> 'b KResult" where
  "kbind r f = (case r of Inl e \<Rightarrow> Inl e | Inr x \<Rightarrow> f x)"

lemma kbind_simps [simp]: "kbind (Inl e) f = Inl e" "kbind (Inr x) f = f x"
  by (simp_all add: kbind_def)

lemma kbind_Inr: "kbind r f = Inr y \<longleftrightarrow> (\<exists>x. r = Inr x \<and> f x = Inr y)"
  by (cases r) auto

end
