(* ===== verification/Seccomp.thy ===== *)
theory Seccomp
  imports Errno "HOL-Library.Monad_Syntax"
begin

unbundle bit_operations_syntax

text \<open>
  Capabilities and the seccomp filter machine of \<^verbatim>\<open>kernel/src/syscall/seccomp.rs\<close>: the classic-BPF
  interpreter that runs on every system call of a filtered process, the combination of stacked
  filters, and the two calls that install filters. User memory is a function from addresses to
  bytes that is undefined where \<^verbatim>\<open>uaccess\<close> reports a fault. Register arithmetic is on 32-bit words,
  as in the source (\<^verbatim>\<open>wrapping_add\<close> and friends); the program counter only grows and stays far
  below the width of \<^verbatim>\<open>usize\<close>.
\<close>

section \<open>Capabilities\<close>

abbreviation CAP_NET_BIND_SERVICE :: nat where "CAP_NET_BIND_SERVICE \<equiv> 10"
abbreviation CAP_NET_RAW :: nat where "CAP_NET_RAW \<equiv> 13"
abbreviation CAP_SYS_ADMIN :: nat where "CAP_SYS_ADMIN \<equiv> 21"
abbreviation CAP_SYS_BOOT :: nat where "CAP_SYS_BOOT \<equiv> 22"
abbreviation CAP_LAST :: nat where "CAP_LAST \<equiv> 40"

definition CAP_ALL :: u64 where "CAP_ALL = push_bit (CAP_LAST + 1) 1 - 1"

definition default_caps :: "u32 \<Rightarrow> u64" where
  "default_caps uid = (if uid = 0 then CAP_ALL else 0)"

definition has_cap :: "u64 \<Rightarrow> nat \<Rightarrow> bool" where
  "has_cap caps cap \<longleftrightarrow> cap \<le> CAP_LAST \<and> caps AND push_bit cap 1 \<noteq> 0"

definition strip_cap_prefix :: "string \<Rightarrow> string" where
  "strip_cap_prefix n = (if take 4 n = ''CAP_'' then drop 4 n else n)"

definition cap_by_name :: "string \<Rightarrow> nat option" where
  "cap_by_name name =
     (let n = strip_cap_prefix (map ascii_upper (str_trim name)) in
      if n = ''NET_BIND_SERVICE'' then Some CAP_NET_BIND_SERVICE
      else if n = ''NET_RAW'' then Some CAP_NET_RAW
      else if n = ''SYS_ADMIN'' then Some CAP_SYS_ADMIN
      else if n = ''SYS_BOOT'' then Some CAP_SYS_BOOT
      else if n = ''CHOWN'' then Some 0
      else if n = ''DAC_OVERRIDE'' then Some 1
      else if n = ''KILL'' then Some 5
      else if n = ''SETGID'' then Some 6
      else if n = ''SETUID'' then Some 7
      else if n = ''NET_ADMIN'' then Some 12
      else if n = ''SYS_CHROOT'' then Some 18
      else if n = ''SYS_PTRACE'' then Some 19
      else if n = ''MKNOD'' then Some 27
      else parse_unsigned 32 10 n)"

definition cap_name :: "nat \<Rightarrow> string option" where
  "cap_name cap =
     (if cap = 0 then Some ''CAP_CHOWN''
      else if cap = 1 then Some ''CAP_DAC_OVERRIDE''
      else if cap = 5 then Some ''CAP_KILL''
      else if cap = 6 then Some ''CAP_SETGID''
      else if cap = 7 then Some ''CAP_SETUID''
      else if cap = 12 then Some ''CAP_NET_ADMIN''
      else if cap = CAP_NET_BIND_SERVICE then Some ''CAP_NET_BIND_SERVICE''
      else if cap = CAP_NET_RAW then Some ''CAP_NET_RAW''
      else if cap = 18 then Some ''CAP_SYS_CHROOT''
      else if cap = 19 then Some ''CAP_SYS_PTRACE''
      else if cap = CAP_SYS_ADMIN then Some ''CAP_SYS_ADMIN''
      else if cap = CAP_SYS_BOOT then Some ''CAP_SYS_BOOT''
      else if cap = 27 then Some ''CAP_MKNOD''
      else None)"

definition cap_text :: "nat \<Rightarrow> string" where
  "cap_text cap = (case cap_name cap of Some s \<Rightarrow> s | None \<Rightarrow> ''CAP_'' @ dec_str cap)"

definition cap_names :: "u64 \<Rightarrow> string list" where
  "cap_names m = map cap_text (filter (\<lambda>cap. m AND push_bit cap 1 \<noteq> 0) [0..<CAP_LAST + 1])"

section \<open>The filter machine\<close>

record sock_filter =
  sf_code :: u16
  sf_jt :: u8
  sf_jf :: u8
  sf_k :: u32

record filters =
  fl_strict :: bool
  fl_progs :: "sock_filter list list"

definition filters_default :: filters where
  "filters_default = \<lparr>fl_strict = False, fl_progs = []\<rparr>"

abbreviation AUDIT_ARCH_X86_64 :: u32 where "AUDIT_ARCH_X86_64 \<equiv> 0xC000003E"

abbreviation RET_ACTION_FULL :: u32 where "RET_ACTION_FULL \<equiv> 0xffff0000"
abbreviation RET_DATA :: u32 where "RET_DATA \<equiv> 0x0000ffff"
abbreviation RET_KILL_PROCESS :: u32 where "RET_KILL_PROCESS \<equiv> 0x80000000"
abbreviation RET_KILL_THREAD :: u32 where "RET_KILL_THREAD \<equiv> 0x00000000"
abbreviation RET_TRAP :: u32 where "RET_TRAP \<equiv> 0x00030000"
abbreviation RET_ERRNO :: u32 where "RET_ERRNO \<equiv> 0x00050000"
abbreviation RET_TRACE :: u32 where "RET_TRACE \<equiv> 0x7ff00000"
abbreviation RET_LOG :: u32 where "RET_LOG \<equiv> 0x7ffc0000"
abbreviation RET_ALLOW :: u32 where "RET_ALLOW \<equiv> 0x7fff0000"

datatype sc_action = Allow | ReturnErrno u16 | Trap | KillThread | KillProcess

definition data_new :: "u64 \<Rightarrow> u64 \<Rightarrow> u64 list \<Rightarrow> u8 list" where
  "data_new nr ip args =
     to_le 4 (ucast nr :: u32) @ to_le 4 AUDIT_ARCH_X86_64 @ to_le 8 ip @ concat (map (to_le 8) args)"

definition data_word :: "u8 list \<Rightarrow> u32 \<Rightarrow> u32 option" where
  "data_word buf k =
     (let k = unat k in
      if length buf < k + 4 then None else Some (of_le [buf ! k, buf ! (k + 1), buf ! (k + 2), buf ! (k + 3)]))"

abbreviation BPF_LD :: u16 where "BPF_LD \<equiv> 0x00"
abbreviation BPF_LDX :: u16 where "BPF_LDX \<equiv> 0x01"
abbreviation BPF_ALU :: u16 where "BPF_ALU \<equiv> 0x04"
abbreviation BPF_JMP :: u16 where "BPF_JMP \<equiv> 0x05"
abbreviation BPF_RET :: u16 where "BPF_RET \<equiv> 0x06"
abbreviation BPF_MISC :: u16 where "BPF_MISC \<equiv> 0x07"

abbreviation BPF_ABS :: u16 where "BPF_ABS \<equiv> 0x20"
abbreviation BPF_IMM :: u16 where "BPF_IMM \<equiv> 0x00"
abbreviation BPF_MEM :: u16 where "BPF_MEM \<equiv> 0x60"
abbreviation BPF_LEN :: u16 where "BPF_LEN \<equiv> 0x80"

abbreviation BPF_JA :: u16 where "BPF_JA \<equiv> 0x00"
abbreviation BPF_JEQ :: u16 where "BPF_JEQ \<equiv> 0x10"
abbreviation BPF_JGT :: u16 where "BPF_JGT \<equiv> 0x20"
abbreviation BPF_JGE :: u16 where "BPF_JGE \<equiv> 0x30"
abbreviation BPF_JSET :: u16 where "BPF_JSET \<equiv> 0x40"

abbreviation BPF_ADD :: u16 where "BPF_ADD \<equiv> 0x00"
abbreviation BPF_SUB :: u16 where "BPF_SUB \<equiv> 0x10"
abbreviation BPF_AND :: u16 where "BPF_AND \<equiv> 0x50"
abbreviation BPF_OR :: u16 where "BPF_OR \<equiv> 0x40"
abbreviation BPF_LSH :: u16 where "BPF_LSH \<equiv> 0x60"
abbreviation BPF_RSH :: u16 where "BPF_RSH \<equiv> 0x70"

abbreviation BPF_X :: u16 where "BPF_X \<equiv> 0x08"
abbreviation BPF_A :: u16 where "BPF_A \<equiv> 0x10"
abbreviation BPF_CLASS :: u16 where "BPF_CLASS \<equiv> 0x07"

text \<open>One instruction: either the program returns a value, or it goes on with new registers.\<close>

datatype bpf_result = Ret u32 | Next u32 u32 nat

definition mem_get :: "u32 list \<Rightarrow> u32 \<Rightarrow> u32" where
  "mem_get mem k = (if unat k < length mem then mem ! unat k else 0)"

definition bpf_alu :: "u16 \<Rightarrow> u32 \<Rightarrow> u32 \<Rightarrow> u32" where
  "bpf_alu op a val =
     (if op = BPF_ADD then a + val
      else if op = BPF_SUB then a - val
      else if op = BPF_AND then a AND val
      else if op = BPF_OR then a OR val
      else if op = BPF_LSH then push_bit (unat val mod 32) a
      else if op = BPF_RSH then drop_bit (unat val mod 32) a
      else a)"

definition bpf_cond :: "u16 \<Rightarrow> u32 \<Rightarrow> u32 \<Rightarrow> bool" where
  "bpf_cond op a val =
     (if op = BPF_JEQ then a = val
      else if op = BPF_JGT then val < a
      else if op = BPF_JGE then val \<le> a
      else if op = BPF_JSET then a AND val \<noteq> 0
      else False)"

definition bpf_step :: "sock_filter \<Rightarrow> u8 list \<Rightarrow> u32 list \<Rightarrow> u32 \<Rightarrow> u32 \<Rightarrow> nat \<Rightarrow> bpf_result" where
  "bpf_step ins data mem a x pc =
     (let cls = sf_code ins AND BPF_CLASS;
          modes = sf_code ins AND 0xe0;
          src = sf_code ins AND 0x08;
          op = sf_code ins AND 0xf0;
          val = (if src = BPF_X then x else sf_k ins)
      in if cls = BPF_LD then
           (if modes = BPF_ABS then
              (case data_word data (sf_k ins) of Some w \<Rightarrow> Next w x (pc + 1) | None \<Rightarrow> Ret RET_KILL_PROCESS)
            else if modes = BPF_IMM then Next (sf_k ins) x (pc + 1)
            else if modes = BPF_MEM then Next (mem_get mem (sf_k ins)) x (pc + 1)
            else if modes = BPF_LEN then Next 64 x (pc + 1)
            else Ret RET_KILL_PROCESS)
         else if cls = BPF_LDX then
           (if modes = BPF_IMM then Next a (sf_k ins) (pc + 1)
            else if modes = BPF_MEM then Next a (mem_get mem (sf_k ins)) (pc + 1)
            else if modes = BPF_LEN then Next a 64 (pc + 1)
            else Ret RET_KILL_PROCESS)
         else if cls = BPF_ALU then Next (bpf_alu op a val) x (pc + 1)
         else if cls = BPF_JMP then
           (if op = BPF_JA then Next a x (pc + (1 + unat (sf_k ins)))
            else Next a x (pc + (1 + unat (if bpf_cond op a val then sf_jt ins else sf_jf ins))))
         else if cls = BPF_RET then Ret (if sf_code ins AND 0x18 = BPF_A then a else sf_k ins)
         else if cls = BPF_MISC then Next a x (pc + 1)
         else Ret RET_KILL_PROCESS)"

text \<open>The loop of \<open>run_prog\<close>, with its own step limit.\<close>

function run_loop :: "sock_filter list \<Rightarrow> u8 list \<Rightarrow> u32 list \<Rightarrow> u32 \<Rightarrow> u32 \<Rightarrow> nat \<Rightarrow> nat \<Rightarrow> u32" where
  "run_loop prog data mem a x pc steps =
     (if pc < length prog then
        if 4096 < steps + 1 then RET_KILL_PROCESS
        else case bpf_step (prog ! pc) data mem a x pc of
               Ret r \<Rightarrow> r
             | Next a' x' pc' \<Rightarrow> run_loop prog data mem a' x' pc' (steps + 1)
      else RET_KILL_PROCESS)"
  by pat_completeness auto
termination
  by (relation "measure (\<lambda>(prog, data, mem, a, x, pc, steps). 4096 - steps)") auto

declare run_loop.simps [simp del]

definition run_prog :: "sock_filter list \<Rightarrow> u8 list \<Rightarrow> u32" where
  "run_prog prog data = run_loop prog data (replicate 16 0) 0 0 0 0"

definition more_severe :: "u32 \<Rightarrow> u32 \<Rightarrow> u32" where
  "more_severe a b =
     (if a = RET_KILL_PROCESS \<or> b = RET_KILL_PROCESS then RET_KILL_PROCESS
      else if a AND RET_ACTION_FULL \<le> b AND RET_ACTION_FULL then a else b)"

definition classify :: "u32 \<Rightarrow> sc_action" where
  "classify r =
     (let c = r AND RET_ACTION_FULL in
      if c = RET_KILL_PROCESS then KillProcess
      else if c = RET_KILL_THREAD then KillThread
      else if c = RET_TRAP then Trap
      else if c = RET_ERRNO then ReturnErrno (ucast (r AND RET_DATA))
      else Allow)"

fun best_of :: "u8 list \<Rightarrow> u32 option \<Rightarrow> sock_filter list list \<Rightarrow> u32 option" where
  "best_of data best [] = best"
| "best_of data best (p # ps) =
     (let r = run_prog p data in
      best_of data (Some (case best of None \<Rightarrow> r | Some cur \<Rightarrow> more_severe cur r)) ps)"

definition sc_decide :: "filters \<Rightarrow> u64 \<Rightarrow> u64 \<Rightarrow> u64 list \<Rightarrow> sc_action" where
  "sc_decide fl nr ip args =
     (if fl_strict fl then
        (if nr \<in> set [0, 1, 15, 60, 231] then Allow else KillProcess)
      else case best_of (data_new nr ip args) None (fl_progs fl) of
             None \<Rightarrow> Allow
           | Some r \<Rightarrow> classify r)"

section \<open>Installing filters\<close>

type_synonym user_mem = "nat \<Rightarrow> u8 option"

text \<open>\<^verbatim>\<open>uaccess::read_obj\<close> of \<open>n\<close> bytes.\<close>

definition read_obj :: "user_mem \<Rightarrow> nat \<Rightarrow> nat \<Rightarrow> 'a::len word KResult" where
  "read_obj mem addr n =
     (case those (map mem [addr..<addr + n]) of None \<Rightarrow> Inl EFAULT | Some bs \<Rightarrow> Inr (of_le bs))"

definition read_insn :: "user_mem \<Rightarrow> nat \<Rightarrow> sock_filter KResult" where
  "read_insn mem base =
     kbind (read_obj mem base 2) (\<lambda>code.
     kbind (read_obj mem (base + 2) 1) (\<lambda>jt.
     kbind (read_obj mem (base + 3) 1) (\<lambda>jf.
     kbind (read_obj mem (base + 4) 4) (\<lambda>k.
     Inr \<lparr>sf_code = code, sf_jt = jt, sf_jf = jf, sf_k = k\<rparr>))))"

fun read_insns :: "user_mem \<Rightarrow> nat \<Rightarrow> nat \<Rightarrow> sock_filter list KResult" where
  "read_insns mem base 0 = Inr []"
| "read_insns mem base (Suc n) =
     kbind (read_insn mem base) (\<lambda>i. kbind (read_insns mem (base + 8) n) (\<lambda>is. Inr (i # is)))"

definition read_fprog :: "user_mem \<Rightarrow> nat \<Rightarrow> sock_filter list KResult" where
  "read_fprog mem prog_ptr =
     (if prog_ptr = 0 then Inl EFAULT
      else kbind (read_obj mem prog_ptr 2) (\<lambda>len :: u16.
        if len = 0 \<or> 4096 < unat len then Inl EINVAL
        else kbind (read_obj mem (prog_ptr + 8) 8) (\<lambda>filter_ptr :: u64.
          if filter_ptr = 0 then Inl EFAULT
          else read_insns mem (unat filter_ptr) (unat len))))"

record sc_proc =
  sp_no_new_privs :: bool
  sp_caps :: u64
  sp_seccomp :: "filters option"
  sp_seccomp_active :: bool

definition install_filter :: "user_mem \<Rightarrow> nat \<Rightarrow> sc_proc \<Rightarrow> Errno option \<times> sc_proc" where
  "install_filter mem prog_ptr p =
     (if \<not> sp_no_new_privs p \<and> \<not> has_cap (sp_caps p) CAP_SYS_ADMIN then (Some EACCES, p)
      else case read_fprog mem prog_ptr of
             Inl e \<Rightarrow> (Some e, p)
           | Inr prog \<Rightarrow>
               let fl = (case sp_seccomp p of Some f \<Rightarrow> f | None \<Rightarrow> filters_default)
               in (None, p\<lparr>sp_seccomp := Some (fl\<lparr>fl_progs := fl_progs fl @ [prog]\<rparr>), sp_seccomp_active := True\<rparr>))"

definition set_strict :: "sc_proc \<Rightarrow> sc_proc" where
  "set_strict p =
     p\<lparr>sp_seccomp := Some \<lparr>fl_strict = True,
          fl_progs = (case sp_seccomp p of Some f \<Rightarrow> fl_progs f | None \<Rightarrow> [])\<rparr>,
       sp_seccomp_active := True\<rparr>"

text \<open>The arms of \<^verbatim>\<open>prctl\<close> that touch privileges, and \<^verbatim>\<open>seccomp\<close>, \<^verbatim>\<open>capset\<close> and the check before every
  system call (\<^verbatim>\<open>syscall/proc_sys.rs\<close>, \<^verbatim>\<open>syscall/mod.rs\<close>). The two arms on the task's name do not touch
  this state and are left out; every other option is a no-op that succeeds.\<close>

abbreviation PR_SET_NO_NEW_PRIVS :: int where "PR_SET_NO_NEW_PRIVS \<equiv> 38"
abbreviation PR_GET_NO_NEW_PRIVS :: int where "PR_GET_NO_NEW_PRIVS \<equiv> 39"
abbreviation PR_SET_SECCOMP :: int where "PR_SET_SECCOMP \<equiv> 22"
abbreviation PR_GET_SECCOMP :: int where "PR_GET_SECCOMP \<equiv> 21"
abbreviation PR_CAPBSET_READ :: int where "PR_CAPBSET_READ \<equiv> 23"
abbreviation PR_CAPBSET_DROP :: int where "PR_CAPBSET_DROP \<equiv> 24"
abbreviation SECCOMP_MODE_STRICT :: u64 where "SECCOMP_MODE_STRICT \<equiv> 1"
abbreviation SECCOMP_MODE_FILTER :: u64 where "SECCOMP_MODE_FILTER \<equiv> 2"
abbreviation SECCOMP_SET_MODE_STRICT :: u64 where "SECCOMP_SET_MODE_STRICT \<equiv> 0"
abbreviation SECCOMP_SET_MODE_FILTER :: u64 where "SECCOMP_SET_MODE_FILTER \<equiv> 1"

definition sc_unit :: "Errno option \<times> sc_proc \<Rightarrow> nat KResult \<times> sc_proc" where
  "sc_unit r = (case r of (None, p) \<Rightarrow> (Inr 0, p) | (Some e, p) \<Rightarrow> (Inl e, p))"

definition prctl :: "user_mem \<Rightarrow> int \<Rightarrow> u64 \<Rightarrow> u64 \<Rightarrow> sc_proc \<Rightarrow> nat KResult \<times> sc_proc" where
  "prctl mem opt arg2 arg3 p =
     (if opt = PR_SET_NO_NEW_PRIVS then
        (Inr 0, if arg2 = 1 then p\<lparr>sp_no_new_privs := True\<rparr> else p)
      else if opt = PR_GET_NO_NEW_PRIVS then (Inr (if sp_no_new_privs p then 1 else 0), p)
      else if opt = PR_SET_SECCOMP then
        (if arg2 = SECCOMP_MODE_STRICT then (Inr 0, set_strict p)
         else if arg2 = SECCOMP_MODE_FILTER then sc_unit (install_filter mem (unat arg3) p)
         else (Inl EINVAL, p))
      else if opt = PR_GET_SECCOMP then (Inr (if sp_seccomp_active p then 2 else 0), p)
      else if opt = PR_CAPBSET_READ then
        (if CAP_LAST < unat arg2 then (Inl EINVAL, p)
         else (Inr (unat (drop_bit (unat arg2) (sp_caps p) AND 1)), p))
      else if opt = PR_CAPBSET_DROP then
        (if CAP_LAST < unat arg2 then (Inl EINVAL, p)
         else (Inr 0, p\<lparr>sp_caps := sp_caps p AND NOT (push_bit (unat arg2) 1)\<rparr>))
      else (Inr 0, p))"

definition seccomp :: "user_mem \<Rightarrow> u32 \<Rightarrow> nat \<Rightarrow> sc_proc \<Rightarrow> nat KResult \<times> sc_proc" where
  "seccomp mem op args p =
     (if ucast op = SECCOMP_SET_MODE_STRICT then (Inr 0, set_strict p)
      else if ucast op = SECCOMP_SET_MODE_FILTER then sc_unit (install_filter mem args p)
      else (Inl EINVAL, p))"

definition capset :: "user_mem \<Rightarrow> nat \<Rightarrow> nat \<Rightarrow> sc_proc \<Rightarrow> nat KResult \<times> sc_proc" where
  "capset mem hdrp datap p =
     (if hdrp = 0 \<or> datap = 0 then (Inl EFAULT, p)
      else case read_obj mem datap 4 of
             Inl e \<Rightarrow> (Inl e, p)
           | Inr (e0 :: u32) \<Rightarrow>
               (case read_obj mem (datap + 12) 4 of
                  Inl e \<Rightarrow> (Inl e, p)
                | Inr (e1 :: u32) \<Rightarrow>
                    let requested = ucast e0 OR push_bit 32 (ucast e1 :: u64)
                    in (Inr 0, p\<lparr>sp_caps := requested AND sp_caps p\<rparr>)))"

datatype sc_outcome = RunCall | Answer u64 | AnswerSigsys u64 | ExitSigsys

definition seccomp_check :: "sc_proc \<Rightarrow> u64 \<Rightarrow> u64 list \<Rightarrow> u64 \<Rightarrow> sc_outcome" where
  "seccomp_check p nr args rip =
     (if \<not> sp_seccomp_active p then RunCall
      else case sp_seccomp p of
             None \<Rightarrow> RunCall
           | Some fl \<Rightarrow>
               (case sc_decide fl nr rip args of
                  Allow \<Rightarrow> RunCall
                | ReturnErrno e \<Rightarrow> Answer (- ucast e)
                | Trap \<Rightarrow> AnswerSigsys (- of_nat (errno_code ENOSYS))
                | KillThread \<Rightarrow> ExitSigsys
                | KillProcess \<Rightarrow> ExitSigsys))"

text \<open>The option parser of \<^verbatim>\<open>fastman run --cap-add\<close>; the shift \<^verbatim>\<open>1u64 << bit\<close> traps for 64 and above.\<close>

datatype 'a trapping = Done 'a | Panics

fun parse_caps_parts :: "u64 \<Rightarrow> string list \<Rightarrow> (string + u64) trapping" where
  "parse_caps_parts m [] = Done (Inr m)"
| "parse_caps_parts m (p # ps) =
     (let part = str_trim p in
      if part = [] then parse_caps_parts m ps
      else if map ascii_upper part = ''ALL'' then Done (Inr CAP_ALL)
      else case cap_by_name part of
             None \<Rightarrow> Done (Inl (''unknown capability '' @ [char_of (39 :: nat)] @ part @ [char_of (39 :: nat)]))
           | Some b \<Rightarrow> if b < 64 then parse_caps_parts (m OR push_bit b 1) ps else Panics)"

definition parse_caps :: "string \<Rightarrow> (string + u64) trapping" where
  "parse_caps s = parse_caps_parts 0 (split_on CHR '','' s)"

section \<open>The instruction set the machine implements\<close>

text \<open>A typed view of the standard instructions, their encoding in \<open>sock_filter\<close>, and what each means
  with no reference to bit fields: a program is run by walking its suffixes, jumps skip instructions,
  and a program that runs off its end kills the process.\<close>

datatype bpf_op = AddOp | SubOp | AndOp | OrOp | LshOp | RshOp
datatype bpf_cc = EqCc | GtCc | GeCc | SetCc
datatype bpf_src = KSrc u32 | XSrc
datatype bpf_insn =
    LdAbs u32 | LdImm u32 | LdLen | LdMem u32 | LdxImm u32 | LdxLen | LdxMem u32
  | Alu bpf_op bpf_src | Ja u32 | Jcc bpf_cc bpf_src u8 u8 | RetK u32 | RetA

fun op_code :: "bpf_op \<Rightarrow> u16" where
  "op_code AddOp = 0x04" | "op_code SubOp = 0x14" | "op_code AndOp = 0x54"
| "op_code OrOp = 0x44" | "op_code LshOp = 0x64" | "op_code RshOp = 0x74"

fun cc_code :: "bpf_cc \<Rightarrow> u16" where
  "cc_code EqCc = 0x15" | "cc_code GtCc = 0x25" | "cc_code GeCc = 0x35" | "cc_code SetCc = 0x45"

fun src_code :: "bpf_src \<Rightarrow> u16" where
  "src_code (KSrc k) = 0x00" | "src_code XSrc = 0x08"

fun src_k :: "bpf_src \<Rightarrow> u32" where
  "src_k (KSrc k) = k" | "src_k XSrc = 0"

fun encode_insn :: "bpf_insn \<Rightarrow> sock_filter" where
  "encode_insn (LdAbs k) = \<lparr>sf_code = 0x20, sf_jt = 0, sf_jf = 0, sf_k = k\<rparr>"
| "encode_insn (LdImm k) = \<lparr>sf_code = 0x00, sf_jt = 0, sf_jf = 0, sf_k = k\<rparr>"
| "encode_insn LdLen = \<lparr>sf_code = 0x80, sf_jt = 0, sf_jf = 0, sf_k = 0\<rparr>"
| "encode_insn (LdMem k) = \<lparr>sf_code = 0x60, sf_jt = 0, sf_jf = 0, sf_k = k\<rparr>"
| "encode_insn (LdxImm k) = \<lparr>sf_code = 0x01, sf_jt = 0, sf_jf = 0, sf_k = k\<rparr>"
| "encode_insn LdxLen = \<lparr>sf_code = 0x81, sf_jt = 0, sf_jf = 0, sf_k = 0\<rparr>"
| "encode_insn (LdxMem k) = \<lparr>sf_code = 0x61, sf_jt = 0, sf_jf = 0, sf_k = k\<rparr>"
| "encode_insn (Alu f s) = \<lparr>sf_code = op_code f OR src_code s, sf_jt = 0, sf_jf = 0, sf_k = src_k s\<rparr>"
| "encode_insn (Ja k) = \<lparr>sf_code = 0x05, sf_jt = 0, sf_jf = 0, sf_k = k\<rparr>"
| "encode_insn (Jcc c s t f) = \<lparr>sf_code = cc_code c OR src_code s, sf_jt = t, sf_jf = f, sf_k = src_k s\<rparr>"
| "encode_insn (RetK k) = \<lparr>sf_code = 0x06, sf_jt = 0, sf_jf = 0, sf_k = k\<rparr>"
| "encode_insn RetA = \<lparr>sf_code = 0x16, sf_jt = 0, sf_jf = 0, sf_k = 0\<rparr>"

fun op_sem :: "bpf_op \<Rightarrow> u32 \<Rightarrow> u32 \<Rightarrow> u32" where
  "op_sem AddOp a v = a + v"
| "op_sem SubOp a v = a - v"
| "op_sem AndOp a v = a AND v"
| "op_sem OrOp a v = a OR v"
| "op_sem LshOp a v = push_bit (unat v mod 32) a"
| "op_sem RshOp a v = drop_bit (unat v mod 32) a"

fun cc_sem :: "bpf_cc \<Rightarrow> u32 \<Rightarrow> u32 \<Rightarrow> bool" where
  "cc_sem EqCc a v = (a = v)"
| "cc_sem GtCc a v = (a > v)"
| "cc_sem GeCc a v = (a \<ge> v)"
| "cc_sem SetCc a v = (a AND v \<noteq> 0)"

fun src_sem :: "bpf_src \<Rightarrow> u32 \<Rightarrow> u32" where
  "src_sem (KSrc k) x = k" | "src_sem XSrc x = x"

function bpf_sem :: "u8 list \<Rightarrow> u32 \<Rightarrow> u32 \<Rightarrow> bpf_insn list \<Rightarrow> u32" where
  "bpf_sem d a x [] = RET_KILL_PROCESS"
| "bpf_sem d a x (LdAbs k # is) =
     (case data_word d k of Some w \<Rightarrow> bpf_sem d w x is | None \<Rightarrow> RET_KILL_PROCESS)"
| "bpf_sem d a x (LdImm k # is) = bpf_sem d k x is"
| "bpf_sem d a x (LdLen # is) = bpf_sem d 64 x is"
| "bpf_sem d a x (LdMem k # is) = bpf_sem d 0 x is"
| "bpf_sem d a x (LdxImm k # is) = bpf_sem d a k is"
| "bpf_sem d a x (LdxLen # is) = bpf_sem d a 64 is"
| "bpf_sem d a x (LdxMem k # is) = bpf_sem d a 0 is"
| "bpf_sem d a x (Alu f s # is) = bpf_sem d (op_sem f a (src_sem s x)) x is"
| "bpf_sem d a x (Ja k # is) = bpf_sem d a x (drop (unat k) is)"
| "bpf_sem d a x (Jcc c s t f # is) =
     bpf_sem d a x (drop (unat (if cc_sem c a (src_sem s x) then t else f)) is)"
| "bpf_sem d a x (RetK k # is) = k"
| "bpf_sem d a x (RetA # is) = a"
  by pat_completeness auto
termination
  by (relation "measure (\<lambda>(d, a, x, is). length is)") auto

text \<open>The same walk over raw instructions: what \<open>run_prog\<close> computes when no step limit is in the way.\<close>

function run_suffix :: "u8 list \<Rightarrow> u32 \<Rightarrow> u32 \<Rightarrow> sock_filter list \<Rightarrow> u32" where
  "run_suffix d a x [] = RET_KILL_PROCESS"
| "run_suffix d a x (i # is) =
     (case bpf_step i d (replicate 16 0) a x 0 of
        Ret r \<Rightarrow> r | Next a' x' n \<Rightarrow> run_suffix d a' x' (drop (n - 1) is))"
  by pat_completeness auto
termination
  by (relation "measure (\<lambda>(d, a, x, is). length is)") auto

lemma bpf_step_shift:
  "bpf_step i d mem a x pc =
     (case bpf_step i d mem a x 0 of Ret r \<Rightarrow> Ret r | Next a' x' n \<Rightarrow> Next a' x' (pc + n))"
  by (simp add: bpf_step_def Let_def split: option.splits)

lemma bpf_step_forward: "bpf_step i d mem a x 0 = Next a' x' n \<Longrightarrow> 0 < n"
  by (auto simp: bpf_step_def Let_def split: option.splits if_splits)

lemma run_loop_suffix:
  assumes "steps \<le> pc" "length prog \<le> 4096"
  shows "run_loop prog d (replicate 16 0) a x pc steps = run_suffix d a x (drop pc prog)"
  using assms
proof (induction "length prog - pc" arbitrary: a x pc steps rule: less_induct)
  case less
  show ?case
  proof (cases "pc < length prog")
    case True
    let ?s = "bpf_step (prog ! pc) d (replicate 16 0) a x 0"
    have dr: "drop pc prog = prog ! pc # drop (Suc pc) prog" using True by (rule Cons_nth_drop_Suc [symmetric])
    show ?thesis
    proof (cases ?s)
      case (Ret r)
      then show ?thesis using True less.prems
        by (subst run_loop.simps) (simp add: dr bpf_step_shift [of _ _ _ _ _ pc])
    next
      case (Next a' x' n)
      then have n: "0 < n" by (rule bpf_step_forward)
      have "run_loop prog d (replicate 16 0) a x pc steps = run_loop prog d (replicate 16 0) a' x' (pc + n) (steps + 1)"
        using True less.prems Next by (subst run_loop.simps) (simp add: bpf_step_shift [of _ _ _ _ _ pc])
      also have "\<dots> = run_suffix d a' x' (drop (pc + n) prog)"
        using n True less.prems by (intro less.hyps) auto
      finally show ?thesis using Next n by (simp add: dr add.commute)
    qed
  next
    case False
    then show ?thesis by (subst run_loop.simps) simp
  qed
qed

lemma run_prog_suffix:
  "length prog \<le> 4096 \<Longrightarrow> run_prog prog d = run_suffix d 0 0 prog"
  by (simp add: run_prog_def run_loop_suffix)

lemma mem_get_zero: "mem_get (replicate 16 0) k = 0"
  by (simp add: mem_get_def)

lemma run_suffix_encode: "run_suffix d a x (map encode_insn is) = bpf_sem d a x is"
proof (induction d a x "is" rule: bpf_sem.induct)
  case (9 d a x f s "is")
  then show ?case
    by (cases f; cases s) (simp_all add: bpf_step_def bpf_alu_def Let_def)
next
  case (11 d a x c s t f "is")
  then show ?case
    by (cases c; cases s) (simp_all add: bpf_step_def bpf_cond_def Let_def drop_map split: if_splits)
qed (simp_all add: bpf_step_def mem_get_zero Let_def drop_map split: option.splits)



section \<open>Stacked filters\<close>

text \<open>How severe an action is, in the order Linux documents, and the return values filters use: an action
  with its data, except that \<open>RET_KILL_PROCESS\<close> carries none.\<close>

fun severity :: "sc_action \<Rightarrow> nat" where
  "severity Allow = 0"
| "severity (ReturnErrno e) = 1"
| "severity Trap = 2"
| "severity KillThread = 3"
| "severity KillProcess = 4"

definition known_ret :: "u32 \<Rightarrow> bool" where
  "known_ret r \<longleftrightarrow> r = RET_KILL_PROCESS \<or>
     r AND RET_ACTION_FULL \<in> set [RET_KILL_THREAD, RET_TRAP, RET_ERRNO, RET_TRACE, RET_LOG, RET_ALLOW]"

lemma more_severe_choice: "more_severe a b = a \<or> more_severe a b = b"
  by (auto simp: more_severe_def)

definition class_severity :: "u32 \<Rightarrow> nat" where
  "class_severity c = (if c = 0x80000000 then 4 else if c = 0 then 3 else if c = 0x30000 then 2
     else if c = 0x50000 then 1 else 0)"

lemma severity_classify: "severity (classify r) = class_severity (r AND RET_ACTION_FULL)"
  by (simp add: classify_def class_severity_def Let_def)

lemma class_severity_antimono:
  assumes "ca \<in> set [RET_KILL_THREAD, RET_TRAP, RET_ERRNO, RET_TRACE, RET_LOG, RET_ALLOW]"
    and "cb \<in> set [RET_KILL_THREAD, RET_TRAP, RET_ERRNO, RET_TRACE, RET_LOG, RET_ALLOW]" and "ca \<le> cb"
  shows "class_severity cb \<le> class_severity ca"
  using assms by (auto simp: class_severity_def)

lemma more_severe_severity:
  assumes "known_ret a" "known_ret b"
  shows "severity (classify (more_severe a b)) = max (severity (classify a)) (severity (classify b))"
proof (cases "a = RET_KILL_PROCESS \<or> b = RET_KILL_PROCESS")
  case True
  have "class_severity c \<le> 4" for c by (simp add: class_severity_def)
  moreover have "class_severity (RET_KILL_PROCESS AND RET_ACTION_FULL) = 4"
    by (simp add: class_severity_def)
  ultimately show ?thesis using True by (auto simp: more_severe_def severity_classify max_def le_antisym)
next
  case False
  then have k: "a AND RET_ACTION_FULL \<in> set [RET_KILL_THREAD, RET_TRAP, RET_ERRNO, RET_TRACE, RET_LOG, RET_ALLOW]"
    "b AND RET_ACTION_FULL \<in> set [RET_KILL_THREAD, RET_TRAP, RET_ERRNO, RET_TRACE, RET_LOG, RET_ALLOW]"
    using assms by (simp_all only: known_ret_def de_Morgan_disj simp_thms)
  note class_severity_antimono [OF k] class_severity_antimono [OF k(2,1)]
  then show ?thesis using False by (auto simp: more_severe_def severity_classify max_def)
qed

lemma more_severe_known: "known_ret a \<Longrightarrow> known_ret b \<Longrightarrow> known_ret (more_severe a b)"
  using more_severe_choice [of a b] by auto

lemma best_of_fold:
  "best_of d (Some r) ps = Some (fold (\<lambda>p cur. more_severe cur (run_prog p d)) ps r)"
  by (induction ps arbitrary: r) (simp_all add: Let_def)

lemma fold_severity:
  "known_ret r \<Longrightarrow> (\<forall>p\<in>set ps. known_ret (run_prog p d)) \<Longrightarrow>
   known_ret (fold (\<lambda>p cur. more_severe cur (run_prog p d)) ps r) \<and>
   severity (classify (fold (\<lambda>p cur. more_severe cur (run_prog p d)) ps r)) =
     fold (\<lambda>p n. max n (severity (classify (run_prog p d)))) ps (severity (classify r))"
  by (induction ps arbitrary: r) (simp_all add: more_severe_known more_severe_severity)

lemma fold_max_eq: "fold (\<lambda>p n. max n (f p)) ps (k :: nat) = Max (insert k (f ` set ps))"
proof (induction ps arbitrary: k)
  case (Cons p ps)
  have "fold (\<lambda>p n. max n (f p)) (p # ps) k = Max (insert (max k (f p)) (f ` set ps))"
    by (simp add: Cons.IH)
  also have "\<dots> = Max (insert k (f ` set (p # ps)))"
    by (cases "set ps = {}") (simp_all add: max.assoc)
  finally show ?case .
qed simp

lemma fold_choice:
  "fold (\<lambda>p cur. more_severe cur (run_prog p d)) ps r \<in> insert r ((\<lambda>p. run_prog p d) ` set ps)"
proof (induction ps arbitrary: r)
  case (Cons p ps)
  show ?case using Cons.IH [of "more_severe r (run_prog p d)"] more_severe_choice [of r "run_prog p d"] by auto
qed simp

lemma decide_severity:
  assumes "\<not> fl_strict fl" "\<forall>p\<in>set (fl_progs fl). known_ret (run_prog p (data_new nr ip args))"
  shows "severity (sc_decide fl nr ip args) =
    Max (insert 0 ((\<lambda>p. severity (classify (run_prog p (data_new nr ip args)))) ` set (fl_progs fl)))"
proof (cases "fl_progs fl")
  case (Cons p ps)
  then show ?thesis using assms
    by (simp add: sc_decide_def best_of_fold fold_severity fold_max_eq)
qed (simp add: assms sc_decide_def)

text \<open>C19 (most severe filter wins). Outside strict mode, when every installed filter returns one of the
  documented actions, the action taken for a system call is the answer of one of the filters (or \<open>Allow\<close>
  when none is installed), and no filter asked for a more severe one.\<close>

theorem seccomp_most_severe_wins:
  assumes "\<not> fl_strict fl"
    and "\<forall>p\<in>set (fl_progs fl). known_ret (run_prog p (data_new nr ip args))"
  shows "(if fl_progs fl = [] then sc_decide fl nr ip args = Allow
          else \<exists>p\<in>set (fl_progs fl). sc_decide fl nr ip args = classify (run_prog p (data_new nr ip args)))
    \<and> (\<forall>p\<in>set (fl_progs fl).
          severity (classify (run_prog p (data_new nr ip args))) \<le> severity (sc_decide fl nr ip args))"
proof
  show "if fl_progs fl = [] then sc_decide fl nr ip args = Allow
          else \<exists>p\<in>set (fl_progs fl). sc_decide fl nr ip args = classify (run_prog p (data_new nr ip args))"
  proof (cases "fl_progs fl")
    case (Cons p ps)
    then show ?thesis using assms(1) fold_choice [of "data_new nr ip args" ps "run_prog p (data_new nr ip args)"]
      by (auto simp: sc_decide_def best_of_fold)
  qed (simp add: sc_decide_def assms)
qed (simp add: decide_severity [OF assms])

theorem seccomp_most_severe_wins_witness:
  "severity (classify (run_prog (map encode_insn [RetK 0x00050001])
       (data_new 59 0 []))) \<le> severity (sc_decide \<lparr>fl_strict = False,
         fl_progs = [map encode_insn [RetK 0x7fff0000], map encode_insn [RetK 0x00050001]]\<rparr> 59 0 [])"
  using seccomp_most_severe_wins [of "\<lparr>fl_strict = False,
      fl_progs = [map encode_insn [RetK 0x7fff0000], map encode_insn [RetK 0x00050001]]\<rparr>" 59 0 "[]"]
  by (simp add: run_prog_suffix bpf_step_def Let_def known_ret_def)

text \<open>Two ways the combination is weaker than documented: a kill verdict that carries data is not
  recognised by \<open>more_severe\<close> and loses to a filter that allows, and a process whose filters deny a call
  regains it by entering strict mode, where the filters no longer run.\<close>

lemma seccomp_kill_with_data_loses:
  "classify 0x80000001 = KillProcess \<and>
   sc_decide \<lparr>fl_strict = False, fl_progs = [map encode_insn [RetK 0x80000001], map encode_insn [RetK 0x7fff0000]]\<rparr> nr ip args
     = Allow"
  by (simp add: sc_decide_def run_prog_suffix bpf_step_def Let_def more_severe_def classify_def)

lemma seccomp_strict_relaxes:
  assumes "fl = \<lparr>fl_strict = False, fl_progs = [map encode_insn [RetK 0x00050001]]\<rparr>"
    and "p = \<lparr>sp_no_new_privs = True, sp_caps = 0, sp_seccomp = Some fl, sp_seccomp_active = True\<rparr>"
  shows "seccomp_check p 1 args rip = Answer (- 1) \<and> seccomp_check (set_strict p) 1 args rip = RunCall"
  by (simp add: assms seccomp_check_def set_strict_def sc_decide_def run_prog_suffix bpf_step_def
      Let_def more_severe_def classify_def)

lemma parse_caps_panics: "parse_caps ''64'' = Panics"
  by (simp add: parse_caps_def str_trim_def is_ascii_space_def cap_by_name_def ascii_upper_def strip_cap_prefix_def
      parse_unsigned_def to_digit_def Let_def)

section \<open>What a process can do to its own privileges\<close>

text \<open>One privilege-changing call of a running process, with whatever its memory holds at that time.\<close>

inductive priv_step :: "sc_proc \<Rightarrow> sc_proc \<Rightarrow> bool" where
  step_prctl: "priv_step p (snd (prctl mem opt arg2 arg3 p))"
| step_seccomp: "priv_step p (snd (seccomp mem op args p))"
| step_capset: "priv_step p (snd (capset mem hdrp datap p))"

definition progs_of :: "sc_proc \<Rightarrow> sock_filter list list" where
  "progs_of p = (case sp_seccomp p of None \<Rightarrow> [] | Some fl \<Rightarrow> fl_progs fl)"

definition strict_of :: "sc_proc \<Rightarrow> bool" where
  "strict_of p = (case sp_seccomp p of None \<Rightarrow> False | Some fl \<Rightarrow> fl_strict fl)"

text \<open>The order in which a process loses privileges.\<close>

definition priv_le :: "sc_proc \<Rightarrow> sc_proc \<Rightarrow> bool" where
  "priv_le p' p \<longleftrightarrow>
     (\<forall>n. bit (sp_caps p') n \<longrightarrow> bit (sp_caps p) n) \<and> (sp_no_new_privs p \<longrightarrow> sp_no_new_privs p') \<and>
     (strict_of p \<longrightarrow> strict_of p') \<and> (\<exists>new. progs_of p' = progs_of p @ new)"

definition priv_ok :: "sc_proc \<Rightarrow> bool" where
  "priv_ok p \<longleftrightarrow> sp_seccomp_active p = (sp_seccomp p \<noteq> None) \<and> list_all (\<lambda>q. 0 < length q \<and> length q \<le> 4096) (progs_of p)"

lemma priv_le_refl [simp]: "priv_le p p"
  by (simp add: priv_le_def)

lemma priv_le_trans: "priv_le r q \<Longrightarrow> priv_le q p \<Longrightarrow> priv_le r p"
  by (auto simp: priv_le_def)

lemma read_insns_length: "read_insns mem base n = Inr is \<Longrightarrow> length is = n"
  by (induction n arbitrary: base "is") (auto simp: kbind_Inr)

lemma read_fprog_length: "read_fprog mem ptr = Inr is \<Longrightarrow> 0 < length is \<and> length is \<le> 4096"
  by (auto simp: read_fprog_def kbind_Inr unat_eq_zero dest!: read_insns_length split: if_splits)

lemma install_filter_priv:
  "install_filter mem ptr p = (r, p') \<Longrightarrow> priv_le p' p \<and> (priv_ok p \<longrightarrow> priv_ok p')"
  by (auto simp: install_filter_def Let_def priv_le_def priv_ok_def progs_of_def strict_of_def filters_default_def
      dest!: read_fprog_length split: if_splits sum.splits option.splits)

lemma set_strict_priv: "priv_le (set_strict p) p \<and> (priv_ok p \<longrightarrow> priv_ok (set_strict p))"
  by (auto simp: set_strict_def priv_le_def priv_ok_def progs_of_def strict_of_def split: option.splits)

lemma sc_unit_install_priv:
  "priv_le (snd (sc_unit (install_filter mem ptr p))) p \<and> (priv_ok p \<longrightarrow> priv_ok (snd (sc_unit (install_filter mem ptr p))))"
  using install_filter_priv [of mem ptr p] by (cases "install_filter mem ptr p") (auto simp: sc_unit_def split: option.splits)

lemma caps_subset_priv:
  "(\<And>n. bit c n \<Longrightarrow> bit (sp_caps p) n) \<Longrightarrow> priv_le (p\<lparr>sp_caps := c\<rparr>) p \<and> (priv_ok p \<longrightarrow> priv_ok (p\<lparr>sp_caps := c\<rparr>))"
  by (auto simp: priv_le_def priv_ok_def progs_of_def strict_of_def)

lemma priv_step_le: "priv_step p p' \<Longrightarrow> priv_le p' p \<and> (priv_ok p \<longrightarrow> priv_ok p')"
proof (induction rule: priv_step.induct)
  case (step_prctl p mem opt arg2 arg3)
  have "priv_le (p\<lparr>sp_no_new_privs := True\<rparr>) p \<and> (priv_ok p \<longrightarrow> priv_ok (p\<lparr>sp_no_new_privs := True\<rparr>))"
    by (simp add: priv_le_def priv_ok_def progs_of_def strict_of_def)
  moreover have "bit (sp_caps p AND NOT (push_bit n 1)) i \<Longrightarrow> bit (sp_caps p) i" for n i
    by (simp add: bit_and_iff)
  ultimately show ?case
    using set_strict_priv [of p] sc_unit_install_priv [of mem "unat arg3" p] caps_subset_priv [of _ p]
    by (simp add: prctl_def)
next
  case (step_seccomp p mem op args)
  then show ?case using set_strict_priv sc_unit_install_priv by (simp add: seccomp_def)
next
  case (step_capset p mem hdrp datap)
  have "bit (q AND sp_caps p) n \<Longrightarrow> bit (sp_caps p) n" for q :: u64 and n by (simp add: bit_and_iff)
  then show ?case by (simp add: capset_def Let_def caps_subset_priv split: sum.splits)
qed

lemma priv_steps_le: "priv_step\<^sup>*\<^sup>* p p' \<Longrightarrow> priv_le p' p \<and> (priv_ok p \<longrightarrow> priv_ok p')"
  by (induction rule: rtranclp_induct) (auto dest: priv_step_le priv_le_trans)

text \<open>C15 (privileges only shrink). Whatever \<open>prctl\<close>, \<open>seccomp\<close> and \<open>capset\<close> calls a process makes, it never
  holds a capability it did not hold before, \<open>no_new_privs\<close> and strict mode stay set once set, filters
  are only added, and every call that a strict process makes outside the five allowed ones kills it.\<close>

theorem seccomp_privileges_shrink:
  assumes "priv_step\<^sup>*\<^sup>* p p'" and "priv_ok p"
  shows "(\<forall>c. has_cap (sp_caps p') c \<longrightarrow> has_cap (sp_caps p) c) \<and>
    (sp_no_new_privs p \<longrightarrow> sp_no_new_privs p') \<and>
    (\<exists>new. progs_of p' = progs_of p @ new) \<and>
    (strict_of p \<longrightarrow> nr \<notin> {0, 1, 15, 60, 231} \<longrightarrow> seccomp_check p' nr args rip = ExitSigsys)"
proof (intro conjI allI impI)
  have le: "priv_le p' p" and ok: "priv_ok p'" using priv_steps_le [OF assms(1)] assms(2) by auto
  fix c assume "has_cap (sp_caps p') c"
  then show "has_cap (sp_caps p) c" using le
    by (auto simp: has_cap_def priv_le_def and_exp_eq_0_iff_not_bit push_bit_eq_mult)
next
  have le: "priv_le p' p" and ok: "priv_ok p'" using priv_steps_le [OF assms(1)] assms(2) by auto
  show "sp_no_new_privs p \<Longrightarrow> sp_no_new_privs p'" "\<exists>new. progs_of p' = progs_of p @ new"
    using le by (auto simp: priv_le_def)
  assume "strict_of p" "nr \<notin> {0, 1, 15, 60, 231}"
  then show "seccomp_check p' nr args rip = ExitSigsys" using le ok
    by (auto simp: priv_le_def priv_ok_def strict_of_def seccomp_check_def sc_decide_def split: option.splits)
qed

theorem seccomp_privileges_shrink_witness:
  "seccomp_check (set_strict \<lparr>sp_no_new_privs = False, sp_caps = 0, sp_seccomp = None, sp_seccomp_active = False\<rparr>) 59 [] 0 = ExitSigsys"
proof -
  let ?p = "set_strict \<lparr>sp_no_new_privs = False, sp_caps = 0, sp_seccomp = None, sp_seccomp_active = False\<rparr>"
  have ok: "priv_ok ?p" and st: "strict_of ?p"
    by (simp_all add: priv_ok_def set_strict_def progs_of_def strict_of_def)
  show ?thesis
    using seccomp_privileges_shrink [of ?p ?p 59 "[]" 0] ok st by simp
qed

definition decision :: "sc_proc \<Rightarrow> u64 \<Rightarrow> u64 \<Rightarrow> u64 list \<Rightarrow> sc_action" where
  "decision p nr ip args = (case sp_seccomp p of None \<Rightarrow> Allow | Some fl \<Rightarrow> sc_decide fl nr ip args)"

lemma decision_severity:
  assumes "\<not> strict_of p" "\<forall>q\<in>set (progs_of p). known_ret (run_prog q (data_new nr ip args))"
  shows "severity (decision p nr ip args) =
    Max (insert 0 ((\<lambda>q. severity (classify (run_prog q (data_new nr ip args)))) ` set (progs_of p)))"
  using assms by (auto simp: decision_def strict_of_def progs_of_def decide_severity split: option.splits)

text \<open>As long as a process does not enter strict mode, and its filters return
  documented actions, none of its \<open>prctl\<close>, \<open>seccomp\<close> and \<open>capset\<close> calls makes the verdict on any system
  call less severe.\<close>

theorem seccomp_verdict_monotone:
  assumes "priv_step\<^sup>*\<^sup>* p p'" and "\<not> strict_of p'"
    and "\<forall>q\<in>set (progs_of p'). known_ret (run_prog q (data_new nr ip args))"
  shows "severity (decision p nr ip args) \<le> severity (decision p' nr ip args)"
proof -
  have le: "priv_le p' p" using priv_steps_le [OF assms(1)] by simp
  then have st: "\<not> strict_of p" and sub: "set (progs_of p) \<subseteq> set (progs_of p')"
    using assms(2) by (auto simp: priv_le_def)
  then have "\<forall>q\<in>set (progs_of p). known_ret (run_prog q (data_new nr ip args))" using assms(3) by blast
  note eqs = decision_severity [OF st this] decision_severity [OF assms(2,3)]
  show ?thesis unfolding eqs by (rule Max_mono) (use sub in auto)
qed

definition demo_proc :: "filters option \<Rightarrow> sc_proc" where
  "demo_proc fl = \<lparr>sp_no_new_privs = True, sp_caps = 0, sp_seccomp = fl, sp_seccomp_active = (fl \<noteq> None)\<rparr>"

theorem seccomp_verdict_monotone_witness:
  "severity (decision (demo_proc (Some \<lparr>fl_strict = False, fl_progs = [map encode_insn [RetK 0x00030000]]\<rparr>)) 59 0 [])
   \<le> severity (decision (snd (prctl (\<lambda>_. None) PR_CAPBSET_DROP 3 0
       (demo_proc (Some \<lparr>fl_strict = False, fl_progs = [map encode_insn [RetK 0x00030000]]\<rparr>)))) 59 0 [])"
  by (rule seccomp_verdict_monotone)
    (auto intro: r_into_rtranclp priv_step.intros
      simp: prctl_def demo_proc_def strict_of_def progs_of_def
        run_prog_suffix bpf_step_def Let_def known_ret_def)

section \<open>Capability names\<close>

lemma digit_plain: "is_ascii_digit c \<Longrightarrow> \<not> is_ascii_space c \<and> ascii_upper c = c"
  by (auto simp: is_ascii_digit_def is_ascii_space_def ascii_upper_def Let_def)

lemma cap_number_text: "n < 2 ^ 32 \<Longrightarrow> cap_by_name (''CAP_'' @ dec_str n) = Some n"
proof -
  assume n: "n < 2 ^ 32"
  have "list_all (\<lambda>c. \<not> is_ascii_space c \<and> ascii_upper c = c) (''CAP_'' @ dec_str n)"
    using digit_plain dec_str_digits by (auto simp: list_all_iff is_ascii_space_def ascii_upper_def Let_def)
  then have "map ascii_upper (str_trim (''CAP_'' @ dec_str n)) = ''CAP_'' @ dec_str n"
    by (subst str_trim_id) (auto simp: list_all_iff intro: map_idI)
  moreover have "is_ascii_digit (hd (dec_str n))" by (rule dec_str_digits [of _ n]) simp
  then have "dec_str n \<noteq> CHR ''N'' # x" "dec_str n \<noteq> CHR ''S'' # x" "dec_str n \<noteq> CHR ''C'' # x"
    "dec_str n \<noteq> CHR ''D'' # x" "dec_str n \<noteq> CHR ''K'' # x" "dec_str n \<noteq> CHR ''M'' # x" for x
    by (auto simp: is_ascii_digit_def)
  ultimately show ?thesis using n by (simp add: cap_by_name_def strip_cap_prefix_def Let_def)
qed

text \<open>Every capability number prints to a name that reads back as the same number,
  whether or not it has a symbolic name.\<close>

theorem cap_name_roundtrip:
  assumes "c < 2 ^ 32"
  shows "cap_by_name (cap_text c) = Some c"
proof (cases "cap_name c")
  case None
  then show ?thesis using assms cap_number_text by (simp add: cap_text_def)
next
  case (Some s)
  then have "c = 0 \<or> c = 1 \<or> c = 5 \<or> c = 6 \<or> c = 7 \<or> c = 10 \<or> c = 12 \<or> c = 13 \<or> c = 18 \<or> c = 19
      \<or> c = 21 \<or> c = 22 \<or> c = 27"
    by (simp add: cap_name_def split: if_splits)
  then show ?thesis
    by (elim disjE; simp add: cap_name_def cap_text_def cap_by_name_def str_trim_def is_ascii_space_def
        ascii_upper_def strip_cap_prefix_def Let_def)
qed

theorem cap_name_roundtrip_witness: "cap_by_name (cap_text 21) = Some 21"
  using cap_name_roundtrip [of 21] by simp

end
