(* ===== verification/Cgroup.thy ===== *)
theory Cgroup
  imports Prelude
begin

text \<open>
  Per-container resource limits, \<^verbatim>\<open>kernel/src/cgroup.rs\<close>. The table maps container ids to a record of
  limits and live counters. The counters are the 64-bit patterns of the source's \<^verbatim>\<open>AtomicI64\<close>: atomic
  additions wrap and \<^verbatim>\<open>as u64\<close> reads the pattern unsigned. A charge is two atomic operations, the
  addition and its back-out when the limit was reached, so that the last section can interleave the
  charges of many tasks.
\<close>

definition PAGE :: nat where "PAGE = 4096"

record cgroup =
  cg_mem_limit_pages :: u64
  cg_swap_limit_pages :: u64
  cg_pids_limit :: u32
  cg_mem_pages :: u64
  cg_swap_pages :: u64
  cg_pids :: u32

type_synonym cgroups = "string \<Rightarrow> cgroup option"

definition cgroup_fresh :: cgroup where
  "cgroup_fresh = \<lparr>cg_mem_limit_pages = 0, cg_swap_limit_pages = 0, cg_pids_limit = 0,
     cg_mem_pages = 0, cg_swap_pages = 0, cg_pids = 0\<rparr>"

definition get :: "cgroups \<Rightarrow> string \<Rightarrow> cgroup option" where
  "get t cid = t cid"

definition limit_pages :: "u64 \<Rightarrow> u64" where
  "limit_pages mem_bytes = of_nat (div_ceil (unat mem_bytes) PAGE)"

definition create :: "cgroups \<Rightarrow> string \<Rightarrow> u64 \<Rightarrow> u32 \<Rightarrow> cgroups" where
  "create t cid mem_bytes pids =
     (let cg = (case get t cid of Some cg \<Rightarrow> cg | None \<Rightarrow> cgroup_fresh);
          mem_pages = limit_pages mem_bytes
      in t(cid \<mapsto> cg\<lparr>cg_mem_limit_pages := mem_pages, cg_swap_limit_pages := mem_pages, cg_pids_limit := pids,
             cg_mem_pages := 0, cg_swap_pages := 0, cg_pids := 0\<rparr>))"

definition set_limits :: "cgroups \<Rightarrow> string \<Rightarrow> u64 \<Rightarrow> u32 \<Rightarrow> cgroups" where
  "set_limits t cid mem_bytes pids =
     (let cg = (case get t cid of Some cg \<Rightarrow> cg | None \<Rightarrow> cgroup_fresh);
          mem_pages = limit_pages mem_bytes
      in t(cid \<mapsto> cg\<lparr>cg_mem_limit_pages := mem_pages, cg_swap_limit_pages := mem_pages, cg_pids_limit := pids\<rparr>))"

definition remove_cg :: "cgroups \<Rightarrow> string \<Rightarrow> cgroups" where
  "remove_cg t cid = t(cid := None)"

text \<open>One successful round of the compare-and-swap loop; \<open>cur + 1\<close> traps at the top of \<^verbatim>\<open>u32\<close>, the
  result \<open>None\<close>.\<close>

definition try_add_pid :: "cgroups \<Rightarrow> string \<Rightarrow> (bool \<times> cgroups) option" where
  "try_add_pid t cid =
     (case get t cid of
        None \<Rightarrow> Some (True, t)
      | Some cg \<Rightarrow>
          if cg_pids_limit cg \<noteq> 0 \<and> cg_pids_limit cg \<le> cg_pids cg then Some (False, t)
          else if cg_pids cg = - 1 then None
          else Some (True, t(cid \<mapsto> cg\<lparr>cg_pids := cg_pids cg + 1\<rparr>)))"

definition saturating_sub :: "'a::len word \<Rightarrow> 'a word \<Rightarrow> 'a word" where
  "saturating_sub a b = (if b \<le> a then a - b else 0)"

definition sub_pid :: "cgroups \<Rightarrow> string \<Rightarrow> u32 \<Rightarrow> cgroups" where
  "sub_pid t cid n =
     (case get t cid of
        None \<Rightarrow> t
      | Some cg \<Rightarrow> t(cid \<mapsto> cg\<lparr>cg_pids := saturating_sub (cg_pids cg) n\<rparr>))"

text \<open>The atomic steps of \<open>try_charge_page\<close>: \<^verbatim>\<open>fetch_add\<close> with the test of the old value, and the
  \<^verbatim>\<open>fetch_sub\<close> that undoes it.\<close>

definition charge_add :: "cgroup \<Rightarrow> bool \<times> cgroup" where
  "charge_add cg = (cg_mem_limit_pages cg \<le> cg_mem_pages cg, cg\<lparr>cg_mem_pages := cg_mem_pages cg + 1\<rparr>)"

definition charge_undo :: "cgroup \<Rightarrow> cgroup" where
  "charge_undo cg = cg\<lparr>cg_mem_pages := cg_mem_pages cg - 1\<rparr>"

definition try_charge_page :: "cgroups \<Rightarrow> string \<Rightarrow> bool \<times> cgroups" where
  "try_charge_page t cid =
     (case get t cid of
        None \<Rightarrow> (True, t)
      | Some cg \<Rightarrow>
          if cg_mem_limit_pages cg = 0 then (True, t)
          else let (over, cg') = charge_add cg
               in if over then (False, t(cid \<mapsto> charge_undo cg')) else (True, t(cid \<mapsto> cg')))"

definition uncharge_pages :: "cgroups \<Rightarrow> string \<Rightarrow> u64 \<Rightarrow> cgroups" where
  "uncharge_pages t cid n =
     (if n = 0 then t
      else case get t cid of
             None \<Rightarrow> t
           | Some cg \<Rightarrow> t(cid \<mapsto> cg\<lparr>cg_mem_pages := cg_mem_pages cg - n\<rparr>))"

definition try_charge_swap :: "cgroups \<Rightarrow> string \<Rightarrow> bool \<times> cgroups" where
  "try_charge_swap t cid =
     (case get t cid of
        None \<Rightarrow> (True, t)
      | Some cg \<Rightarrow>
          if cg_swap_limit_pages cg = 0 then (True, t)
          else let old = cg_swap_pages cg; cg' = cg\<lparr>cg_swap_pages := old + 1\<rparr>
               in if cg_swap_limit_pages cg \<le> old
                  then (False, t(cid \<mapsto> cg'\<lparr>cg_swap_pages := cg_swap_pages cg' - 1\<rparr>))
                  else (True, t(cid \<mapsto> cg')))"

definition uncharge_swap :: "cgroups \<Rightarrow> string \<Rightarrow> u64 \<Rightarrow> cgroups" where
  "uncharge_swap t cid n =
     (if n = 0 then t
      else case get t cid of
             None \<Rightarrow> t
           | Some cg \<Rightarrow> t(cid \<mapsto> cg\<lparr>cg_swap_pages := cg_swap_pages cg - n\<rparr>))"

text \<open>\<open>usage\<close>: the products trap when they leave 64 bits (outer \<open>None\<close>).\<close>

definition chk_mul_page :: "nat \<Rightarrow> nat option" where
  "chk_mul_page n = (if n * PAGE < 2 ^ 64 then Some (n * PAGE) else None)"

definition usage :: "cgroups \<Rightarrow> string \<Rightarrow> (nat \<times> nat \<times> u32 \<times> u32) option option" where
  "usage t cid =
     (case get t cid of
        None \<Rightarrow> Some None
      | Some cg \<Rightarrow>
          (case (chk_mul_page (nat (max (sint (cg_mem_pages cg)) 0)), chk_mul_page (unat (cg_mem_limit_pages cg))) of
             (Some used, Some limit) \<Rightarrow> Some (Some (used, limit, cg_pids cg, cg_pids_limit cg))
           | _ \<Rightarrow> None))"

section \<open>Sequential behaviour\<close>

lemma div_ceil_eq: "0 < d \<Longrightarrow> div_ceil n d = (n + (d - 1)) div d"
proof -
  assume d: "0 < d"
  have "n + (d - 1) = (n mod d + (d - 1)) + n div d * d" by simp
  then have "(n + (d - 1)) div d = n div d + (n mod d + (d - 1)) div d"
    using d by (metis add.commute div_mult_self3 less_irrefl)
  moreover have "(n mod d + (d - 1)) div d = 1" if "n mod d \<noteq> 0"
  proof -
    have "n mod d + (d - 1) = (n mod d - 1) + 1 * d" using that d by simp
    moreover have "(n mod d - 1) div d = 0" using mod_less_divisor [OF d, of n] by (intro div_less) simp
    ultimately show ?thesis using d by (metis add.commute add_0 div_mult_self3 less_irrefl)
  qed
  ultimately show ?thesis using d by (simp add: div_ceil_def)
qed

lemma limit_pages_bound: "unat (limit_pages b) = (unat b + (PAGE - 1)) div PAGE"
proof -
  have b: "unat b < 2 ^ 64" using unsigned_less [of b] by simp
  have eq: "div_ceil (unat b) PAGE = (unat b + (PAGE - 1)) div PAGE"
    by (rule div_ceil_eq) (simp add: PAGE_def)
  moreover have "(unat b + (PAGE - 1)) div PAGE < 2 ^ 64" using b by (simp add: PAGE_def)
  ultimately show ?thesis unfolding limit_pages_def eq by (simp add: unat_of_nat take_bit_nat_eq_self)
qed

lemma limit_pages_small: "unat (limit_pages b) \<le> 2 ^ 52"
proof -
  have "unat b < 2 ^ 64" using unsigned_less [of b] by simp
  then show ?thesis by (simp add: limit_pages_bound PAGE_def)
qed

lemma word_less_Suc_le: "(a :: 'a::len word) < b \<Longrightarrow> a + 1 \<le> b"
  by (simp add: inc_le)

text \<open>A container that runs without a memory limit releases pages that were never counted; as soon as a
  limit is set on it, every further page is refused, however large the limit.\<close>

lemma uncounted_release_blocks_container:
  assumes "0 < b"
  shows "fst (try_charge_page (set_limits (uncharge_pages (create (\<lambda>_. None) cid 0 0) cid 1) cid b 0) cid) = False"
proof -
  have l: "unat (limit_pages b) \<le> 2 ^ 52" by (rule limit_pages_small)
  have "unat b \<noteq> 0" using assms by (simp add: word_greater_zero_iff unat_eq_zero)
  then have "unat (limit_pages b) \<noteq> 0" unfolding limit_pages_bound PAGE_def by simp
  then have nz: "limit_pages b \<noteq> 0" by auto
  have "limit_pages b \<le> - 1" by simp
  then show ?thesis using nz
    by (simp add: try_charge_page_def set_limits_def uncharge_pages_def create_def get_def charge_add_def
        cgroup_fresh_def Let_def limit_pages_def div_ceil_def)
qed

text \<open>Starting from a fresh container with a positive task limit, adding and removing
  tasks in any order never makes the task count exceed the limit, and an addition is refused exactly when
  the count has reached it.\<close>

fun pid_ops :: "cgroups \<Rightarrow> string \<Rightarrow> u32 option list \<Rightarrow> cgroups option" where
  "pid_ops t cid [] = Some t"
| "pid_ops t cid (None # xs) = (case try_add_pid t cid of None \<Rightarrow> None | Some (_, t') \<Rightarrow> pid_ops t' cid xs)"
| "pid_ops t cid (Some n # xs) = pid_ops (sub_pid t cid n) cid xs"

lemma saturating_sub_le: "saturating_sub a b \<le> a"
  by (simp add: saturating_sub_def word_le_nat_alt unat_sub_if')

lemma pid_ops_limit:
  assumes "t cid = Some cg" "cg_pids_limit cg = L" "L \<noteq> 0" "cg_pids cg \<le> L"
  shows "\<exists>t' cg'. pid_ops t cid xs = Some t' \<and> t' cid = Some cg' \<and> cg_pids_limit cg' = L \<and> cg_pids cg' \<le> L"
  using assms
proof (induction t cid xs arbitrary: cg rule: pid_ops.induct)
  case (2 t cid xs)
  show ?case
  proof (cases "L \<le> cg_pids cg")
    case True
    then show ?thesis using 2 by (simp add: try_add_pid_def get_def)
  next
    case False
    then have "cg_pids cg < L" by simp
    then have "cg_pids cg + 1 \<le> L" "cg_pids cg \<noteq> - 1"
      using word_less_Suc_le by auto
    then show ?thesis using 2(1) [OF _ refl] 2(2-) False by (simp add: try_add_pid_def get_def)
  qed
next
  case (3 t cid n xs)
  have le: "saturating_sub (cg_pids cg) n \<le> L"
    using saturating_sub_le [of "cg_pids cg" n] 3(5) by (rule order.trans)
  show ?case unfolding pid_ops.simps
    by (rule 3(1) [of "cg\<lparr>cg_pids := saturating_sub (cg_pids cg) n\<rparr>"]) (use 3 le in \<open>simp_all add: sub_pid_def get_def\<close>)
qed simp

theorem cgroup_pids_bounded:
  assumes "0 < limit"
  shows "\<exists>t cg. pid_ops (create t0 cid mem limit) cid xs = Some t \<and> t cid = Some cg \<and>
    cg_pids cg \<le> limit \<and> map_option fst (try_add_pid t cid) = Some (cg_pids cg < limit)"
proof -
  obtain t cg where *: "pid_ops (create t0 cid mem limit) cid xs = Some t" "t cid = Some cg"
    "cg_pids_limit cg = limit" "cg_pids cg \<le> limit"
    using pid_ops_limit [of "create t0 cid mem limit" cid _ limit xs] assms
    by (force simp: create_def get_def Let_def)
  have "cg_pids cg < limit \<Longrightarrow> cg_pids cg \<noteq> - 1" by auto
  then have "map_option fst (try_add_pid t cid) = Some (cg_pids cg < limit)"
    using * assms by (auto simp: try_add_pid_def get_def not_le)
  then show ?thesis using * by blast
qed

theorem cgroup_pids_bounded_witness:
  "\<exists>t cg. pid_ops (create (\<lambda>_. None) ''c1'' 0 2) ''c1'' [None, None, None, Some 1, None] = Some t \<and> t ''c1'' = Some cg \<and>
    cg_pids cg \<le> 2 \<and> map_option fst (try_add_pid t ''c1'') = Some (cg_pids cg < 2)"
  by (rule cgroup_pids_bounded) simp

section \<open>Interleaved charges\<close>

text \<open>Many tasks of one container charge and release pages at once. The state holds the shared cgroup, the
  number of pages currently granted, and the number of tasks between their \<open>fetch_add\<close> and its undo. At
  most \<open>2^32\<close> tasks are in flight.\<close>

record charging =
  ch_cg :: cgroup
  ch_granted :: nat
  ch_undoing :: nat

inductive charge_step :: "charging \<Rightarrow> charging \<Rightarrow> bool" where
  step_grant: "charge_add (ch_cg s) = (False, cg) \<Longrightarrow>
    charge_step s (s\<lparr>ch_cg := cg, ch_granted := ch_granted s + 1\<rparr>)"
| step_refuse: "charge_add (ch_cg s) = (True, cg) \<Longrightarrow> ch_undoing s < 2 ^ 32 \<Longrightarrow>
    charge_step s (s\<lparr>ch_cg := cg, ch_undoing := ch_undoing s + 1\<rparr>)"
| step_undo: "0 < ch_undoing s \<Longrightarrow>
    charge_step s (s\<lparr>ch_cg := charge_undo (ch_cg s), ch_undoing := ch_undoing s - 1\<rparr>)"
| step_release: "n \<le> ch_granted s \<Longrightarrow>
    uncharge_pages [cid \<mapsto> ch_cg s] cid (of_nat n) cid = Some cg \<Longrightarrow>
    charge_step s (s\<lparr>ch_cg := cg, ch_granted := ch_granted s - n\<rparr>)"

definition charge_inv :: "u64 \<Rightarrow> charging \<Rightarrow> bool" where
  "charge_inv L s \<longleftrightarrow> cg_mem_limit_pages (ch_cg s) = L \<and>
     cg_mem_pages (ch_cg s) = of_nat (ch_granted s + ch_undoing s) \<and>
     ch_granted s \<le> unat L \<and> ch_undoing s \<le> 2 ^ 32"

lemma charge_inv_step:
  assumes "charge_step s s'" "charge_inv L s" "unat L \<le> 2 ^ 52"
  shows "charge_inv L s'"
  using assms
proof (induction rule: charge_step.induct)
  case (step_grant s cg)
  have "unat (of_nat (ch_granted s + ch_undoing s) :: u64) = ch_granted s + ch_undoing s"
    using step_grant.prems by (intro unat_of_nat_eq) (auto simp: charge_inv_def)
  moreover have "(of_nat (ch_granted s + ch_undoing s) :: u64) < L"
    using step_grant by (auto simp: charge_add_def charge_inv_def not_le)
  ultimately have "ch_granted s + ch_undoing s < unat L" by (simp add: word_less_nat_alt)
  then show ?case using step_grant by (auto simp: charge_add_def charge_inv_def)
next
  case (step_release n s cid cg)
  then show ?case
    by (auto simp: uncharge_pages_def get_def charge_inv_def of_nat_diff split: if_splits)
qed (auto simp: charge_add_def charge_undo_def charge_inv_def of_nat_diff)



end
