(* ===== verification/Glob.thy ===== *)
theory Glob
  imports Prelude "HOL-Library.Char_ord" "HOL-Library.List_Lexorder" "HOL-Library.Sublist"
begin

text \<open>
  Shell pattern matching and pathname expansion, \<^verbatim>\<open>lib/sh/src/pattern.rs\<close>. Patterns and names are
  strings of ASCII characters; the named classes are the ASCII restrictions of the Unicode predicates the
  source calls. The loop of \<open>match_at\<close> is a partial function whose result \<open>None\<close> would mean that it does
  not end; the directory reader that \<open>glob\<close> is given is a function from directory names to entries.
\<close>

section \<open>Bracket expressions\<close>

definition in_range :: "nat \<Rightarrow> nat \<Rightarrow> char \<Rightarrow> bool" where
  "in_range lo hi c \<longleftrightarrow> lo \<le> of_char c \<and> of_char c \<le> hi"

definition is_upper :: "char \<Rightarrow> bool" where "is_upper = in_range 65 90"
definition is_lower :: "char \<Rightarrow> bool" where "is_lower = in_range 97 122"
definition is_digit :: "char \<Rightarrow> bool" where "is_digit = in_range 48 57"
definition is_control :: "char \<Rightarrow> bool" where "is_control c \<longleftrightarrow> in_range 0 31 c \<or> in_range 127 127 c"
definition is_space_char :: "char \<Rightarrow> bool" where "is_space_char c \<longleftrightarrow> in_range 9 13 c \<or> in_range 32 32 c"
definition is_punct :: "char \<Rightarrow> bool" where
  "is_punct c \<longleftrightarrow> in_range 33 47 c \<or> in_range 58 64 c \<or> in_range 91 96 c \<or> in_range 123 126 c"
definition is_xdigit :: "char \<Rightarrow> bool" where
  "is_xdigit c \<longleftrightarrow> is_digit c \<or> in_range 65 70 c \<or> in_range 97 102 c"

definition class_match :: "string \<Rightarrow> char \<Rightarrow> bool" where
  "class_match cls c =
     (if cls = ''alpha'' then is_upper c \<or> is_lower c
      else if cls = ''digit'' then is_digit c
      else if cls = ''alnum'' then is_upper c \<or> is_lower c \<or> is_digit c
      else if cls = ''upper'' then is_upper c
      else if cls = ''lower'' then is_lower c
      else if cls = ''space'' then is_space_char c
      else if cls = ''blank'' then c = CHR '' '' \<or> c = CHR 0x09
      else if cls = ''punct'' then is_punct c
      else if cls = ''xdigit'' then is_xdigit c
      else if cls = ''cntrl'' then is_control c
      else if cls = ''print'' then \<not> is_control c
      else if cls = ''graph'' then \<not> is_control c \<and> c \<noteq> CHR '' ''
      else False)"

text \<open>The search for \<^verbatim>\<open>:]\<close>.\<close>

definition class_end :: "string \<Rightarrow> nat \<Rightarrow> nat option" where
  "class_end p i = find (\<lambda>j. p ! j = CHR '':'' \<and> p ! (j + 1) = CHR '']'') [i..<length p - 1]"

lemma class_end_bounds: "class_end p i = Some j \<Longrightarrow> i \<le> j \<and> j + 1 < length p"
  by (auto simp: class_end_def find_Some_iff)

text \<open>One item of the expression that starts at \<open>i\<close>: does it contain \<open>c\<close>, and where does the next one start?\<close>

definition bracket_item :: "string \<Rightarrow> nat \<Rightarrow> char \<Rightarrow> (bool \<times> nat) option" where
  "bracket_item p i c =
     (let ch = p ! i in
      if ch = CHR ''['' \<and> vec_get p (i + 1) = Some (CHR '':'') then
        (case class_end p (i + 2) of
           None \<Rightarrow> None
         | Some e \<Rightarrow> Some (class_match (take (e - (i + 2)) (drop (i + 2) p)) c, e + 2))
      else
        let i = (if ch = CHR 0x5C then i + 1 else i) in
        (case vec_get p i of
           None \<Rightarrow> None
         | Some lo \<Rightarrow>
             if vec_get p (i + 1) = Some (CHR ''-'') \<and> vec_get p (i + 2) \<noteq> None \<and> vec_get p (i + 2) \<noteq> Some (CHR '']'')
             then Some (lo \<le> c \<and> c \<le> p ! (i + 2), i + 3)
             else Some (c = lo, i + 1)))"

lemma bracket_item_bounds: "bracket_item p i c = Some (h, i') \<Longrightarrow> i < i' \<and> i' \<le> length p"
  by (auto simp: bracket_item_def vec_get_def Let_def split: if_splits option.splits dest!: class_end_bounds)

lemma bracket_item_next: "map_option snd (bracket_item p i c) = map_option snd (bracket_item p i d)"
  by (auto simp: bracket_item_def Let_def split: option.splits)

function bracket_loop :: "string \<Rightarrow> char \<Rightarrow> bool \<Rightarrow> nat \<Rightarrow> bool \<Rightarrow> bool \<Rightarrow> (bool \<times> nat) option" where
  "bracket_loop p c negate i hit first =
     (if length p \<le> i then None
      else if p ! i = CHR '']'' \<and> \<not> first then Some (hit \<noteq> negate, i + 1)
      else case bracket_item p i c of
             None \<Rightarrow> None
           | Some (h, i') \<Rightarrow> bracket_loop p c negate i' (hit \<or> h) False)"
  by pat_completeness auto
termination
  by (relation "measure (\<lambda>(p, c, negate, i, hit, first). length p - i)") (auto dest!: bracket_item_bounds)

declare bracket_loop.simps [simp del]

definition bracket :: "string \<Rightarrow> nat \<Rightarrow> char \<Rightarrow> (bool \<times> nat) option" where
  "bracket p pi c =
     (let negate = (vec_get p (pi + 1) = Some (CHR ''!'') \<or> vec_get p (pi + 1) = Some (CHR ''^''))
      in bracket_loop p c negate (if negate then pi + 2 else pi + 1) False True)"

section \<open>The matcher\<close>

text \<open>The arms of the match that consume one character and go on.\<close>

definition consume :: "string \<Rightarrow> nat \<Rightarrow> string \<Rightarrow> nat \<Rightarrow> (nat \<times> nat) option" where
  "consume p pi t ti =
     (if p ! pi = CHR ''?'' \<and> ti < length t then Some (pi + 1, ti + 1)
      else if p ! pi = CHR ''['' \<and> ti < length t then
        (case bracket p pi (t ! ti) of
           Some (True, nxt) \<Rightarrow> Some (nxt, ti + 1)
         | Some (False, nxt) \<Rightarrow> None
         | None \<Rightarrow> if t ! ti = CHR ''['' then Some (pi + 1, ti + 1) else None)
      else if p ! pi = CHR 0x5C \<and> pi + 1 < length p \<and> ti < length t \<and> p ! (pi + 1) = t ! ti then Some (pi + 2, ti + 1)
      else if p ! pi \<noteq> CHR ''*'' \<and> p ! pi \<noteq> CHR ''?'' \<and> p ! pi \<noteq> CHR ''['' \<and> p ! pi \<noteq> CHR 0x5C \<and> ti < length t \<and> p ! pi = t ! ti
        then Some (pi + 1, ti + 1)
      else None)"

function skip_stars :: "string \<Rightarrow> nat \<Rightarrow> nat" where
  "skip_stars p pi = (if pi < length p \<and> p ! pi = CHR ''*'' then skip_stars p (pi + 1) else pi)"
  by pat_completeness auto
termination by (relation "measure (\<lambda>(p, pi). length p - pi)") auto

declare skip_stars.simps [simp del]

partial_function (option) match_loop ::
  "string \<Rightarrow> string \<Rightarrow> nat \<Rightarrow> nat \<Rightarrow> (nat \<times> nat) option \<Rightarrow> bool option" where
  "match_loop p t pi ti star =
     (if pi < length p \<and> p ! pi = CHR ''*'' then
        (let pi' = skip_stars p pi in
         if pi' = length p then Some True else match_loop p t pi' ti (Some (pi', ti)))
      else if pi < length p \<and> consume p pi t ti \<noteq> None then
        match_loop p t (fst (the (consume p pi t ti))) (snd (the (consume p pi t ti))) star
      else if \<not> pi < length p \<and> ti = length t then Some True
      else case star of
             Some (sp, st) \<Rightarrow>
               if st < length t then match_loop p t sp (st + 1) (Some (sp, st + 1)) else Some False
           | None \<Rightarrow> Some False)"

definition match_at :: "string \<Rightarrow> nat \<Rightarrow> string \<Rightarrow> nat \<Rightarrow> bool option" where
  "match_at p pi t ti = match_loop p t pi ti None"

definition matches :: "string \<Rightarrow> string \<Rightarrow> bool option" where
  "matches pat s = match_at pat 0 s 0"

section \<open>Expansion\<close>

fun has_magic_loop :: "bool \<Rightarrow> string \<Rightarrow> bool" where
  "has_magic_loop esc [] = False"
| "has_magic_loop esc (c # cs) =
     (if esc then has_magic_loop False cs
      else if c = CHR 0x5C then has_magic_loop True cs
      else if c = CHR ''*'' \<or> c = CHR ''?'' \<or> c = CHR ''['' then True
      else has_magic_loop False cs)"

definition has_magic :: "string \<Rightarrow> bool" where
  "has_magic pat = has_magic_loop False pat"

fun unescape_loop :: "bool \<Rightarrow> string \<Rightarrow> string" where
  "unescape_loop esc [] = (if esc then [CHR 0x5C] else [])"
| "unescape_loop esc (c # cs) =
     (if esc then c # unescape_loop False cs
      else if c = CHR 0x5C then unescape_loop True cs
      else c # unescape_loop False cs)"

definition unescape :: "string \<Rightarrow> string" where
  "unescape pat = unescape_loop False pat"

type_synonym dir_reader = "string \<Rightarrow> string list option"

definition path_join :: "string \<Rightarrow> string \<Rightarrow> string" where
  "path_join base name =
     (if base = [] then name
      else if last base = CHR ''/'' then base @ name
      else base @ ''/'' @ name)"

definition starts_with_dot :: "string \<Rightarrow> bool" where
  "starts_with_dot s \<longleftrightarrow> s \<noteq> [] \<and> hd s = CHR ''.''"

definition glob_dir :: "string \<Rightarrow> string" where
  "glob_dir base = (if base = [] then ''.'' else base)"

definition glob_base :: "dir_reader \<Rightarrow> string \<Rightarrow> string \<Rightarrow> string list" where
  "glob_base list_dir part base =
     (if \<not> has_magic part then
        let lit = unescape part in
        (case list_dir (glob_dir base) of
           None \<Rightarrow> []
         | Some entries \<Rightarrow>
             if lit \<in> set entries \<or> lit = ''.'' \<or> lit = ''..'' then [path_join base lit] else [])
      else
        (case list_dir (glob_dir base) of
           None \<Rightarrow> []
         | Some entries \<Rightarrow>
             map (path_join base)
               (filter (\<lambda>e. \<not> (starts_with_dot e \<and> \<not> starts_with_dot part) \<and> matches part e = Some True)
                 (sort entries))))"

fun glob_comps :: "dir_reader \<Rightarrow> string list \<Rightarrow> string list \<Rightarrow> string list" where
  "glob_comps list_dir paths [] = paths"
| "glob_comps list_dir paths (part # comps) =
     (let nxt = concat (map (glob_base list_dir part) paths)
      in if nxt = [] then nxt else glob_comps list_dir nxt comps)"

definition glob :: "string \<Rightarrow> dir_reader \<Rightarrow> string list" where
  "glob pattern list_dir =
     (let absolute = (pattern \<noteq> [] \<and> hd pattern = CHR ''/'');
          comps = filter (\<lambda>c. c \<noteq> []) (split_on (CHR ''/'') pattern);
          paths = glob_comps list_dir [if absolute then ''/'' else []] comps;
          paths = (if pattern \<noteq> [] \<and> last pattern = CHR ''/'' then map (\<lambda>p. p @ ''/'') paths else paths)
      in sort paths)"

section \<open>What a pattern means\<close>

text \<open>Every pattern element other than \<^verbatim>\<open>*\<close> consumes exactly one character: it is a test on that character
  and the position of the next element. A lone backslash at the end of the pattern is an element that no
  character passes.\<close>

definition elem_next :: "string \<Rightarrow> nat \<Rightarrow> nat" where
  "elem_next p pi =
     (if p ! pi = CHR ''['' then (case bracket p pi CHR ''a'' of Some (_, nxt) \<Rightarrow> nxt | None \<Rightarrow> pi + 1)
      else if p ! pi = CHR 0x5C then pi + 2
      else pi + 1)"

definition elem_test :: "string \<Rightarrow> nat \<Rightarrow> char \<Rightarrow> bool" where
  "elem_test p pi c =
     (if p ! pi = CHR ''?'' then True
      else if p ! pi = CHR ''['' then (case bracket p pi c of Some (ok, _) \<Rightarrow> ok | None \<Rightarrow> c = CHR ''['')
      else if p ! pi = CHR 0x5C then pi + 1 < length p \<and> p ! (pi + 1) = c
      else p ! pi = c)"

lemma bracket_loop_bounds: "bracket_loop p c negate i hit first = Some (ok, nxt) \<Longrightarrow> i < nxt \<and> nxt \<le> length p"
proof (induction p c negate i hit first rule: bracket_loop.induct)
  case (1 p c negate i hit first)
  show ?case
  proof (cases "bracket_item p i c")
    case None
    then show ?thesis using "1.prems" by (subst (asm) bracket_loop.simps) (auto split: if_splits)
  next
    case (Some q)
    obtain h i' where q: "q = (h, i')" by fastforce
    note b = bracket_item_bounds [OF Some [unfolded q]]
    have "(if length p \<le> i then None
        else if p ! i = CHR '']'' \<and> \<not> first then Some (hit \<noteq> negate, i + 1)
        else bracket_loop p c negate i' (hit \<or> h) False) = Some (ok, nxt)"
      using "1.prems" unfolding bracket_loop.simps [of p c negate i hit first] Some q by (auto split: if_splits)
    then show ?thesis using "1.IH" [OF _ _ Some q [symmetric]] b by (auto split: if_splits)
  qed
qed

lemma bracket_loop_next:
  "map_option snd (bracket_loop p c negate i hit first) = map_option snd (bracket_loop p d negate i hit' first)"
proof (induction p c negate i hit first arbitrary: hit' rule: bracket_loop.induct)
  case (1 p c negate i hit first)
  show ?case
    using "1.IH" bracket_item_next [of p i c d]
    by (subst (1 2) bracket_loop.simps) (auto split: option.splits)
qed

lemma bracket_next: "map_option snd (bracket p pi c) = map_option snd (bracket p pi d)"
  using bracket_loop_next by (simp add: bracket_def Let_def)

lemma bracket_bounds: "bracket p pi c = Some (ok, nxt) \<Longrightarrow> pi < nxt \<and> nxt \<le> length p"
  by (force simp: bracket_def Let_def split: if_splits dest: bracket_loop_bounds)

lemma elem_next_gt: "pi < elem_next p pi"
  using bracket_bounds [of p pi] by (auto simp: elem_next_def split: option.split)

function glob_spec :: "string \<Rightarrow> nat \<Rightarrow> string \<Rightarrow> bool" where
  "glob_spec p pi t =
     (if length p \<le> pi then t = []
      else if p ! pi = CHR ''*'' then list_ex (glob_spec p (pi + 1)) (suffixes t)
      else case t of [] \<Rightarrow> False | c # t' \<Rightarrow> elem_test p pi c \<and> glob_spec p (elem_next p pi) t')"
  by pat_completeness auto
termination
  by (relation "measure (\<lambda>(p, pi, t). length p - pi)") (auto intro!: diff_less_mono2 elem_next_gt)

declare glob_spec.simps [simp del]

lemma suffix_drop_iff: "ti \<le> length t \<Longrightarrow> suffix u (drop ti t) \<longleftrightarrow> (\<exists>k\<ge>ti. k \<le> length t \<and> u = drop k t)"
proof
  assume "ti \<le> length t" "suffix u (drop ti t)"
  then obtain zs where "drop ti t = zs @ u" by (auto simp: suffix_def)
  then have "u = drop (ti + length zs) t" "ti + length zs \<le> length t"
    by (metis append_eq_conv_conj drop_drop add.commute) (metis \<open>ti \<le> length t\<close> \<open>drop ti t = zs @ u\<close> add_leD1 le_add_diff_inverse length_append length_drop nat_add_left_cancel_le le_add1)
  then show "\<exists>k\<ge>ti. k \<le> length t \<and> u = drop k t" by (intro exI [of _ "ti + length zs"]) simp
next
  assume "\<exists>k\<ge>ti. k \<le> length t \<and> u = drop k t"
  then obtain k where "ti \<le> k" "u = drop k t" by blast
  then have "u = drop (k - ti) (drop ti t)" by simp
  then show "suffix u (drop ti t)" using suffix_drop by metis
qed

lemma spec_star:
  assumes "pi < length p" "p ! pi = CHR ''*''" "ti \<le> length t"
  shows "glob_spec p pi (drop ti t) \<longleftrightarrow> (\<exists>k\<ge>ti. k \<le> length t \<and> glob_spec p (pi + 1) (drop k t))"
proof -
  have "glob_spec p pi (drop ti t) \<longleftrightarrow> (\<exists>u. suffix u (drop ti t) \<and> glob_spec p (pi + 1) u)"
    using assms by (subst glob_spec.simps) (auto simp: list_ex_iff)
  then show ?thesis using suffix_drop_iff [OF assms(3)] by auto
qed

lemma spec_elem:
  assumes "pi < length p" "p ! pi \<noteq> CHR ''*''" "ti \<le> length t"
  shows "glob_spec p pi (drop ti t) \<longleftrightarrow>
    ti < length t \<and> elem_test p pi (t ! ti) \<and> glob_spec p (elem_next p pi) (drop (ti + 1) t)"
proof (cases "ti < length t")
  case True
  then have "drop ti t = t ! ti # drop (ti + 1) t" by (simp add: Cons_nth_drop_Suc)
  then show ?thesis using assms True by (subst glob_spec.simps) simp
next
  case False
  then show ?thesis using assms by (subst glob_spec.simps) simp
qed

lemma spec_end: "length p \<le> pi \<Longrightarrow> ti \<le> length t \<Longrightarrow> glob_spec p pi (drop ti t) \<longleftrightarrow> ti = length t"
  by (subst glob_spec.simps) auto

lemma skip_stars_spec:
  assumes "ti \<le> length t" "pi \<le> length p"
  shows "pi \<le> skip_stars p pi \<and> skip_stars p pi \<le> length p \<and>
    (skip_stars p pi < length p \<longrightarrow> p ! skip_stars p pi \<noteq> CHR ''*'') \<and>
    (pi < length p \<and> p ! pi = CHR ''*'' \<longrightarrow> pi < skip_stars p pi \<and>
       (glob_spec p pi (drop ti t) \<longleftrightarrow> (\<exists>k\<ge>ti. k \<le> length t \<and> glob_spec p (skip_stars p pi) (drop k t))))"
  using assms
proof (induction p pi arbitrary: ti rule: skip_stars.induct)
  case (1 p pi)
  show ?case
  proof (cases "pi < length p \<and> p ! pi = CHR ''*''")
    case True
    then have eq: "skip_stars p pi = skip_stars p (pi + 1)" by (simp add: skip_stars.simps)
    have IH: "k \<le> length t \<Longrightarrow> pi + 1 \<le> skip_stars p (pi + 1) \<and> skip_stars p (pi + 1) \<le> length p \<and>
       (skip_stars p (pi + 1) < length p \<longrightarrow> p ! skip_stars p (pi + 1) \<noteq> CHR ''*'') \<and>
       (pi + 1 < length p \<and> p ! (pi + 1) = CHR ''*'' \<longrightarrow> pi + 1 < skip_stars p (pi + 1) \<and>
         (glob_spec p (pi + 1) (drop k t) \<longleftrightarrow> (\<exists>j\<ge>k. j \<le> length t \<and> glob_spec p (skip_stars p (pi + 1)) (drop j t))))" for k
      using "1.IH" [OF True, of k] True by simp
    have star: "glob_spec p pi (drop ti t) \<longleftrightarrow> (\<exists>k\<ge>ti. k \<le> length t \<and> glob_spec p (pi + 1) (drop k t))"
      using True "1.prems" by (intro spec_star) auto
    show ?thesis
    proof (cases "pi + 1 < length p \<and> p ! (pi + 1) = CHR ''*''")
      case True
      then have "(\<exists>k\<ge>ti. k \<le> length t \<and> glob_spec p (pi + 1) (drop k t)) \<longleftrightarrow>
          (\<exists>k\<ge>ti. k \<le> length t \<and> glob_spec p (skip_stars p (pi + 1)) (drop k t))"
        using IH by (meson order.trans order.refl)
      then show ?thesis unfolding eq star using IH [of ti] "1.prems" by simp
    next
      case False
      then have "skip_stars p (pi + 1) = pi + 1" by (subst skip_stars.simps) auto
      then show ?thesis unfolding eq star using IH [of ti] "1.prems" by simp
    qed
  next
    case False
    then show ?thesis using "1.prems" by (subst (1 2 3 4 5) skip_stars.simps) auto
  qed
qed

lemma consume_elem:
  assumes "pi < length p" "p ! pi \<noteq> CHR ''*''"
  shows "consume p pi t ti =
    (if ti < length t \<and> elem_test p pi (t ! ti) then Some (elem_next p pi, ti + 1) else None)"
proof (cases "p ! pi = CHR ''[''")
  case True
  then show ?thesis using bracket_next [of p pi "t ! ti" "CHR ''a''"]
    by (auto simp: consume_def elem_test_def elem_next_def split: option.splits bool.splits)
next
  case False
  then show ?thesis using assms by (auto simp: consume_def elem_test_def elem_next_def)
qed

text \<open>\<open>seg p sp n pi\<close>: the \<open>n\<close> elements from \<open>sp\<close> on, none of them a star, end at \<open>pi\<close>.\<close>

fun seg :: "string \<Rightarrow> nat \<Rightarrow> nat \<Rightarrow> nat \<Rightarrow> bool" where
  "seg p sp 0 pi = (pi = sp)"
| "seg p sp (Suc n) pi = (sp < length p \<and> p ! sp \<noteq> CHR ''*'' \<and> seg p (elem_next p sp) n pi)"

lemma seg_snoc:
  "seg p sp n pi \<Longrightarrow> pi < length p \<Longrightarrow> p ! pi \<noteq> CHR ''*'' \<Longrightarrow> seg p sp (Suc n) (elem_next p pi)"
  by (induction p sp n pi rule: seg.induct) auto

lemma seg_le: "seg p sp n pi \<Longrightarrow> sp \<le> pi"
proof (induction p sp n pi rule: seg.induct)
  case (2 p sp n pi)
  then show ?case using elem_next_gt [of sp p] by simp
qed simp

lemma seg_spec:
  "seg p sp n pi \<Longrightarrow> k \<le> length t \<Longrightarrow> glob_spec p sp (drop k t) \<Longrightarrow>
   k + n \<le> length t \<and> glob_spec p pi (drop (k + n) t)"
proof (induction p sp n pi arbitrary: k rule: seg.induct)
  case (2 p sp n pi)
  then have "k < length t \<and> glob_spec p (elem_next p sp) (drop (k + 1) t)"
    by (auto simp: spec_elem)
  then show ?case using 2 by (auto dest: "2.IH" [of "k + 1"])
qed simp

text \<open>Giving up on an earlier star loses nothing: what it could still match, the later star can too.\<close>

lemma earlier_star_redundant:
  assumes "seg p sp (ti - st) pi" "st \<le> ti" "pi < length p" "p ! pi = CHR ''*''" "ti \<le> length t"
    and "st < k" "k \<le> length t" "glob_spec p sp (drop k t)"
  shows "glob_spec p pi (drop ti t)"
proof -
  have k: "k + (ti - st) \<le> length t" "glob_spec p pi (drop (k + (ti - st)) t)"
    using seg_spec [OF assms(1) assms(7,8)] by auto
  obtain j where "k + (ti - st) \<le> j" "j \<le> length t" "glob_spec p (pi + 1) (drop j t)"
    using k(2) unfolding spec_star [OF assms(3,4) k(1)] by blast
  moreover have "ti \<le> k + (ti - st)" using assms by simp
  ultimately show ?thesis unfolding spec_star [OF assms(3-5)] by (meson order.trans)
qed

definition star_rest :: "string \<Rightarrow> string \<Rightarrow> (nat \<times> nat) option \<Rightarrow> bool" where
  "star_rest p t star \<longleftrightarrow>
     (case star of None \<Rightarrow> False | Some (sp, st) \<Rightarrow> \<exists>k>st. k \<le> length t \<and> glob_spec p sp (drop k t))"

definition star_inv :: "string \<Rightarrow> nat \<Rightarrow> nat \<Rightarrow> (nat \<times> nat) option \<Rightarrow> bool" where
  "star_inv p pi ti star \<longleftrightarrow>
     (case star of None \<Rightarrow> True | Some (sp, st) \<Rightarrow> st \<le> ti \<and> sp < length p \<and> seg p sp (ti - st) pi)"

definition star_rank :: "string \<Rightarrow> string \<Rightarrow> nat \<times> nat \<times> (nat \<times> nat) option \<Rightarrow> nat list" where
  "star_rank p t x = (case x of (pi, ti, star) \<Rightarrow>
     [case star of None \<Rightarrow> length p + 1 | Some (sp, st) \<Rightarrow> length p - sp,
      case star of None \<Rightarrow> 0 | Some (sp, st) \<Rightarrow> length t - st, length p - pi])"

lemma ex_greater_Suc: "(\<exists>k>n. P k) \<longleftrightarrow> P (Suc n) \<or> (\<exists>k>Suc n. P k)"
  by (metis Suc_lessD Suc_lessI lessI)

lemma match_loop_spec:
  assumes "ti \<le> length t" "star_inv p pi ti star"
  shows "match_loop p t pi ti star = Some (glob_spec p pi (drop ti t) \<or> star_rest p t star)"
  using assms
proof (induction "(pi, ti, star)" arbitrary: pi ti star
    rule: wf_induct_rule [OF wf_measures, of "[\<lambda>x. star_rank p t x ! 0, \<lambda>x. star_rank p t x ! 1, \<lambda>x. star_rank p t x ! 2]"])
  case (1 pi ti star)
  note IH = "1.hyps" and prems = "1.prems"
  consider (Star) "pi < length p" "p ! pi = CHR ''*''"
    | (Go) "pi < length p" "p ! pi \<noteq> CHR ''*''" "ti < length t" "elem_test p pi (t ! ti)"
    | (Stop) "length p \<le> pi" "ti = length t"
    | (Back) "\<not> glob_spec p pi (drop ti t)" "pi < length p \<longrightarrow> p ! pi \<noteq> CHR ''*'' \<and> consume p pi t ti = None"
        "\<not> (length p \<le> pi \<and> ti = length t)"
    using spec_elem [of pi p ti t] spec_end [of p pi ti t] consume_elem [of pi p t ti] prems
    by (cases "pi < length p"; cases "p ! pi = CHR ''*''"; cases "ti < length t \<and> elem_test p pi (t ! ti)")
      (simp_all add: not_less, blast+)
  then show ?case
  proof cases
    case Star
    let ?q = "skip_stars p pi"
    have q: "pi < ?q" "?q \<le> length p"
      "glob_spec p pi (drop ti t) \<longleftrightarrow> (\<exists>k\<ge>ti. k \<le> length t \<and> glob_spec p ?q (drop k t))"
      using skip_stars_spec [of ti t pi p] Star prems by auto
    have red: "star_rest p t star \<Longrightarrow> glob_spec p pi (drop ti t)"
      using earlier_star_redundant [of p _ ti _ pi t] Star prems
      by (auto simp: star_rest_def star_inv_def split: option.splits)
    show ?thesis
    proof (cases "?q = length p")
      case True
      have "glob_spec p ?q (drop (length t) t)" by (subst glob_spec.simps) (simp add: True)
      then have "glob_spec p pi (drop ti t)" unfolding q(3) using prems by blast
      then show ?thesis using True Star by (subst match_loop.simps) simp
    next
      case False
      have "match_loop p t ?q ti (Some (?q, ti)) = Some (glob_spec p ?q (drop ti t) \<or> star_rest p t (Some (?q, ti)))"
        using q False prems Star
        by (intro IH) (auto simp: star_rank_def star_inv_def split: option.splits dest!: seg_le)
      also have "(glob_spec p ?q (drop ti t) \<or> star_rest p t (Some (?q, ti))) \<longleftrightarrow> glob_spec p pi (drop ti t)"
        unfolding q(3) star_rest_def using prems by (auto simp: le_less)
      finally show ?thesis using False Star red by (subst match_loop.simps) (auto simp: Let_def)
    qed
  next
    case Go
    have "match_loop p t (elem_next p pi) (ti + 1) star =
        Some (glob_spec p (elem_next p pi) (drop (ti + 1) t) \<or> star_rest p t star)"
      using Go prems elem_next_gt [of pi p]
      by (intro IH) (auto simp: star_rank_def star_inv_def Suc_diff_le split: option.splits dest: seg_snoc)
    then show ?thesis using Go prems by (subst match_loop.simps) (auto simp: consume_elem spec_elem)
  next
    case Stop
    then have "glob_spec p pi (drop ti t)" by (simp add: glob_spec.simps)
    then show ?thesis using Stop by (subst match_loop.simps) simp
  next
    case Back
    then have step: "match_loop p t pi ti star = (case star of
             Some (sp, st) \<Rightarrow> if st < length t then match_loop p t sp (st + 1) (Some (sp, st + 1)) else Some False
           | None \<Rightarrow> Some False)"
      by (subst match_loop.simps) auto
    show ?thesis
    proof (cases "\<exists>sp st. star = Some (sp, st) \<and> st < length t")
      case True
      then obtain sp st where s: "star = Some (sp, st)" "st < length t" by blast
      have "match_loop p t sp (st + 1) (Some (sp, st + 1)) =
          Some (glob_spec p sp (drop (st + 1) t) \<or> star_rest p t (Some (sp, st + 1)))"
        using s prems by (intro IH) (auto simp: star_rank_def star_inv_def)
      also have "(glob_spec p sp (drop (st + 1) t) \<or> star_rest p t (Some (sp, st + 1))) \<longleftrightarrow> star_rest p t star"
        using s ex_greater_Suc [of st "\<lambda>k. k \<le> length t \<and> glob_spec p sp (drop k t)"] by (simp add: star_rest_def Suc_le_eq)
      finally show ?thesis using step s Back by simp
    next
      case False
      then have "\<not> star_rest p t star" by (auto simp: star_rest_def split: option.splits)
      then show ?thesis using step False Back by (auto split: option.splits)
    qed
  qed
qed

text \<open>C12 (pattern matching). The backtracking matcher always returns, and its answer is the meaning of the
  pattern: elements other than \<^verbatim>\<open>*\<close> take one character each, \<^verbatim>\<open>*\<close> takes any number of characters, and the
  whole text must be used up. Remembering only the last \<^verbatim>\<open>*\<close> loses no match.\<close>

theorem glob_matches_correct: "matches pat s = Some (glob_spec pat 0 s)"
  using match_loop_spec [of 0 s pat 0 None] by (simp add: matches_def match_at_def star_inv_def star_rest_def)

section \<open>Literal components and expansion\<close>

text \<open>A component without metacharacters is compared as text; this agrees with matching it as a pattern,
  unless it ends in an unpaired backslash, which as a pattern matches nothing.\<close>

fun dangling :: "bool \<Rightarrow> string \<Rightarrow> bool" where
  "dangling esc [] = esc"
| "dangling esc (c # cs) = (if esc then dangling False cs else dangling (c = CHR 0x5C) cs)"

lemma literal_spec:
  "pi \<le> length p \<Longrightarrow> \<not> has_magic_loop False (drop pi p) \<Longrightarrow> \<not> dangling False (drop pi p) \<Longrightarrow>
   glob_spec p pi t = (t = unescape_loop False (drop pi p))"
proof (induction "length p - pi" arbitrary: pi t rule: less_induct)
  case less
  show ?case
  proof (cases "pi < length p")
    case False
    then show ?thesis using less.prems by (subst glob_spec.simps) simp
  next
    case True
    then have d: "drop pi p = p ! pi # drop (Suc pi) p" by (simp add: Cons_nth_drop_Suc)
    show ?thesis
    proof (cases "p ! pi = CHR 0x5C")
      case esc: True
      then have "Suc pi < length p" using less.prems True d by (cases "Suc pi < length p") auto
      then have d2: "drop (Suc pi) p = p ! Suc pi # drop (Suc (Suc pi)) p" by (simp add: Cons_nth_drop_Suc)
      have "glob_spec p (Suc (Suc pi)) u = (u = unescape_loop False (drop (Suc (Suc pi)) p))" for u
        using less.prems True esc d d2 \<open>Suc pi < length p\<close> by (intro less.hyps) auto
      then show ?thesis using True esc d d2 \<open>Suc pi < length p\<close>
        by (subst glob_spec.simps) (auto simp: elem_test_def elem_next_def split: list.split)
    next
      case lit: False
      have "glob_spec p (Suc pi) u = (u = unescape_loop False (drop (Suc pi) p))" for u
        using less.prems True lit d by (intro less.hyps) (auto split: if_splits)
      then show ?thesis using True lit d less.prems
        by (subst glob_spec.simps) (auto simp: elem_test_def elem_next_def split: list.split if_splits)
    qed
  qed
qed

text \<open>A component without metacharacters, and without a dangling escape at its end,
  matches exactly the name it unescapes to, so that the shortcut for literal components in \<open>glob\<close> agrees
  with the matcher.\<close>

theorem glob_literal_matches:
  assumes "\<not> has_magic pat" and "\<not> dangling False pat"
  shows "matches pat s = Some (s = unescape pat)"
  using match_loop_spec [of 0 s pat 0 None] literal_spec [of 0 pat s] assms
  by (simp add: matches_def match_at_def star_inv_def star_rest_def has_magic_def unescape_def)

theorem glob_literal_matches_witness:
  "matches [CHR ''a'', CHR 0x5C, CHR ''*''] ''a*'' = Some (''a*'' = unescape [CHR ''a'', CHR 0x5C, CHR ''*''])"
  by (rule glob_literal_matches) (simp_all add: has_magic_def)

text \<open>One step of the expansion, and the paths it may reach: every component is an entry of the directory
  named by the path so far (or \<^verbatim>\<open>.\<close> or \<^verbatim>\<open>..\<close> when written literally) that matches the component; names that
  start with a dot need a component that does.\<close>

definition selects :: "dir_reader \<Rightarrow> string \<Rightarrow> string \<Rightarrow> string \<Rightarrow> bool" where
  "selects list_dir base part name \<longleftrightarrow>
     (\<exists>entries. list_dir (glob_dir base) = Some entries \<and>
        (if has_magic part
         then name \<in> set entries \<and> glob_spec part 0 name \<and> (starts_with_dot name \<longrightarrow> starts_with_dot part)
         else name = unescape part \<and> (name \<in> set entries \<or> name = ''.'' \<or> name = ''..'')))"

inductive expands :: "dir_reader \<Rightarrow> string \<Rightarrow> string list \<Rightarrow> string \<Rightarrow> bool" for list_dir where
  expands_done: "expands list_dir base [] base"
| expands_step: "selects list_dir base part name \<Longrightarrow> expands list_dir (path_join base name) parts path \<Longrightarrow>
    expands list_dir base (part # parts) path"

inductive_simps expands_Nil: "expands list_dir base [] path"
inductive_simps expands_Cons: "expands list_dir base (part # parts) path"

lemma glob_base_set: "set (glob_base list_dir part base) = path_join base ` {name. selects list_dir base part name}"
proof -
  have "matches part e = Some True \<longleftrightarrow> glob_spec part 0 e" for e
    using match_loop_spec [of 0 e part 0 None] by (simp add: matches_def match_at_def star_inv_def star_rest_def)
  then show ?thesis
    by (cases "list_dir (glob_dir base)") (auto simp: glob_base_def selects_def Let_def)
qed

lemma glob_comps_set: "set (glob_comps list_dir paths parts) = {path. \<exists>base\<in>set paths. expands list_dir base parts path}"
proof (induction parts arbitrary: paths)
  case Nil
  then show ?case by (auto simp: expands_Nil)
next
  case (Cons part parts)
  let ?next = "concat (map (glob_base list_dir part) paths)"
  have n: "set ?next = {path_join base name | base name. base \<in> set paths \<and> selects list_dir base part name}"
    by (auto simp: glob_base_set)
  have eq: "set (glob_comps list_dir paths (part # parts)) =
      (if ?next = [] then {} else {path. \<exists>base\<in>set ?next. expands list_dir base parts path})"
    by (simp add: Let_def Cons.IH)
  show ?case
  proof (cases "?next = []")
    case True
    then have "set ?next = {}" by (simp only: list.set)
    then show ?thesis unfolding eq n using True by (auto simp: expands_Cons)
  next
    case False
    then show ?thesis unfolding eq n by (auto simp: expands_Cons)
  qed
qed

text \<open>C23 (pathname expansion). For every pattern and every file tree, \<open>glob\<close> returns, in sorted order, exactly
  the paths whose components are existing entries that match the components of the pattern, starting at
  the root for an absolute pattern and keeping a trailing slash.\<close>

theorem glob_expansion_correct:
  "sorted (glob pattern list_dir) \<and>
   set (glob pattern list_dir) =
     (\<lambda>path. if pattern \<noteq> [] \<and> last pattern = CHR ''/'' then path @ ''/'' else path) `
       {path. expands list_dir (if pattern \<noteq> [] \<and> hd pattern = CHR ''/'' then ''/'' else [])
                (filter (\<lambda>c. c \<noteq> []) (split_on (CHR ''/'') pattern)) path}"
  by (auto simp: glob_def Let_def glob_comps_set)

end
