(* ===== verification/Arith.thy ===== *)
theory Arith
  imports Prelude "HOL-Library.Signed_Division" "HOL-Library.Sublist"
begin

unbundle bit_operations_syntax

text \<open>
  Shell arithmetic, \<^verbatim>\<open>lib/sh/src/arith.rs\<close>: the lexer, the number reader and the precedence-climbing
  evaluator of \<^verbatim>\<open>$(( ))\<close>, on ASCII text. Values are 64-bit words read as signed integers, with the wrapping
  operations of the source. The mutual recursion of \<open>primary\<close> and \<open>expr\<close> takes fuel; running out of it is
  the result \<open>None\<close>, and \<open>eval\<close> gives it twice the number of tokens plus two, which is shown to be enough
  for every input. Variables are a map from names to texts.
\<close>

type_synonym i64 = "64 word"
type_synonym shvars = "string \<Rightarrow> string option"

datatype tok = TNum i64 | TName string | TOp string | LParen | RParen

definition OPS :: "string list" where
  "OPS = [''<<='', ''>>='', ''**'', ''<<'', ''>>'', ''<='', ''>='', ''=='', ''!='', ''&&'', ''||'', ''+='', ''-='', ''*='',
     ''/='', ''%='', ''&='', ''|='', ''^='', ''++'', ''--'', ''+'', ''-'', ''*'', ''/'', ''%'', ''<'', ''>'', ''&'', ''|'',
     ''^'', ''!'', ''~'', ''?'', '':'', ''='', '','']"

definition err_token :: "string \<Rightarrow> string \<Rightarrow> string" where
  "err_token msg t = msg @ '' (error token is '' @ [CHR 0x22] @ t @ [CHR 0x22] @ '')''"

section \<open>Numbers\<close>

text \<open>\<^verbatim>\<open>i64::from_str_radix\<close>.\<close>

definition parse_i64 :: "nat \<Rightarrow> string \<Rightarrow> i64 option" where
  "parse_i64 radix s =
     (case s of
        [] \<Rightarrow> None
      | c # cs \<Rightarrow>
          if c = CHR ''-'' \<and> cs \<noteq> [] then
            (case digits_val radix 0 cs of
               None \<Rightarrow> None
             | Some v \<Rightarrow> if v \<le> 2 ^ 63 then Some (- of_nat v) else None)
          else
            (case digits_val radix 0 (if c = CHR ''+'' \<and> cs \<noteq> [] then cs else s) of
               None \<Rightarrow> None
             | Some v \<Rightarrow> if v < 2 ^ 63 then Some (of_nat v) else None))"

definition num_result :: "string \<Rightarrow> i64 option \<Rightarrow> string + i64" where
  "num_result t r = (case r of Some v \<Rightarrow> Inr v | None \<Rightarrow> Inl (err_token ''value too great for base'' t))"

definition parse_num :: "string \<Rightarrow> string + i64" where
  "parse_num t =
     (if take 2 t = ''0x'' \<or> take 2 t = ''0X'' then num_result t (parse_i64 16 (drop 2 t))
      else case split_once (\<lambda>c. c = CHR ''#'') t of
             Some (base, digits) \<Rightarrow>
               (case parse_unsigned 32 10 base of
                  None \<Rightarrow> num_result t None
                | Some b \<Rightarrow> if \<not> (2 \<le> b \<and> b \<le> 36) then num_result t None
                            else num_result t (parse_i64 b digits))
           | None \<Rightarrow>
               if 1 < length t \<and> hd t = CHR ''0'' then num_result t (parse_i64 8 (tl t))
               else num_result t (parse_i64 10 t))"

text \<open>\<^verbatim>\<open>i64::to_string\<close>.\<close>

definition i64_str :: "i64 \<Rightarrow> string" where
  "i64_str v = (if sint v < 0 then CHR ''-'' # dec_str (nat (- sint v)) else dec_str (nat (sint v)))"

section \<open>Lexer\<close>

definition is_alpha :: "char \<Rightarrow> bool" where
  "is_alpha c \<longleftrightarrow> (let k = of_char c :: nat in (65 \<le> k \<and> k \<le> 90) \<or> (97 \<le> k \<and> k \<le> 122))"

definition num_char :: "char \<Rightarrow> bool" where
  "num_char c \<longleftrightarrow> is_alpha c \<or> is_ascii_digit c \<or> c = CHR ''#''"

definition name_char :: "char \<Rightarrow> bool" where
  "name_char c \<longleftrightarrow> c = CHR ''_'' \<or> is_alpha c \<or> is_ascii_digit c"

lemma length_drop_less: "0 < n \<Longrightarrow> s \<noteq> [] \<Longrightarrow> length (drop n s) < length s"
  by (cases s) auto

function lex :: "string \<Rightarrow> string + tok list" where
  "lex [] = Inr []"
| "lex (ch # cs) =
     (if is_ascii_space ch then lex cs
      else if is_ascii_digit ch then
        (let t = ch # takeWhile num_char cs in
         case parse_num t of
           Inl e \<Rightarrow> Inl e
         | Inr v \<Rightarrow> (case lex (dropWhile num_char cs) of Inl e \<Rightarrow> Inl e | Inr ts \<Rightarrow> Inr (TNum v # ts)))
      else if ch = CHR ''_'' \<or> is_alpha ch then
        (case lex (dropWhile name_char cs) of
           Inl e \<Rightarrow> Inl e | Inr ts \<Rightarrow> Inr (TName (ch # takeWhile name_char cs) # ts))
      else if ch = CHR ''$'' then lex cs
      else if ch = CHR ''('' then (case lex cs of Inl e \<Rightarrow> Inl e | Inr ts \<Rightarrow> Inr (LParen # ts))
      else if ch = CHR '')'' then (case lex cs of Inl e \<Rightarrow> Inl e | Inr ts \<Rightarrow> Inr (RParen # ts))
      else
        let rest = take 3 (ch # cs) in
        case find (\<lambda>k. prefix k rest) OPS of
          None \<Rightarrow> Inl (err_token ''syntax error: invalid arithmetic operator'' rest)
        | Some k \<Rightarrow> (case lex (drop (length k - 1) cs) of Inl e \<Rightarrow> Inl e | Inr ts \<Rightarrow> Inr (TOp k # ts)))"
  by pat_completeness auto
termination
  by (relation "measure length") (auto simp: le_imp_less_Suc length_dropWhile_le)

section \<open>Evaluator\<close>

record arith_p =
  ap_t :: "tok list"
  ap_i :: nat
  ap_vars :: shvars
  ap_live :: bool

definition binding :: "string \<Rightarrow> (nat \<times> bool) option" where
  "binding k =
     (if k = '','' then Some (1, False)
      else if k \<in> set [''='', ''+='', ''-='', ''*='', ''/='', ''%='', ''<<='', ''>>='', ''&='', ''|='', ''^=''] then Some (2, True)
      else if k = ''?'' then Some (3, True)
      else if k = ''||'' then Some (4, False)
      else if k = ''&&'' then Some (5, False)
      else if k = ''|'' then Some (6, False)
      else if k = ''^'' then Some (7, False)
      else if k = ''&'' then Some (8, False)
      else if k = ''=='' \<or> k = ''!='' then Some (9, False)
      else if k = ''<'' \<or> k = ''>'' \<or> k = ''<='' \<or> k = ''>='' then Some (10, False)
      else if k = ''<<'' \<or> k = ''>>'' then Some (11, False)
      else if k = ''+'' \<or> k = ''-'' then Some (12, False)
      else if k = ''*'' \<or> k = ''/'' \<or> k = ''%'' then Some (13, False)
      else if k = ''**'' then Some (14, True)
      else None)"

definition peek :: "arith_p \<Rightarrow> tok option" where
  "peek p = vec_get (ap_t p) (ap_i p)"

definition advance :: "nat \<Rightarrow> arith_p \<Rightarrow> arith_p" where
  "advance n p = p\<lparr>ap_i := ap_i p + n\<rparr>"

definition var_of :: "shvars \<Rightarrow> string \<Rightarrow> string + i64" where
  "var_of vars name =
     (case vars name of
        None \<Rightarrow> Inr 0
      | Some v \<Rightarrow>
          if str_trim v = [] then Inr 0
          else (case parse_num (str_trim v) of Inr n \<Rightarrow> Inr n | Inl _ \<Rightarrow> Inl (v @ '': invalid number'')))"

definition assign_to :: "bool \<Rightarrow> shvars \<Rightarrow> string \<Rightarrow> i64 \<Rightarrow> shvars" where
  "assign_to live vars name v = (if live then vars(name \<mapsto> i64_str v) else vars)"

definition assign :: "string \<Rightarrow> i64 \<Rightarrow> arith_p \<Rightarrow> arith_p" where
  "assign name v p = p\<lparr>ap_vars := assign_to (ap_live p) (ap_vars p) name v\<rparr>"

definition of_bool64 :: "bool \<Rightarrow> i64" where
  "of_bool64 b = (if b then 1 else 0)"

definition apply_op :: "string \<Rightarrow> i64 \<Rightarrow> i64 \<Rightarrow> string + i64" where
  "apply_op k a b =
     (if k = ''+'' then Inr (a + b)
      else if k = ''-'' then Inr (a - b)
      else if k = ''*'' then Inr (a * b)
      else if k = ''/'' \<or> k = ''%'' then
        (if b = 0 then Inl ''division by 0''
         else if k = ''/'' then Inr (word_of_int (sint a sdiv sint b))
         else Inr (word_of_int (sint a smod sint b)))
      else if k = ''**'' then
        (if sint b < 0 then Inl ''exponent less than 0''
         else Inr (a ^ nat (min (sint b) 4294967295)))
      else if k = ''<<'' then Inr (push_bit (unat b mod 64) a)
      else if k = ''>>'' then Inr (signed_drop_bit (unat b mod 64) a)
      else if k = ''<'' then Inr (of_bool64 (sint a < sint b))
      else if k = ''>'' then Inr (of_bool64 (sint a > sint b))
      else if k = ''<='' then Inr (of_bool64 (sint a \<le> sint b))
      else if k = ''>='' then Inr (of_bool64 (sint a \<ge> sint b))
      else if k = ''=='' then Inr (of_bool64 (a = b))
      else if k = ''!='' then Inr (of_bool64 (a \<noteq> b))
      else if k = ''&'' then Inr (a AND b)
      else if k = ''|'' then Inr (a OR b)
      else if k = ''^'' then Inr (a XOR b)
      else if k = '','' then Inr b
      else Inl (''unknown operator '' @ k))"

definition step_val :: "string \<Rightarrow> i64 \<Rightarrow> i64" where
  "step_val k v = (if k = ''++'' then v + 1 else v - 1)"

type_synonym ares = "((string + i64) \<times> arith_p) option"

definition abind :: "ares \<Rightarrow> (i64 \<Rightarrow> arith_p \<Rightarrow> ares) \<Rightarrow> ares" where
  "abind r f = (case r of
      None \<Rightarrow> None
    | Some (Inl e, p) \<Rightarrow> Some (Inl e, p)
    | Some (Inr v, p) \<Rightarrow> f v p)"

fun primary :: "nat \<Rightarrow> arith_p \<Rightarrow> ares"
  and expr :: "nat \<Rightarrow> nat \<Rightarrow> arith_p \<Rightarrow> ares"
  and expr_loop :: "nat \<Rightarrow> nat \<Rightarrow> i64 \<Rightarrow> arith_p \<Rightarrow> ares" where
  "primary 0 p = None"
| "primary (Suc n) p =
     (case peek p of
        None \<Rightarrow> Some (Inl ''syntax error: operand expected'', p)
      | Some tok \<Rightarrow>
          let p = advance 1 p in
          (case tok of
             TNum v \<Rightarrow> Some (Inr v, p)
           | LParen \<Rightarrow>
               abind (expr n 0 p) (\<lambda>v p.
                 if peek p \<noteq> Some RParen then Some (Inl (''syntax error: missing `)'' @ [CHR 0x27]), p)
                 else Some (Inr v, advance 1 p))
           | TName name \<Rightarrow>
               (case peek p of
                  Some (TOp k) \<Rightarrow>
                    if k = ''++'' \<or> k = ''--'' then
                      let p = advance 1 p in
                      (case var_of (ap_vars p) name of
                         Inl e \<Rightarrow> Some (Inl e, p)
                       | Inr v \<Rightarrow> Some (Inr v, assign name (step_val k v) p))
                    else Some (var_of (ap_vars p) name, p)
                | _ \<Rightarrow> Some (var_of (ap_vars p) name, p))
           | TOp k \<Rightarrow>
               if k = ''-'' then abind (primary n p) (\<lambda>v p. Some (Inr (- v), p))
               else if k = ''+'' then primary n p
               else if k = ''!'' then abind (primary n p) (\<lambda>v p. Some (Inr (of_bool64 (v = 0)), p))
               else if k = ''~'' then abind (primary n p) (\<lambda>v p. Some (Inr (NOT v), p))
               else if k = ''++'' \<or> k = ''--'' then
                 (case peek p of
                    Some (TName name) \<Rightarrow>
                      let p = advance 1 p in
                      (case var_of (ap_vars p) name of
                         Inl e \<Rightarrow> Some (Inl e, p)
                       | Inr v \<Rightarrow> Some (Inr (step_val k v), assign name (step_val k v) p))
                  | _ \<Rightarrow> Some (Inl ''syntax error: variable expected'', p))
               else Some (Inl (err_token ''syntax error: operand expected'' k), p)
           | RParen \<Rightarrow> Some (Inl (err_token ''syntax error: operand expected'' '')''), p)))"
| "expr 0 m p = None"
| "expr (Suc n) m p =
     (case (vec_get (ap_t p) (ap_i p), vec_get (ap_t p) (ap_i p + 1)) of
        (Some (TName name), Some (TOp k)) \<Rightarrow>
          if map_option fst (binding k) = Some 2 \<and> m \<le> 2 then
            abind (expr n 2 (advance 2 p)) (\<lambda>rhs p.
              case (if k = ''='' then Inr rhs
                    else case var_of (ap_vars p) name of Inl e \<Rightarrow> Inl e | Inr v \<Rightarrow> apply_op (butlast k) v rhs) of
                Inl e \<Rightarrow> Some (Inl e, p)
              | Inr v \<Rightarrow> Some (Inr v, assign name v p))
          else abind (primary n p) (expr_loop n m)
      | _ \<Rightarrow> abind (primary n p) (expr_loop n m))"
| "expr_loop 0 m lhs p = None"
| "expr_loop (Suc n) m lhs p =
     (case peek p of
        Some (TOp k) \<Rightarrow>
          (case binding k of
             None \<Rightarrow> Some (Inr lhs, p)
           | Some (prec, right) \<Rightarrow>
               if prec < m \<or> prec = 2 then Some (Inr lhs, p)
               else
                 let p = advance 1 p; saved = ap_live p in
                 if k = ''?'' then
                   abind (expr n 0 (p\<lparr>ap_live := saved \<and> lhs \<noteq> 0\<rparr>)) (\<lambda>a p.
                     if peek p \<noteq> Some (TOp '':'') then
                       Some (Inl (''syntax error: `:'' @ [CHR 0x27] @ '' expected for conditional expression''), p)
                     else
                       abind (expr n 3 ((advance 1 p)\<lparr>ap_live := saved \<and> lhs = 0\<rparr>)) (\<lambda>b p.
                         expr_loop n m (if lhs \<noteq> 0 then a else b) (p\<lparr>ap_live := saved\<rparr>)))
                 else
                   let next_min = (if right then prec else prec + 1) in
                   if k = ''&&'' \<or> k = ''||'' then
                     let short = (k = ''&&'' \<and> lhs = 0) \<or> (k = ''||'' \<and> lhs \<noteq> 0) in
                     abind (expr n next_min (p\<lparr>ap_live := saved \<and> \<not> short\<rparr>)) (\<lambda>rhs p.
                       expr_loop n m
                         (if k = ''&&'' then of_bool64 (lhs \<noteq> 0 \<and> rhs \<noteq> 0) else of_bool64 (lhs \<noteq> 0 \<or> rhs \<noteq> 0))
                         (p\<lparr>ap_live := saved\<rparr>))
                   else
                     abind (expr n next_min p) (\<lambda>rhs p.
                       case apply_op k lhs rhs of
                         Inl e \<Rightarrow> Some (Inl e, p)
                       | Inr v \<Rightarrow> expr_loop n m v p))
      | _ \<Rightarrow> Some (Inr lhs, p))"

declare primary.simps [simp del] expr.simps [simp del] expr_loop.simps [simp del]

definition arith_fuel :: "tok list \<Rightarrow> nat" where
  "arith_fuel t = 2 * length t + 2"

text \<open>The result and the variables afterwards; \<open>None\<close> would be a run that does not end.\<close>

definition eval :: "string \<Rightarrow> shvars \<Rightarrow> ((string + i64) \<times> shvars) option" where
  "eval src vars =
     (case lex src of
        Inl e \<Rightarrow> Some (Inl e, vars)
      | Inr t \<Rightarrow>
          if t = [] then Some (Inr 0, vars)
          else case expr (arith_fuel t) 0 \<lparr>ap_t = t, ap_i = 0, ap_vars = vars, ap_live = True\<rparr> of
                 None \<Rightarrow> None
               | Some (Inl e, p) \<Rightarrow> Some (Inl e, ap_vars p)
               | Some (Inr v, p) \<Rightarrow>
                   if ap_i p \<noteq> length (ap_t p)
                   then Some (Inl (err_token ''syntax error in expression'' src), ap_vars p)
                   else Some (Inr v, ap_vars p))"

section \<open>The evaluator always returns\<close>

definition rem_toks :: "arith_p \<Rightarrow> nat" where
  "rem_toks p = length (ap_t p) - ap_i p"

text \<open>\<open>returns d p r\<close>: the run \<open>r\<close> started in \<open>p\<close> ended, and if it succeeded it consumed at least \<open>d\<close> tokens.\<close>

definition returns :: "nat \<Rightarrow> arith_p \<Rightarrow> ares \<Rightarrow> bool" where
  "returns d p r \<longleftrightarrow> (\<exists>x p'. r = Some (x, p') \<and> (\<forall>v. x = Inr v \<longrightarrow> ap_t p' = ap_t p \<and> rem_toks p' + d \<le> rem_toks p))"

lemma returns_error [simp]: "returns d p (Some (Inl e, p'))"
  by (simp add: returns_def)

lemma returns_value [simp]: "returns d p (Some (Inr v, p')) \<longleftrightarrow> ap_t p' = ap_t p \<and> rem_toks p' + d \<le> rem_toks p"
  by (simp add: returns_def)

lemma returns_var [simp]:
  "returns d p (Some (var_of vars n, p')) \<longleftrightarrow> (\<forall>v. var_of vars n = Inr v \<longrightarrow> ap_t p' = ap_t p \<and> rem_toks p' + d \<le> rem_toks p)"
  by (simp add: returns_def)

lemma returns_abind:
  assumes "returns d q r" "ap_t q = ap_t p" "\<And>v p'. ap_t p' = ap_t p \<Longrightarrow> rem_toks p' + d \<le> rem_toks q \<Longrightarrow> returns e p (f v p')"
  shows "returns e p (abind r f)"
  using assms by (auto simp: returns_def abind_def split: sum.splits)

lemma peek_SomeD: "peek p = Some k \<Longrightarrow> 0 < rem_toks p"
  by (auto simp: peek_def vec_get_def rem_toks_def split: if_splits)

lemma ap_simps [simp]:
  "ap_t (advance n p) = ap_t p" "ap_vars (advance n p) = ap_vars p" "ap_live (advance n p) = ap_live p"
  "ap_i (advance n p) = ap_i p + n" "rem_toks (advance n p) = rem_toks p - n"
  "ap_t (assign k v p) = ap_t p" "ap_i (assign k v p) = ap_i p" "ap_live (assign k v p) = ap_live p"
  "rem_toks (assign k v p) = rem_toks p" "rem_toks (p\<lparr>ap_live := b\<rparr>) = rem_toks p"
  by (simp_all add: advance_def assign_def rem_toks_def)

lemma primary_returns_step:
  assumes E: "\<And>p. 2 * rem_toks p + 2 \<le> n \<Longrightarrow> returns 1 p (expr n 0 p)"
    and P: "\<And>p. 2 * rem_toks p + 1 \<le> n \<Longrightarrow> returns 1 p (primary n p)"
    and n: "2 * rem_toks p + 1 \<le> Suc n"
  shows "returns 1 p (primary (Suc n) p)"
proof (cases "peek p")
  case None
  then show ?thesis by (simp add: primary.simps)
next
  case (Some k)
  then have r: "0 < rem_toks p" by (rule peek_SomeD)
  let ?q = "advance 1 p"
  have PR: "returns 1 ?q (primary n ?q)" using n r by (intro P) simp
  have ER: "returns 1 ?q (expr n 0 ?q)" using n r by (intro E) simp
  have "returns 1 p (primary n ?q)" using PR r by (auto simp: returns_def)
  moreover have "returns 1 p (abind (primary n ?q) (\<lambda>v p. Some (Inr (f v), p)))" for f
    by (rule returns_abind [OF PR]) (use r in auto)
  moreover have "returns 1 p (abind (expr n 0 ?q) (\<lambda>v p. if peek p \<noteq> Some RParen then Some (Inl (e v p), p) else Some (Inr v, advance 1 p)))" for e
    by (rule returns_abind [OF ER]) (use r in auto)
  ultimately show ?thesis using Some r
    by (auto simp: primary.simps Let_def split: tok.splits option.splits sum.splits)
qed

lemma expr_returns_step:
  assumes E: "\<And>p m. 2 * rem_toks p + 2 \<le> n \<Longrightarrow> returns 1 p (expr n m p)"
    and P: "\<And>p. 2 * rem_toks p + 1 \<le> n \<Longrightarrow> returns 1 p (primary n p)"
    and L: "\<And>p m lhs. 2 * rem_toks p + 1 \<le> n \<Longrightarrow> returns 0 p (expr_loop n m lhs p)"
    and n: "2 * rem_toks p + 2 \<le> Suc n"
  shows "returns 1 p (expr (Suc n) m p)"
proof -
  have def: "returns 1 p (abind (primary n p) (expr_loop n m))"
  proof (rule returns_abind [OF P])
    fix v p' assume *: "ap_t p' = ap_t p" "rem_toks p' + 1 \<le> rem_toks p"
    then have "returns 0 p' (expr_loop n m v p')" using n by (intro L) simp
    then show "returns 1 p (expr_loop n m v p')" using * by (auto simp: returns_def)
  qed (use n in auto)
  have asg: "returns 1 p (abind (expr n 2 (advance 2 p)) (\<lambda>rhs p. case g rhs p of Inl e \<Rightarrow> Some (Inl e, p) | Inr v \<Rightarrow> Some (Inr v, assign name v p)))"
    if "0 < rem_toks p" for g :: "i64 \<Rightarrow> arith_p \<Rightarrow> string + i64" and name
    by (rule returns_abind [OF E]) (use n that in \<open>auto split: sum.splits\<close>)
  have "vec_get (ap_t p) (ap_i p) = Some k \<Longrightarrow> 0 < rem_toks p" for k
    using peek_SomeD by (simp add: peek_def)
  then show ?thesis using def asg by (simp add: expr.simps split: option.splits tok.splits)
qed

lemma loop_returns_step:
  assumes E: "\<And>p m. 2 * rem_toks p + 2 \<le> n \<Longrightarrow> returns 1 p (expr n m p)"
    and L: "\<And>p m lhs. 2 * rem_toks p + 1 \<le> n \<Longrightarrow> returns 0 p (expr_loop n m lhs p)"
    and n: "2 * rem_toks p + 1 \<le> Suc n"
  shows "returns 0 p (expr_loop (Suc n) m lhs p)"
proof (cases "peek p")
  case (Some k)
  then have r: "0 < rem_toks p" by (rule peek_SomeD)
  have ER: "returns 1 q (expr n m' q)" if "rem_toks q < rem_toks p" for q m' using n that by (intro E) simp
  have LR: "returns 0 p (expr_loop n m v q)" if "rem_toks q < rem_toks p" "ap_t q = ap_t p" for q v
    using L [of q m v] n that by (auto simp: returns_def)
  have bin: "returns 0 p (abind (expr n m' (advance 1 p)) (\<lambda>rhs p. case apply_op k' lhs rhs of Inl e \<Rightarrow> Some (Inl e, p) | Inr v \<Rightarrow> expr_loop n m v p))" for m' k'
    by (rule returns_abind [OF ER]) (use r in \<open>auto split: sum.splits intro!: LR\<close>)
  have logic: "returns 0 p (abind (expr n m' ((advance 1 p)\<lparr>ap_live := b\<rparr>)) (\<lambda>rhs p. expr_loop n m (h rhs) (p\<lparr>ap_live := c\<rparr>)))" for m' h b c
    by (rule returns_abind [OF ER]) (use r in \<open>auto intro!: LR\<close>)
  have cond: "returns 0 p (abind (expr n 0 ((advance 1 p)\<lparr>ap_live := b\<rparr>)) (\<lambda>a p.
       if peek p \<noteq> Some (TOp '':'') then Some (Inl e, p)
       else abind (expr n 3 ((advance 1 p)\<lparr>ap_live := c\<rparr>)) (\<lambda>x p. expr_loop n m (if lhs \<noteq> 0 then a else x) (p\<lparr>ap_live := d\<rparr>))))" for b c d e
  proof (rule returns_abind [OF ER])
    fix v q assume *: "ap_t q = ap_t p" "rem_toks q + 1 \<le> rem_toks ((advance 1 p)\<lparr>ap_live := b\<rparr>)"
    have "returns 0 p (abind (expr n 3 ((advance 1 q)\<lparr>ap_live := c\<rparr>)) (\<lambda>x p. expr_loop n m (if lhs \<noteq> 0 then v else x) (p\<lparr>ap_live := d\<rparr>)))"
      by (rule returns_abind [OF ER]) (use r * in \<open>auto intro!: LR\<close>)
    then show "returns 0 p (if peek q \<noteq> Some (TOp '':'') then Some (Inl e, q)
       else abind (expr n 3 ((advance 1 q)\<lparr>ap_live := c\<rparr>)) (\<lambda>x p. expr_loop n m (if lhs \<noteq> 0 then v else x) (p\<lparr>ap_live := d\<rparr>)))" by simp
  qed (use r in auto)
  show ?thesis
    using bin logic cond Some by (simp add: expr_loop.simps Let_def split: tok.splits option.splits)
qed (simp add: expr_loop.simps)

lemma arith_returns:
  "(2 * rem_toks p + 1 \<le> n \<longrightarrow> returns 1 p (primary n p)) \<and>
   (2 * rem_toks p + 2 \<le> n \<longrightarrow> returns 1 p (expr n m p)) \<and>
   (2 * rem_toks p + 1 \<le> n \<longrightarrow> returns 0 p (expr_loop n m lhs p))"
proof (induction n arbitrary: p m lhs)
  case (Suc n)
  then show ?case
    by (intro conjI impI; intro primary_returns_step expr_returns_step loop_returns_step; simp)
qed simp

text \<open>C35 (arithmetic terminates). Evaluating any text in any environment ends with a value or an error
  message: the recursive evaluator never runs out of tokens to consume before it stops.\<close>

theorem arith_eval_total: "\<exists>r vars'. eval src vars = Some (r, vars')"
proof (cases "lex src")
  case (Inr t)
  have "returns 1 \<lparr>ap_t = t, ap_i = 0, ap_vars = vars, ap_live = True\<rparr>
      (expr (arith_fuel t) 0 \<lparr>ap_t = t, ap_i = 0, ap_vars = vars, ap_live = True\<rparr>)"
    using arith_returns [of "\<lparr>ap_t = t, ap_i = 0, ap_vars = vars, ap_live = True\<rparr>" "arith_fuel t" 0]
    by (simp add: rem_toks_def arith_fuel_def)
  then show ?thesis using Inr by (auto simp: eval_def returns_def split: sum.splits)
qed (simp add: eval_def)

section \<open>What expressions mean\<close>

text \<open>Expressions as trees, their meaning, and their token form with as few parentheses as the precedences
  of \<open>binding\<close> require. In the skipped operand of \<^verbatim>\<open>&&\<close>, \<^verbatim>\<open>||\<close> and \<^verbatim>\<open>?:\<close> assignments have no effect, but errors
  still end the evaluation, as in the source.\<close>

datatype aexp =
    ANum i64 | AVar string | AUn string aexp | APre string string | APost string string
  | ABin string aexp aexp | AAnd aexp aexp | AOr aexp aexp | ACond aexp aexp aexp | AAssign string string aexp

definition sbind :: "(string + i64) \<times> shvars \<Rightarrow> (i64 \<Rightarrow> shvars \<Rightarrow> (string + i64) \<times> shvars) \<Rightarrow> (string + i64) \<times> shvars" where
  "sbind r f = (case r of (Inl e, s) \<Rightarrow> (Inl e, s) | (Inr v, s) \<Rightarrow> f v s)"

definition un_val :: "string \<Rightarrow> i64 \<Rightarrow> i64" where
  "un_val k v = (if k = ''-'' then - v else if k = ''+'' then v else if k = ''!'' then of_bool64 (v = 0) else NOT v)"

fun sem :: "aexp \<Rightarrow> bool \<Rightarrow> shvars \<Rightarrow> (string + i64) \<times> shvars" where
  "sem (ANum v) live s = (Inr v, s)"
| "sem (AVar n) live s = (var_of s n, s)"
| "sem (AUn k e) live s = sbind (sem e live s) (\<lambda>v s. (Inr (un_val k v), s))"
| "sem (APre k n) live s = sbind (var_of s n, s) (\<lambda>v s. (Inr (step_val k v), assign_to live s n (step_val k v)))"
| "sem (APost k n) live s = sbind (var_of s n, s) (\<lambda>v s. (Inr v, assign_to live s n (step_val k v)))"
| "sem (ABin k a b) live s = sbind (sem a live s) (\<lambda>va s. sbind (sem b live s) (\<lambda>vb s. (apply_op k va vb, s)))"
| "sem (AAnd a b) live s =
     sbind (sem a live s) (\<lambda>va s. sbind (sem b (live \<and> va \<noteq> 0) s) (\<lambda>vb s. (Inr (of_bool64 (va \<noteq> 0 \<and> vb \<noteq> 0)), s)))"
| "sem (AOr a b) live s =
     sbind (sem a live s) (\<lambda>va s. sbind (sem b (live \<and> va = 0) s) (\<lambda>vb s. (Inr (of_bool64 (va \<noteq> 0 \<or> vb \<noteq> 0)), s)))"
| "sem (ACond c a b) live s =
     sbind (sem c live s) (\<lambda>vc s. sbind (sem a (live \<and> vc \<noteq> 0) s) (\<lambda>va s. sbind (sem b (live \<and> vc = 0) s) (\<lambda>vb s.
       (Inr (if vc \<noteq> 0 then va else vb), s))))"
| "sem (AAssign n k e) live s =
     sbind (sem e live s) (\<lambda>r s.
       sbind (if k = ''='' then Inr r else case var_of s n of Inl e \<Rightarrow> Inl e | Inr v \<Rightarrow> apply_op (butlast k) v r, s)
         (\<lambda>v s. (Inr v, assign_to live s n v)))"

definition bprec :: "string \<Rightarrow> nat" where
  "bprec k = (case binding k of Some (pr, r) \<Rightarrow> pr | None \<Rightarrow> 0)"

definition next_min :: "string \<Rightarrow> nat" where
  "next_min k = (case binding k of Some (pr, r) \<Rightarrow> (if r then pr else pr + 1) | None \<Rightarrow> 0)"

definition left_min :: "string \<Rightarrow> nat" where
  "left_min k = (if k = '','' then 3 else if k = ''**'' then 15 else bprec k)"

fun aprec :: "aexp \<Rightarrow> nat" where
  "aprec (ABin k a b) = bprec k"
| "aprec (AAnd a b) = 5"
| "aprec (AOr a b) = 4"
| "aprec (ACond c a b) = 3"
| "aprec (AAssign n k e) = 2"
| "aprec e = 15"

definition bin_ops :: "string list" where
  "bin_ops = ['','', ''|'', ''^'', ''&'', ''=='', ''!='', ''<'', ''>'', ''<='', ''>='', ''<<'', ''>>'', ''+'', ''-'', ''*'', ''/'',
     ''%'', ''**'']"

definition assign_ops :: "string list" where
  "assign_ops = [''='', ''+='', ''-='', ''*='', ''/='', ''%='', ''<<='', ''>>='', ''&='', ''|='', ''^='']"

fun wf_aexp :: "aexp \<Rightarrow> bool" where
  "wf_aexp (ANum v) = True"
| "wf_aexp (AVar n) = True"
| "wf_aexp (AUn k e) = (k \<in> set [''-'', ''+'', ''!'', ''~''] \<and> wf_aexp e)"
| "wf_aexp (APre k n) = (k \<in> set [''++'', ''--''])"
| "wf_aexp (APost k n) = (k \<in> set [''++'', ''--''])"
| "wf_aexp (ABin k a b) = (k \<in> set bin_ops \<and> wf_aexp a \<and> wf_aexp b)"
| "wf_aexp (AAnd a b) = (wf_aexp a \<and> wf_aexp b)"
| "wf_aexp (AOr a b) = (wf_aexp a \<and> wf_aexp b)"
| "wf_aexp (ACond c a b) = (wf_aexp c \<and> wf_aexp a \<and> wf_aexp b)"
| "wf_aexp (AAssign n k e) = (k \<in> set assign_ops \<and> wf_aexp e)"

definition wrap :: "nat \<Rightarrow> aexp \<Rightarrow> tok list \<Rightarrow> tok list" where
  "wrap l e ts = (if aprec e < l then LParen # ts @ [RParen] else ts)"

fun utoks :: "aexp \<Rightarrow> tok list" where
  "utoks (ANum v) = [TNum v]"
| "utoks (AVar n) = [TName n]"
| "utoks (AUn k e) = TOp k # wrap 15 e (utoks e)"
| "utoks (APre k n) = [TOp k, TName n]"
| "utoks (APost k n) = [TName n, TOp k]"
| "utoks (ABin k a b) = wrap (left_min k) a (utoks a) @ TOp k # wrap (next_min k) b (utoks b)"
| "utoks (AAnd a b) = wrap 5 a (utoks a) @ TOp ''&&'' # wrap 6 b (utoks b)"
| "utoks (AOr a b) = wrap 4 a (utoks a) @ TOp ''||'' # wrap 5 b (utoks b)"
| "utoks (ACond c a b) = wrap 4 c (utoks c) @ TOp ''?'' # utoks a @ TOp '':'' # wrap 3 b (utoks b)"
| "utoks (AAssign n k e) = TName n # TOp k # wrap 2 e (utoks e)"

text \<open>What may follow an expression so that its last operand does not swallow it.\<close>

definition stop_ok :: "nat \<Rightarrow> tok list \<Rightarrow> bool" where
  "stop_ok b rest = (case rest of
      TOp k # _ \<Rightarrow> k \<noteq> ''++'' \<and> k \<noteq> ''--'' \<and> (case binding k of None \<Rightarrow> True | Some (pr, r) \<Rightarrow> pr \<noteq> 2 \<and> pr < b)
    | _ \<Rightarrow> True)"

fun rbound :: "nat \<Rightarrow> aexp \<Rightarrow> nat" where
  "rbound m (ABin k a b) = next_min k"
| "rbound m (AAnd a b) = 6"
| "rbound m (AOr a b) = 5"
| "rbound m (ACond c a b) = 3"
| "rbound m (AAssign n k e) = min 2 m"
| "rbound m e = 16"

definition at_toks :: "arith_p \<Rightarrow> tok list \<Rightarrow> bool" where
  "at_toks p ts \<longleftrightarrow> drop (ap_i p) (ap_t p) = ts"

definition after :: "arith_p \<Rightarrow> nat \<Rightarrow> shvars \<Rightarrow> arith_p" where
  "after p n s = p\<lparr>ap_i := ap_i p + n, ap_vars := s\<rparr>"

definition outcome :: "(string + i64) \<times> shvars \<Rightarrow> ares \<Rightarrow> (i64 \<Rightarrow> shvars \<Rightarrow> bool) \<Rightarrow> bool" where
  "outcome s r K = (case s of
      (Inl e, vs) \<Rightarrow> (\<exists>q. r = Some (Inl e, q) \<and> ap_vars q = vs)
    | (Inr v, vs) \<Rightarrow> K v vs)"

text \<open>Parsing the tokens \<open>ts\<close> of \<open>e\<close> as an operand, and as an expression whose continuation is the loop.\<close>

definition prim_ok :: "aexp \<Rightarrow> tok list \<Rightarrow> bool" where
  "prim_ok e ts \<longleftrightarrow> (\<forall>n p rest. at_toks p (ts @ rest) \<longrightarrow> stop_ok 16 rest \<longrightarrow> 2 * rem_toks p + 1 \<le> n \<longrightarrow>
     outcome (sem e (ap_live p) (ap_vars p)) (primary n p)
       (\<lambda>v s. primary n p = Some (Inr v, after p (length ts) s)))"

definition expr_ok :: "aexp \<Rightarrow> tok list \<Rightarrow> nat \<Rightarrow> nat \<Rightarrow> bool" where
  "expr_ok e ts m b \<longleftrightarrow> (\<forall>n p rest. at_toks p (ts @ rest) \<longrightarrow> stop_ok b rest \<longrightarrow> 2 * rem_toks p + 2 \<le> n \<longrightarrow>
     outcome (sem e (ap_live p) (ap_vars p)) (expr n m p)
       (\<lambda>v s. \<exists>n'. 2 * length rest + 1 \<le> n' \<and> expr n m p = expr_loop n' m v (after p (length ts) s)))"

lemma at_toks_rem: "at_toks p ts \<Longrightarrow> rem_toks p = length ts"
  by (auto simp: at_toks_def rem_toks_def)

lemma at_toks_Cons: "at_toks p (t # ts) \<Longrightarrow> peek p = Some t \<and> at_toks (advance 1 p) ts"
proof -
  assume d: "at_toks p (t # ts)"
  then have "ap_i p < length (ap_t p)" by (cases "ap_i p < length (ap_t p)") (simp_all add: at_toks_def)
  moreover from this have "drop (ap_i p) (ap_t p) = ap_t p ! ap_i p # drop (Suc (ap_i p)) (ap_t p)"
    by (rule Cons_nth_drop_Suc [symmetric])
  ultimately show ?thesis using d by (simp add: at_toks_def peek_def vec_get_def advance_def)
qed

lemma at_toks_Nil: "at_toks p [] \<Longrightarrow> peek p = None"
  by (simp add: at_toks_def peek_def vec_get_def)

lemma at_toks_after: "at_toks p (ts @ rest) \<Longrightarrow> at_toks (after p (length ts) s) rest"
  by (simp add: at_toks_def after_def add.commute [of "ap_i p"] flip: drop_drop)

lemma at_toks_live [simp]: "at_toks (p\<lparr>ap_live := b\<rparr>) ts = at_toks p ts"
  by (simp add: at_toks_def)

lemma after_simps [simp]:
  "ap_live (after p n s) = ap_live p" "ap_vars (after p n s) = s" "ap_t (after p n s) = ap_t p"
  "ap_i (after p n s) = ap_i p + n"
  "after (after p n s) k s' = after p (n + k) s'" "after (advance n p) k s = after p (n + k) s"
  "advance k (after p n s) = after p (n + k) s"
  "(after (p\<lparr>ap_live := b\<rparr>) n s)\<lparr>ap_live := c\<rparr> = (after p n s)\<lparr>ap_live := c\<rparr>"
  "after ((after p n s)\<lparr>ap_live := b\<rparr>) k s' = (after p (n + k) s')\<lparr>ap_live := b\<rparr>"
  "(after p n s)\<lparr>ap_live := ap_live p\<rparr> = after p n s"
  "advance k ((after p n s)\<lparr>ap_live := b\<rparr>) = (after p (n + k) s)\<lparr>ap_live := b\<rparr>"
  by (simp_all add: after_def advance_def)

lemma loop_stops: "at_toks p rest \<Longrightarrow> stop_ok m rest \<Longrightarrow> 0 < n \<Longrightarrow> expr_loop n m v p = Some (Inr v, p)"
  by (cases n; cases rest)
    (auto simp: expr_loop.simps at_toks_Nil stop_ok_def dest!: at_toks_Cons split: tok.splits option.splits)

lemma stop_ok_mono: "stop_ok a rest \<Longrightarrow> a \<le> b \<Longrightarrow> stop_ok b rest"
  by (auto simp: stop_ok_def split: list.splits tok.splits option.splits)

lemma stop_ok_op: "binding k = Some (pr, r) \<Longrightarrow> pr \<noteq> 2 \<Longrightarrow> pr < b \<Longrightarrow> stop_ok b (TOp k # ts)"
  by (auto simp: stop_ok_def binding_def)

lemma stop_ok_close [simp]: "stop_ok b (RParen # ts)" "stop_ok b (TOp '':'' # ts)" "stop_ok b []"
  by (simp_all add: stop_ok_def binding_def)

lemma at_toks_Cons2:
  "at_toks p (t # u # ts) \<Longrightarrow> peek p = Some t \<and> peek (advance 1 p) = Some u \<and> at_toks (advance 2 p) ts"
  using at_toks_Cons [of p t "u # ts"] at_toks_Cons [of "advance 1 p" u ts] by (simp add: advance_def)

definition good :: "aexp \<Rightarrow> bool" where
  "good e \<longleftrightarrow> (\<forall>m\<le>aprec e. expr_ok e (utoks e) m (rbound m e)) \<and> (aprec e = 15 \<longrightarrow> prim_ok e (utoks e))"

lemma expr_via_primary:
  assumes "at_toks p ts" "\<And>name k ts'. ts = TName name # TOp k # ts' \<Longrightarrow> map_option fst (binding k) \<noteq> Some 2"
  shows "expr (Suc n) m p = abind (primary n p) (expr_loop n m)"
proof -
  have "vec_get (ap_t p) (ap_i p) = Some (TName name) \<Longrightarrow> vec_get (ap_t p) (ap_i p + 1) = Some (TOp k) \<Longrightarrow>
      map_option fst (binding k) \<noteq> Some 2" for name k
  proof -
    assume *: "vec_get (ap_t p) (ap_i p) = Some (TName name)" "vec_get (ap_t p) (ap_i p + 1) = Some (TOp k)"
    then have "drop (ap_i p) (ap_t p) = TName name # TOp k # drop (Suc (Suc (ap_i p))) (ap_t p)"
      by (simp add: vec_get_def Cons_nth_drop_Suc [symmetric] split: if_splits)
    then have "ts = TName name # TOp k # drop (Suc (Suc (ap_i p))) (ap_t p)" using assms(1) by (simp add: at_toks_def)
    then show ?thesis by (rule assms(2))
  qed
  then show ?thesis by (simp add: expr.simps split: option.splits tok.splits)
qed

lemma prim_expr:
  assumes "prim_ok e ts" "ts \<noteq> []"
    and "\<And>name ts'. ts = TName name # ts' \<Longrightarrow> ts' = [] \<or> (\<exists>k. ts' = [TOp k] \<and> binding k = None)"
  shows "expr_ok e ts m 16"
  unfolding expr_ok_def
proof (intro allI impI)
  fix n p rest
  assume at: "at_toks p (ts @ rest)" and st: "stop_ok 16 rest" and n: "2 * rem_toks p + 2 \<le> n"
  then obtain k where k: "n = Suc k" by (cases n) auto
  have e: "expr n m p = abind (primary k p) (expr_loop k m)"
    unfolding k using at
  proof (rule expr_via_primary)
    fix name op ts' assume "ts @ rest = TName name # TOp op # ts'"
    then show "map_option fst (binding op) \<noteq> Some 2"
      using assms(2,3) st by (cases ts) (auto simp: stop_ok_def Cons_eq_append_conv split: option.splits)
  qed
  have "outcome (sem e (ap_live p) (ap_vars p)) (primary k p) (\<lambda>v s. primary k p = Some (Inr v, after p (length ts) s))"
    using assms(1) at st n k by (auto simp: prim_ok_def)
  moreover have "2 * length rest + 1 \<le> k" using n k at_toks_rem [OF at] assms(2) by (cases ts) auto
  ultimately show "outcome (sem e (ap_live p) (ap_vars p)) (expr n m p)
       (\<lambda>v s. \<exists>n'. 2 * length rest + 1 \<le> n' \<and> expr n m p = expr_loop n' m v (after p (length ts) s))"
    unfolding e by (auto simp: outcome_def abind_def split: sum.splits prod.splits)
qed

lemma expr_ok_mono: "expr_ok e ts m b \<Longrightarrow> b' \<le> b \<Longrightarrow> expr_ok e ts m b'"
  by (auto simp: expr_ok_def dest: stop_ok_mono)

lemma expr_ok_stop:
  assumes "expr_ok e ts m b" "at_toks p (ts @ rest)" "stop_ok b rest" "stop_ok m rest" "2 * rem_toks p + 2 \<le> n"
  shows "outcome (sem e (ap_live p) (ap_vars p)) (expr n m p) (\<lambda>v s. expr n m p = Some (Inr v, after p (length ts) s))"
proof -
  have "0 < n' \<Longrightarrow> expr_loop n' m v (after p (length ts) s) = Some (Inr v, after p (length ts) s)" for n' v s
    using at_toks_after [OF assms(2)] assms(4) by (rule loop_stops)
  moreover have "outcome (sem e (ap_live p) (ap_vars p)) (expr n m p)
       (\<lambda>v s. \<exists>n'. 2 * length rest + 1 \<le> n' \<and> expr n m p = expr_loop n' m v (after p (length ts) s))"
    using assms unfolding expr_ok_def by blast
  ultimately show ?thesis by (auto simp: outcome_def split: sum.splits prod.splits)
qed

lemma paren_prim:
  assumes "expr_ok e ts 0 b"
  shows "prim_ok e (LParen # ts @ [RParen])"
  unfolding prim_ok_def
proof (intro allI impI)
  fix n p rest
  assume at: "at_toks p ((LParen # ts @ [RParen]) @ rest)" and n: "2 * rem_toks p + 1 \<le> n"
  then obtain k where k: "n = Suc k" by (cases n) auto
  have pk: "peek p = Some LParen" "at_toks (advance 1 p) (ts @ RParen # rest)" using at_toks_Cons at by auto
  have E: "outcome (sem e (ap_live p) (ap_vars p)) (expr k 0 (advance 1 p))
     (\<lambda>v s. expr k 0 (advance 1 p) = Some (Inr v, after (advance 1 p) (length ts) s))"
    using expr_ok_stop [OF assms pk(2), of k] at_toks_rem [OF at] n k by simp
  have "peek (after (advance 1 p) (length ts) s) = Some RParen" for s
    using at_toks_Cons [OF at_toks_after [OF pk(2)]] by blast
  then show "outcome (sem e (ap_live p) (ap_vars p)) (primary n p)
       (\<lambda>v s. primary n p = Some (Inr v, after p (length (LParen # ts @ [RParen])) s))"
    using E pk unfolding k by (auto simp: primary.simps outcome_def abind_def Let_def split: sum.splits prod.splits)
qed

lemma bprec_le: "bprec k \<le> 14"
  by (simp add: bprec_def binding_def)

lemma aprec_le: "aprec e \<le> 15"
  by (cases e) (auto intro: order.trans [OF bprec_le])

lemma wrap_prim: "good e \<Longrightarrow> prim_ok e (wrap 15 e (utoks e))"
  using paren_prim [of e "utoks e" "rbound 0 e"] aprec_le [of e] by (auto simp: good_def wrap_def)

lemma wrap_expr:
  assumes "good e" "m \<le> l"
  shows "expr_ok e (wrap l e (utoks e)) m (if aprec e < l then 16 else rbound m e)"
proof (cases "aprec e < l")
  case True
  have "prim_ok e (LParen # utoks e @ [RParen])" using assms by (intro paren_prim) (auto simp: good_def)
  then have "expr_ok e (LParen # utoks e @ [RParen]) m 16" by (rule prim_expr) simp_all
  then show ?thesis using True by (simp add: wrap_def)
next
  case False
  then show ?thesis using assms by (simp add: wrap_def good_def)
qed

lemma good_prim:
  assumes "prim_ok e (utoks e)" "aprec e = 15" "\<And>m. rbound m e = 16" "utoks e \<noteq> []"
    and "\<And>name ts'. utoks e = TName name # ts' \<Longrightarrow> ts' = [] \<or> (\<exists>k. ts' = [TOp k] \<and> binding k = None)"
  shows "good e"
  using assms prim_expr [OF assms(1,4,5)] by (simp add: good_def)


lemma prim_okI:
  assumes "\<And>n p rest. at_toks p (ts @ rest) \<Longrightarrow> stop_ok 16 rest \<Longrightarrow> 2 * rem_toks p + 1 \<le> Suc n \<Longrightarrow>
     outcome (sem e (ap_live p) (ap_vars p)) (primary (Suc n) p)
       (\<lambda>v s. primary (Suc n) p = Some (Inr v, after p (length ts) s))"
  shows "prim_ok e ts"
  unfolding prim_ok_def
proof (intro allI impI)
  fix n p rest
  assume "at_toks p (ts @ rest)" "stop_ok 16 rest" "2 * rem_toks p + 1 \<le> n"
  then show "outcome (sem e (ap_live p) (ap_vars p)) (primary n p) (\<lambda>v s. primary n p = Some (Inr v, after p (length ts) s))"
    using assms [of p rest "n - 1"] by (cases n) auto
qed

lemma advance_is_after: "advance n p = after p n (ap_vars p)"
  by (simp add: advance_def after_def)

lemma assign_after: "assign name v (after p n s) = after p n (assign_to (ap_live p) s name v)"
  by (simp add: assign_def after_def)

lemma good_num: "good (ANum v)"
  by (rule good_prim, rule prim_okI)
    (auto simp: primary.simps outcome_def Let_def advance_is_after dest!: at_toks_Cons)

lemma good_var: "good (AVar n)"
proof (rule good_prim, rule prim_okI)
  fix k p rest assume at: "at_toks p (utoks (AVar n) @ rest)" and st: "stop_ok 16 rest"
  have *: "peek p = Some (TName n)" "at_toks (advance 1 p) rest" using at_toks_Cons at by auto
  have "peek (advance 1 p) \<noteq> Some (TOp ''++'')" "peek (advance 1 p) \<noteq> Some (TOp ''--'')"
    using st * at_toks_Cons at_toks_Nil by (cases rest; fastforce simp: stop_ok_def)+
  then show "outcome (sem (AVar n) (ap_live p) (ap_vars p)) (primary (Suc k) p)
       (\<lambda>v s. primary (Suc k) p = Some (Inr v, after p (length (utoks (AVar n))) s))"
    using * by (auto simp: primary.simps outcome_def Let_def advance_is_after split: option.splits tok.splits sum.splits)
qed auto

lemma good_un:
  assumes "good e" "k \<in> set [''-'', ''+'', ''!'', ''~'']"
  shows "good (AUn k e)"
proof (rule good_prim, rule prim_okI)
  fix n p rest
  assume at: "at_toks p (utoks (AUn k e) @ rest)" and st: "stop_ok 16 rest" and n: "2 * rem_toks p + 1 \<le> Suc n"
  have *: "peek p = Some (TOp k)" "at_toks (advance 1 p) (wrap 15 e (utoks e) @ rest)" using at_toks_Cons at by auto
  have "2 * rem_toks (advance 1 p) + 1 \<le> n" using n at_toks_rem [OF at] by simp
  from wrap_prim [OF assms(1), unfolded prim_ok_def, rule_format, OF *(2) st this]
  have "outcome (sem e (ap_live p) (ap_vars p)) (primary n (advance 1 p))
      (\<lambda>v s. primary n (advance 1 p) = Some (Inr v, after (advance 1 p) (length (wrap 15 e (utoks e))) s))"
    by simp
  then show "outcome (sem (AUn k e) (ap_live p) (ap_vars p)) (primary (Suc n) p)
       (\<lambda>v s. primary (Suc n) p = Some (Inr v, after p (length (utoks (AUn k e))) s))"
    using * assms(2) by (auto simp: primary.simps outcome_def sbind_def abind_def un_val_def Let_def split: sum.splits prod.splits)
qed auto

lemma good_pre: "k \<in> set [''++'', ''--''] \<Longrightarrow> good (APre k n)"
proof (rule good_prim, rule prim_okI)
  fix j p rest assume k: "k \<in> set [''++'', ''--'']" and at: "at_toks p (utoks (APre k n) @ rest)"
  have *: "peek p = Some (TOp k)" "peek (advance 1 p) = Some (TName n)" using at at_toks_Cons2 by auto
  then show "outcome (sem (APre k n) (ap_live p) (ap_vars p)) (primary (Suc j) p)
       (\<lambda>v s. primary (Suc j) p = Some (Inr v, after p (length (utoks (APre k n))) s))"
    using k by (auto simp: primary.simps outcome_def sbind_def Let_def advance_is_after assign_after split: sum.splits)
qed auto

lemma binding_step [simp]: "binding ''++'' = None" "binding ''--'' = None"
  by (simp_all add: binding_def)

lemma step_binding: "k \<in> set [''++'', ''--''] \<Longrightarrow> binding k = None"
  by auto

lemma good_post:
  assumes k: "k \<in> set [''++'', ''--'']"
  shows "good (APost k n)"
proof (rule good_prim, rule prim_okI)
  fix j p rest assume at: "at_toks p (utoks (APost k n) @ rest)"
  have *: "peek p = Some (TName n)" "peek (advance 1 p) = Some (TOp k)" using at at_toks_Cons2 by auto
  then show "outcome (sem (APost k n) (ap_live p) (ap_vars p)) (primary (Suc j) p)
       (\<lambda>v s. primary (Suc j) p = Some (Inr v, after p (length (utoks (APost k n))) s))"
    using k by (auto simp: primary.simps outcome_def sbind_def Let_def advance_is_after assign_after split: sum.splits)
qed (simp_all add: step_binding [OF k])

text \<open>The binary operators: their binding and how tightly their operands must bind.\<close>

lemma binding_table [simp]:
  "binding '','' = Some (1, False)" "binding ''?'' = Some (3, True)" "binding ''||'' = Some (4, False)"
  "binding ''&&'' = Some (5, False)" "binding ''|'' = Some (6, False)" "binding ''^'' = Some (7, False)"
  "binding ''&'' = Some (8, False)" "binding ''=='' = Some (9, False)" "binding ''!='' = Some (9, False)"
  "binding ''<'' = Some (10, False)" "binding ''>'' = Some (10, False)" "binding ''<='' = Some (10, False)"
  "binding ''>='' = Some (10, False)" "binding ''<<'' = Some (11, False)" "binding ''>>'' = Some (11, False)"
  "binding ''+'' = Some (12, False)" "binding ''-'' = Some (12, False)" "binding ''*'' = Some (13, False)"
  "binding ''/'' = Some (13, False)" "binding ''%'' = Some (13, False)" "binding ''**'' = Some (14, True)"
  by (simp_all add: binding_def)

lemma binding_assign: "k \<in> set assign_ops \<Longrightarrow> binding k = Some (2, True)"
proof -
  assume k: "k \<in> set assign_ops"
  then have "k \<noteq> '',''" by (auto simp: assign_ops_def)
  then show ?thesis using k by (simp add: binding_def assign_ops_def)
qed

lemma bin_op_cases:
  assumes "k \<in> set bin_ops"
  shows "binding k = Some (bprec k, k = ''**'') \<and> bprec k \<noteq> 2 \<and> 0 < bprec k \<and> (k = ''**'' \<longrightarrow> left_min k = 15 \<and> bprec k = 14) \<and>
     (k \<noteq> ''**'' \<longrightarrow> left_min k = (if bprec k = 1 then 3 else bprec k) \<and> bprec k \<le> 13 \<and> (bprec k = 1 \<or> 6 \<le> bprec k)) \<and>
     k \<noteq> ''?'' \<and> k \<noteq> ''&&'' \<and> k \<noteq> ''||''"
  using assms unfolding bin_ops_def
  by (simp only: list.set insert_iff empty_iff, elim disjE FalseE; simp add: left_min_def bprec_def)

lemma bin_op_next: "k \<in> set bin_ops \<Longrightarrow> next_min k = (if k = ''**'' then 14 else bprec k + 1)"
  using bin_op_cases [of k] by (simp add: next_min_def)

lemma good_bound_le:
  assumes "wf_aexp a" "l \<le> aprec a"
  shows "l \<le> rbound l a"
proof (cases a)
  case (ABin k b c)
  then have "k \<in> set bin_ops" using assms by simp
  then show ?thesis using assms ABin bin_op_cases [of k] bin_op_next [of k] by (cases "k = ''**''") simp_all
qed (use assms in auto)

lemma left_bound:
  assumes "wf_aexp a" "3 \<le> l" "pr < l \<or> pr = l \<and> l \<noteq> 3 \<and> l \<noteq> 14" "l \<le> aprec a"
  shows "pr < rbound m a"
proof (cases a)
  case (ABin k b c)
  then have "k \<in> set bin_ops" using assms by simp
  then show ?thesis using assms ABin bin_op_cases [of k] bin_op_next [of k] by (cases "k = ''**''") auto
qed (use assms bprec_le in auto)

lemma outcome_mono: "outcome s r K \<Longrightarrow> (\<And>v vs. K v vs \<Longrightarrow> K' v vs) \<Longrightarrow> outcome s r K'"
  by (auto simp: outcome_def split: prod.splits sum.splits)

lemma left_operand:
  assumes "good a" "wf_aexp a" "m \<le> l" "at_toks p (wrap l a (utoks a) @ TOp k # ts)" "binding k = Some (pr, r)"
    "pr \<noteq> 2" "3 \<le> l" "pr < l \<or> pr = l \<and> l \<noteq> 3 \<and> l \<noteq> 14" "2 * rem_toks p + 2 \<le> n"
  shows "outcome (sem a (ap_live p) (ap_vars p)) (expr n m p)
    (\<lambda>v s. \<exists>j. 2 * length ts + 2 \<le> j \<and> expr n m p = expr_loop (Suc j) m v (after p (length (wrap l a (utoks a))) s))"
proof -
  have "pr < 16" using assms(5) bprec_le [of k] by (simp add: bprec_def)
  then have "stop_ok (if aprec a < l then 16 else rbound m a) (TOp k # ts)"
    using left_bound [OF assms(2,7,8)] assms(5,6) by (intro stop_ok_op) auto
  from wrap_expr [OF assms(1,3), unfolded expr_ok_def, rule_format, OF assms(4) this assms(9)]
  have "outcome (sem a (ap_live p) (ap_vars p)) (expr n m p)
    (\<lambda>v s. \<exists>j. 2 * length (TOp k # ts) + 1 \<le> j \<and> expr n m p = expr_loop j m v (after p (length (wrap l a (utoks a))) s))" .
  then show ?thesis
  proof (rule outcome_mono)
    fix v s
    assume "\<exists>j. 2 * length (TOp k # ts) + 1 \<le> j \<and> expr n m p = expr_loop j m v (after p (length (wrap l a (utoks a))) s)"
    then obtain j where "2 * length (TOp k # ts) + 1 \<le> j" "expr n m p = expr_loop j m v (after p (length (wrap l a (utoks a))) s)"
      by blast
    then show "\<exists>j. 2 * length ts + 2 \<le> j \<and> expr n m p = expr_loop (Suc j) m v (after p (length (wrap l a (utoks a))) s)"
      by (intro exI [of _ "j - 1"]) auto
  qed
qed

lemma right_operand:
  assumes "good b" "wf_aexp b" "at_toks q (wrap l b (utoks b) @ rest)" "stop_ok l rest" "2 * rem_toks q + 2 \<le> n" "l \<le> 16"
  shows "outcome (sem b (ap_live q) (ap_vars q)) (expr n l q)
    (\<lambda>v s. expr n l q = Some (Inr v, after q (length (wrap l b (utoks b))) s))"
proof (rule expr_ok_stop [OF wrap_expr [OF assms(1) order.refl] assms(3) _ assms(4,5)])
  show "stop_ok (if aprec b < l then 16 else rbound l b) rest"
    using good_bound_le [OF assms(2)] assms(4,6) by (auto intro: stop_ok_mono)
qed

lemma bin_op_levels:
  assumes k: "k \<in> set bin_ops" and m: "m \<le> bprec k"
  shows "m \<le> left_min k \<and> 3 \<le> left_min k \<and> (bprec k < left_min k \<or> bprec k = left_min k \<and> left_min k \<noteq> 3 \<and> left_min k \<noteq> 14)
    \<and> next_min k \<le> 16"
proof (cases "k = ''**''")
  case True
  then have "left_min k = 15" "bprec k = 14" "next_min k = 14" using bin_op_cases [OF k] bin_op_next [OF k] by simp_all
  then show ?thesis using m by simp
next
  case False
  then have "left_min k = (if bprec k = 1 then 3 else bprec k)" "bprec k \<le> 13" "bprec k = 1 \<or> 6 \<le> bprec k"
    "next_min k = bprec k + 1" using bin_op_cases [OF k] bin_op_next [OF k] by simp_all
  then show ?thesis using m by (cases "bprec k = 1") auto
qed

text \<open>The loop applies an operator after its right operand, with the liveness flag around it.\<close>

lemma good_bin:
  assumes a: "good a" "wf_aexp a" and b: "good b" "wf_aexp b" and k: "k \<in> set bin_ops"
  shows "good (ABin k a b)"
  unfolding good_def expr_ok_def
proof (intro conjI allI impI)
  fix m n p rest
  assume m: "m \<le> aprec (ABin k a b)" and at: "at_toks p (utoks (ABin k a b) @ rest)"
    and st: "stop_ok (rbound m (ABin k a b)) rest" and n: "2 * rem_toks p + 2 \<le> n"
  let ?ta = "wrap (left_min k) a (utoks a)" and ?tb = "wrap (next_min k) b (utoks b)"
  have ml: "m \<le> left_min k" "3 \<le> left_min k" "bprec k < left_min k \<or> bprec k = left_min k \<and> left_min k \<noteq> 3 \<and> left_min k \<noteq> 14"
      "next_min k \<le> 16"
    using bin_op_levels [OF k, of m] m by auto
  have bd: "binding k = Some (bprec k, k = ''**'')" "bprec k \<noteq> 2" "k \<noteq> ''?''" "k \<noteq> ''&&''" "k \<noteq> ''||''"
    using bin_op_cases [OF k] by blast+
  have nm: "next_min k = (if k = ''**'' then bprec k else bprec k + 1)"
    by (simp add: next_min_def bd(1))
  have at1: "at_toks p (?ta @ TOp k # ?tb @ rest)" using at by simp
  note A = left_operand [OF a ml(1) at1 bd(1,2) ml(2,3) n]
  show "outcome (sem (ABin k a b) (ap_live p) (ap_vars p)) (expr n m p)
     (\<lambda>v s. \<exists>n'. 2 * length rest + 1 \<le> n' \<and> expr n m p = expr_loop n' m v (after p (length (utoks (ABin k a b))) s))"
  proof (cases "sem a (ap_live p) (ap_vars p)")
    case (Pair x s1)
    show ?thesis
    proof (cases x)
      case (Inl e)
      then show ?thesis using A Pair by (simp add: outcome_def sbind_def)
    next
      case (Inr va)
      then obtain j where j: "2 * length (?tb @ rest) + 2 \<le> j"
        "expr n m p = expr_loop (Suc j) m va (after p (length ?ta) s1)"
        using A Pair by (auto simp: outcome_def)
      let ?q = "after p (length ?ta + 1) s1"
      have q: "peek (after p (length ?ta) s1) = Some (TOp k)" "at_toks ?q (?tb @ rest)"
        using at_toks_Cons [OF at_toks_after [OF at1]] by auto
      have B: "outcome (sem b (ap_live p) s1) (expr j (next_min k) ?q)
          (\<lambda>v s. expr j (next_min k) ?q = Some (Inr v, after ?q (length ?tb) s))"
        using right_operand [OF b q(2), of j] st j(1) at_toks_rem [OF q(2)] ml(4) by simp
      have step: "expr n m p = abind (expr j (next_min k) ?q) (\<lambda>rhs p.
          case apply_op k va rhs of Inl e \<Rightarrow> Some (Inl e, p) | Inr v \<Rightarrow> expr_loop j m v p)"
        unfolding j(2) expr_loop.simps q(1) using m bd by (simp add: Let_def nm)
      show ?thesis using B Pair Inr j(1) unfolding step
        by (cases "sem b (ap_live p) s1")
          (auto simp: outcome_def sbind_def abind_def add.assoc split: sum.splits intro!: exI [of _ j])
    qed
  qed
qed (use bprec_le [of k] in simp)

lemma good_logic:
  assumes a: "good a" "wf_aexp a" and b: "good b" "wf_aexp b"
    and k: "k = ''&&'' \<and> e = AAnd a b \<and> l = (5 :: nat) \<or> k = ''||'' \<and> e = AOr a b \<and> l = 4"
  shows "good e"
  unfolding good_def expr_ok_def
proof (intro conjI allI impI)
  fix m n p rest
  assume m: "m \<le> aprec e" and at: "at_toks p (utoks e @ rest)"
    and st: "stop_ok (rbound m e) rest" and n: "2 * rem_toks p + 2 \<le> n"
  let ?ta = "wrap l a (utoks a)" and ?tb = "wrap (l + 1) b (utoks b)"
  have e: "utoks e = ?ta @ TOp k # ?tb" "rbound m e = l + 1" "aprec e = l" "3 \<le> l" "l \<noteq> 3" "l \<noteq> 14"
    "l + 1 \<le> 16" "binding k = Some (l, False)" "l \<noteq> 2" "k \<noteq> ''?''" "k = ''&&'' \<or> k = ''||''"
    using k by auto
  have at1: "at_toks p (?ta @ TOp k # ?tb @ rest)" using at by (simp add: e)
  have "m \<le> l" "l < l \<or> l = l \<and> l \<noteq> 3 \<and> l \<noteq> 14" using m e by auto
  note A = left_operand [OF a this(1) at1 e(8,9,4) this(2) n]
  show "outcome (sem e (ap_live p) (ap_vars p)) (expr n m p)
     (\<lambda>v s. \<exists>n'. 2 * length rest + 1 \<le> n' \<and> expr n m p = expr_loop n' m v (after p (length (utoks e)) s))"
  proof (cases "sem a (ap_live p) (ap_vars p)")
    case (Pair x s1)
    show ?thesis
    proof (cases x)
      case (Inl err)
      then show ?thesis using A Pair k by (auto simp: outcome_def sbind_def)
    next
      case (Inr va)
      then obtain j where j: "2 * length (?tb @ rest) + 2 \<le> j"
        "expr n m p = expr_loop (Suc j) m va (after p (length ?ta) s1)"
        using A Pair by (auto simp: outcome_def)
      define live where "live = (ap_live p \<and> \<not> ((k = ''&&'' \<and> va = 0) \<or> (k = ''||'' \<and> va \<noteq> 0)))"
      let ?q = "(after p (length ?ta + 1) s1)\<lparr>ap_live := live\<rparr>"
      have q: "peek (after p (length ?ta) s1) = Some (TOp k)" "at_toks ?q (?tb @ rest)"
        using at_toks_Cons [OF at_toks_after [OF at1]] by auto
      have B: "outcome (sem b live s1) (expr j (l + 1) ?q) (\<lambda>v s. expr j (l + 1) ?q = Some (Inr v, after ?q (length ?tb) s))"
        using right_operand [OF b q(2), of j] st j(1) at_toks_rem [OF q(2)] e(2,7) by simp
      have step: "expr n m p = abind (expr j (l + 1) ?q) (\<lambda>rhs q. expr_loop j m
          (if k = ''&&'' then of_bool64 (va \<noteq> 0 \<and> rhs \<noteq> 0) else of_bool64 (va \<noteq> 0 \<or> rhs \<noteq> 0)) (q\<lparr>ap_live := ap_live p\<rparr>))"
        unfolding j(2) expr_loop.simps q(1) live_def using m e by (simp add: Let_def)
      show ?thesis using B Pair Inr j(1) k unfolding step e(1)
        by (cases "sem b live s1")
          (auto simp: outcome_def sbind_def abind_def add.assoc live_def split: sum.splits intro!: exI [of _ j])
    qed
  qed
qed (use k in auto)

lemma good_cond:
  assumes c: "good c" "wf_aexp c" and a: "good a" "wf_aexp a" and b: "good b" "wf_aexp b"
  shows "good (ACond c a b)"
  unfolding good_def expr_ok_def
proof (intro conjI allI impI)
  fix m n p rest
  assume m: "m \<le> aprec (ACond c a b)" and at: "at_toks p (utoks (ACond c a b) @ rest)"
    and st: "stop_ok (rbound m (ACond c a b)) rest" and n: "2 * rem_toks p + 2 \<le> n"
  let ?tc = "wrap 4 c (utoks c)" and ?ta = "wrap 0 a (utoks a)" and ?tb = "wrap 3 b (utoks b)"
  have at1: "at_toks p (?tc @ TOp ''?'' # ?ta @ TOp '':'' # ?tb @ rest)" using at by (simp add: wrap_def)
  have C: "outcome (sem c (ap_live p) (ap_vars p)) (expr n m p)
      (\<lambda>v s. \<exists>j. 2 * length (?ta @ TOp '':'' # ?tb @ rest) + 2 \<le> j \<and> expr n m p = expr_loop (Suc j) m v (after p (length ?tc) s))"
    using m n by (intro left_operand [OF c _ at1, where pr = 3 and r = True]) auto
  show "outcome (sem (ACond c a b) (ap_live p) (ap_vars p)) (expr n m p)
     (\<lambda>v s. \<exists>n'. 2 * length rest + 1 \<le> n' \<and> expr n m p = expr_loop n' m v (after p (length (utoks (ACond c a b))) s))"
  proof (cases "sem c (ap_live p) (ap_vars p)")
    case (Pair x s1)
    show ?thesis
    proof (cases x)
      case (Inl err)
      then show ?thesis using C Pair by (auto simp: outcome_def sbind_def)
    next
      case (Inr vc)
      then obtain j where j: "2 * length (?ta @ TOp '':'' # ?tb @ rest) + 2 \<le> j"
        "expr n m p = expr_loop (Suc j) m vc (after p (length ?tc) s1)"
        using C Pair by (auto simp: outcome_def)
      let ?q = "(after p (length ?tc + 1) s1)\<lparr>ap_live := ap_live p \<and> vc \<noteq> 0\<rparr>"
      have q: "peek (after p (length ?tc) s1) = Some (TOp ''?'')" "at_toks ?q (?ta @ TOp '':'' # ?tb @ rest)"
        using at_toks_Cons [OF at_toks_after [OF at1]] by auto
      have A: "outcome (sem a (ap_live p \<and> vc \<noteq> 0) s1) (expr j 0 ?q) (\<lambda>v s. expr j 0 ?q = Some (Inr v, after ?q (length ?ta) s))"
        using right_operand [OF a q(2), of j] j(1) at_toks_rem [OF q(2)] by simp
      let ?r = "\<lambda>s2. (after p (length ?tc + 1 + length ?ta + 1) s2)\<lparr>ap_live := ap_live p \<and> vc = 0\<rparr>"
      have r: "peek (after ?q (length ?ta) s2) = Some (TOp '':'')" "at_toks (?r s2) (?tb @ rest)" for s2
        using at_toks_Cons [OF at_toks_after [OF q(2)], of s2] by auto
      have B: "outcome (sem b (ap_live p \<and> vc = 0) s2) (expr j 3 (?r s2)) (\<lambda>v s. expr j 3 (?r s2) = Some (Inr v, after (?r s2) (length ?tb) s))" for s2
        using right_operand [OF b r(2) [of s2], of j] st j(1) at_toks_rem [OF r(2) [of s2]] by simp
      have step: "expr n m p = abind (expr j 0 ?q) (\<lambda>va q.
          if peek q \<noteq> Some (TOp '':'') then Some (Inl (''syntax error: `:'' @ [CHR 0x27] @ '' expected for conditional expression''), q)
          else abind (expr j 3 ((advance 1 q)\<lparr>ap_live := ap_live p \<and> vc = 0\<rparr>)) (\<lambda>vb q.
            expr_loop j m (if vc \<noteq> 0 then va else vb) (q\<lparr>ap_live := ap_live p\<rparr>)))"
        unfolding j(2) expr_loop.simps q(1) using m by (simp add: Let_def cong: if_cong)
      show ?thesis
      proof (cases "sem a (ap_live p \<and> vc \<noteq> 0) s1")
        case P2: (Pair y s2)
        show ?thesis
          using A P2 B [of s2] r(1) [of s2] Pair Inr j(1) unfolding step
          by (cases "sem b (ap_live p \<and> vc = 0) s2")
            (auto simp: outcome_def sbind_def abind_def add.assoc wrap_def split: sum.splits intro!: exI [of _ j])
      qed
    qed
  qed
qed simp

lemma good_assign:
  assumes e: "good e" "wf_aexp e" and k: "k \<in> set assign_ops"
  shows "good (AAssign name k e)"
  unfolding good_def expr_ok_def
proof (intro conjI allI impI)
  fix m n p rest
  assume m: "m \<le> aprec (AAssign name k e)" and at: "at_toks p (utoks (AAssign name k e) @ rest)"
    and st: "stop_ok (rbound m (AAssign name k e)) rest" and n: "2 * rem_toks p + 2 \<le> n"
  let ?te = "wrap 2 e (utoks e)"
  obtain j where j: "n = Suc j" using n by (cases n) auto
  have at2: "peek p = Some (TName name)" "peek (advance 1 p) = Some (TOp k)" "at_toks (advance 2 p) (?te @ rest)"
    using at_toks_Cons2 [of p "TName name" "TOp k" "?te @ rest"] at by auto
  have st2: "stop_ok 2 rest" "stop_ok m rest" using st m by (auto intro: stop_ok_mono)
  have E: "outcome (sem e (ap_live p) (ap_vars p)) (expr j 2 (advance 2 p))
      (\<lambda>v s. expr j 2 (advance 2 p) = Some (Inr v, after (advance 2 p) (length ?te) s))"
    using right_operand [OF e at2(3) st2(1), of j] n j at_toks_rem [OF at] at_toks_rem [OF at2(3)] by simp
  have g: "vec_get (ap_t p) (ap_i p) = Some (TName name)" "vec_get (ap_t p) (Suc (ap_i p)) = Some (TOp k)"
    using at2(1,2) by (simp_all add: peek_def)
  have step: "expr n m p = abind (expr j 2 (advance 2 p)) (\<lambda>rhs q.
      case (if k = ''='' then Inr rhs else case var_of (ap_vars q) name of Inl e \<Rightarrow> Inl e | Inr v \<Rightarrow> apply_op (butlast k) v rhs) of
        Inl e \<Rightarrow> Some (Inl e, q) | Inr v \<Rightarrow> Some (Inr v, assign name v q))"
    unfolding j using m by (simp add: expr.simps g binding_assign [OF k])
  have stop: "expr_loop (2 * length rest + 1) m v (after p (length ?te + 2) s) = Some (Inr v, after p (length ?te + 2) s)" for v s
    using at_toks_after [OF at] st2 by (intro loop_stops) auto
  show "outcome (sem (AAssign name k e) (ap_live p) (ap_vars p)) (expr n m p)
     (\<lambda>v s. \<exists>n'. 2 * length rest + 1 \<le> n' \<and> expr n m p = expr_loop n' m v (after p (length (utoks (AAssign name k e))) s))"
  proof (cases "sem e (ap_live p) (ap_vars p)")
    case (Pair x s1)
    then show ?thesis using E stop unfolding step
      by (auto simp: outcome_def sbind_def abind_def assign_after split: sum.splits if_splits intro!: exI [of _ "2 * length rest + 1"])
  qed
qed simp

lemma wf_good: "wf_aexp e \<Longrightarrow> good e"
proof (induction e)
  case (AAnd a b)
  then show ?case using good_logic [of a b "''&&''"] by simp
next
  case (AOr a b)
  then show ?case using good_logic [of a b "''||''"] by simp
qed (simp_all add: good_num good_var good_un good_pre good_post good_bin good_cond good_assign)

section \<open>From text to tokens\<close>

definition valid_name :: "string \<Rightarrow> bool" where
  "valid_name n \<longleftrightarrow> n \<noteq> [] \<and> (hd n = CHR ''_'' \<or> is_alpha (hd n)) \<and> list_all name_char n"

fun valid_tok :: "tok \<Rightarrow> bool" where
  "valid_tok (TNum v) = (unat v < 2 ^ 63)"
| "valid_tok (TName n) = valid_name n"
| "valid_tok (TOp k) = (k \<in> set OPS)"
| "valid_tok LParen = True"
| "valid_tok RParen = True"

fun tok_text :: "tok \<Rightarrow> string" where
  "tok_text (TNum v) = dec_str (unat v)"
| "tok_text (TName n) = n"
| "tok_text (TOp k) = k"
| "tok_text LParen = ''(''"
| "tok_text RParen = '')''"

definition render :: "tok list \<Rightarrow> string" where
  "render ts = concat (map (\<lambda>t. tok_text t @ '' '') ts)"

lemma dec_str_hd: "10 \<le> n \<Longrightarrow> hd (dec_str n) \<noteq> CHR ''0''"
proof (induction n rule: dec_str.induct)
  case (1 n)
  show ?case
  proof (cases "n div 10 < 10")
    case True
    then have "dec_str (n div 10) = [digit_char (n div 10)]" by (simp add: dec_str.simps)
    moreover have "digit_char (n div 10) \<noteq> CHR ''0''"
      using digit_char_code [of "n div 10"] True 1(2) by (auto simp: div_eq_0_iff)
    ultimately show ?thesis using 1(2) by (subst dec_str.simps) simp
  next
    case False
    then show ?thesis using 1 by (subst dec_str.simps) (simp add: hd_append)
  qed
qed

lemma parse_i64_dec: "n < 2 ^ 63 \<Longrightarrow> parse_i64 10 (dec_str n) = Some (of_nat n)"
proof -
  assume n: "n < 2 ^ 63"
  obtain c cs where d: "dec_str n = c # cs" by (cases "dec_str n") auto
  have "is_ascii_digit c" using dec_str_digits [of c n] d by simp
  then have "c \<noteq> CHR ''-''" "c \<noteq> CHR ''+''" by (auto simp: is_ascii_digit_def)
  then show ?thesis using n digits_val_dec_str [of n] by (simp add: parse_i64_def d)
qed

lemma parse_i64_neg: "n \<le> 2 ^ 63 \<Longrightarrow> parse_i64 10 (CHR ''-'' # dec_str n) = Some (- of_nat n)"
  by (simp add: parse_i64_def digits_val_dec_str)

lemma parse_num_dec: "n < 2 ^ 63 \<Longrightarrow> parse_num (dec_str n) = Inr (of_nat n)"
proof -
  assume n: "n < 2 ^ 63"
  have dig: "list_all is_ascii_digit (dec_str n)" using dec_str_digits by (auto simp: list_all_iff)
  have "take 2 (dec_str n) \<noteq> ''0x''" "take 2 (dec_str n) \<noteq> ''0X''"
    using dig by (cases "dec_str n"; cases "tl (dec_str n)"; auto simp: is_ascii_digit_def)+
  moreover have "split_once (\<lambda>c. c = CHR ''#'') (dec_str n) = None"
    using dig by (intro split_once_none) (auto simp: list_all_iff is_ascii_digit_def)
  moreover have "\<not> (1 < length (dec_str n) \<and> hd (dec_str n) = CHR ''0'')"
  proof (cases "n < 10")
    case True
    then show ?thesis by (subst dec_str.simps) simp
  next
    case False
    then show ?thesis using dec_str_hd by simp
  qed
  ultimately show ?thesis using parse_i64_dec [OF n] by (auto simp: parse_num_def num_result_def)
qed

lemma parse_num_neg: "n \<le> 2 ^ 63 \<Longrightarrow> parse_num (CHR ''-'' # dec_str n) = Inr (- of_nat n)"
proof -
  assume n: "n \<le> 2 ^ 63"
  have "split_once (\<lambda>c. c = CHR ''#'') (CHR ''-'' # dec_str n) = None"
    using dec_str_digits [of "CHR ''#''" n] by (intro split_once_none) (auto simp: is_ascii_digit_def)
  then show ?thesis using parse_i64_neg [OF n] by (auto simp: parse_num_def num_result_def)
qed

lemma sint_bounds: "- (2 ^ 63) \<le> sint (v :: i64)" "sint (v :: i64) < 2 ^ 63"
  using sint_greater_eq [of v] sint_less [of v] by simp_all

lemma parse_num_i64_str: "parse_num (i64_str v) = Inr v"
proof (cases "sint v < 0")
  case True
  then have "nat (- sint v) \<le> 2 ^ 63" using sint_bounds(1) [of v] by simp
  moreover have "- word_of_nat (nat (- sint v)) = v" using True by simp
  ultimately show ?thesis using True by (simp add: i64_str_def parse_num_neg)
next
  case False
  then have "nat (sint v) < 2 ^ 63" using sint_bounds(2) [of v] by simp
  moreover have "word_of_nat (nat (sint v)) = v" using False by simp
  ultimately show ?thesis using False by (simp add: i64_str_def parse_num_dec)
qed

lemma i64_str_plain: "list_all (\<lambda>c. \<not> is_ascii_space c) (i64_str v)"
proof -
  have "c \<in> set (dec_str n) \<Longrightarrow> \<not> is_ascii_space c" for c n
    using dec_str_digits [of c n] by (auto simp: is_ascii_space_def is_ascii_digit_def Let_def)
  then show ?thesis by (auto simp: i64_str_def list_all_iff is_ascii_space_def Let_def)
qed

text \<open>A value assigned to a variable, which is stored as decimal text, reads back
  as the same 64-bit value, for every value including the most negative one.\<close>

theorem arith_assign_roundtrip: "var_of (assign_to True vars name v) name = Inr v"
proof -
  have "i64_str v \<noteq> []" by (simp add: i64_str_def)
  then show ?thesis by (simp add: var_of_def assign_to_def str_trim_id i64_str_plain parse_num_i64_str)
qed

lemma num_chars_digits: "list_all is_ascii_digit s \<Longrightarrow> takeWhile num_char (s @ CHR '' '' # t) = s \<and> dropWhile num_char (s @ CHR '' '' # t) = CHR '' '' # t"
  by (induction s) (auto simp: num_char_def is_alpha_def is_ascii_digit_def)

lemma name_chars_stop: "list_all name_char s \<Longrightarrow> takeWhile name_char (s @ CHR '' '' # t) = s \<and> dropWhile name_char (s @ CHR '' '' # t) = CHR '' '' # t"
  by (induction s) (auto simp: name_char_def is_alpha_def is_ascii_digit_def)

declare lex.simps [simp del]

lemma lex_space: "lex (CHR '' '' # s) = lex s"
  by (simp add: lex.simps is_ascii_space_def)

lemma lex_num:
  assumes "unat v < 2 ^ 63"
  shows "lex (dec_str (unat v) @ '' '' @ s) = (case lex s of Inl e \<Rightarrow> Inl e | Inr ts \<Rightarrow> Inr (TNum v # ts))"
proof -
  obtain c cs where d: "dec_str (unat v) = c # cs" by (cases "dec_str (unat v)") auto
  have dig: "is_ascii_digit c" "list_all is_ascii_digit cs" using dec_str_digits [of _ "unat v"] d by (auto simp: list_all_iff)
  then have "\<not> is_ascii_space c" by (auto simp: is_ascii_space_def is_ascii_digit_def Let_def)
  then show ?thesis unfolding d append_Cons lex.simps(2)
    using dig num_chars_digits [OF dig(2), of s] parse_num_dec [OF assms] d by (simp add: Let_def lex_space)
qed

lemma lex_name:
  assumes "valid_name n"
  shows "lex (n @ '' '' @ s) = (case lex s of Inl e \<Rightarrow> Inl e | Inr ts \<Rightarrow> Inr (TName n # ts))"
proof -
  obtain c cs where n: "n = c # cs" using assms by (cases n) (auto simp: valid_name_def)
  have c: "c = CHR ''_'' \<or> is_alpha c" "list_all name_char cs" using assms n by (auto simp: valid_name_def)
  then have "\<not> is_ascii_space c" "\<not> is_ascii_digit c"
    by (auto simp: is_ascii_space_def is_ascii_digit_def is_alpha_def Let_def)
  then show ?thesis unfolding n append_Cons lex.simps(2)
    using c name_chars_stop [OF c(2), of s] by (simp add: lex_space split: sum.split)
qed

lemma lex_op:
  assumes "k \<in> set OPS"
  shows "lex (k @ '' '' @ s) = (case lex s of Inl e \<Rightarrow> Inl e | Inr ts \<Rightarrow> Inr (TOp k # ts))"
  using assms unfolding OPS_def
  by (simp only: list.set insert_iff empty_iff, elim disjE FalseE;
      simp add: lex.simps(2) lex_space OPS_def is_ascii_space_def is_ascii_digit_def is_alpha_def Let_def split: sum.split)

lemma lex_tok:
  "valid_tok t \<Longrightarrow> lex (tok_text t @ '' '' @ s) = (case lex s of Inl e \<Rightarrow> Inl e | Inr ts \<Rightarrow> Inr (t # ts))"
  by (cases t) (simp_all add: lex_num [simplified] lex_name [simplified] lex_op [simplified] lex.simps(2) lex_space
      is_ascii_space_def is_ascii_digit_def is_alpha_def split: sum.split)

lemma lex_render: "list_all valid_tok ts \<Longrightarrow> lex (render ts) = Inr ts"
proof (induction ts)
  case (Cons t ts)
  then show ?case using lex_tok [of t "render ts"] by (simp add: render_def)
qed (simp add: render_def lex.simps)



text \<open>Two surprises: a skipped operand still fails, so that \<^verbatim>\<open>x && 10 / x\<close> is an error when \<open>x\<close> is 0, and an
  assignment at the start of an expression ends it, so that a comma after it is a syntax error, reported
  after the assignment has been made.\<close>

lemma skipped_division_fails:
  "sem (AAnd (ANum 0) (ABin ''/'' (ANum 10) (ANum 0))) True s = (Inl ''division by 0'', s)"
  by (simp add: sbind_def apply_op_def)

lemma comma_after_assignment_fails:
  assumes "lex src = Inr (TName n # TOp ''='' # TNum v # TOp '','' # ts)"
  shows "\<exists>e. eval src vars = Some (Inl e, vars(n \<mapsto> i64_str v))"
proof -
  let ?ts = "TName n # TOp ''='' # TNum v # TOp '','' # ts"
  let ?p = "\<lparr>ap_t = ?ts, ap_i = 0, ap_vars = vars, ap_live = True\<rparr>"
  obtain j where f: "arith_fuel ?ts = Suc (Suc (Suc j))" by (simp add: arith_fuel_def)
  have b: "binding ''='' = Some (2, True)" by (simp add: binding_def)
  have "expr (arith_fuel ?ts) 0 ?p = Some (Inr v, assign n v (advance 3 ?p))"
    unfolding f by (simp add: expr.simps primary.simps expr_loop.simps vec_get_def peek_def advance_def b abind_def numeral_3_eq_3)
  then show ?thesis by (simp add: eval_def assms assign_def advance_def assign_to_def)
qed

end
