(* ===== verification/Crc32.thy ===== *)
theory Crc32
  imports Prelude
begin

unbundle bit_operations_syntax

text \<open>
  CRC-32 of \<^verbatim>\<open>lib/archive/src/crc32.rs\<close>: the eight tables built at compile time and the slice-by-8 update. The
  reference is the shift register that takes one bit at a time; the two agree because the register step is
  linear over exclusive or.
\<close>

definition POLY :: u32 where "POLY = 0xEDB88320"

definition crc_bit :: "u32 \<Rightarrow> u32" where
  "crc_bit c = (if c AND 1 \<noteq> 0 then POLY XOR drop_bit 1 c else drop_bit 1 c)"

definition table0 :: "u32 list" where
  "table0 = map (\<lambda>i. (crc_bit ^^ 8) (of_nat i)) [0..<256]"

definition next_table :: "u32 list \<Rightarrow> u32 list" where
  "next_table t = map (\<lambda>prev. drop_bit 8 prev XOR table0 ! unat (prev AND 0xFF)) t"

definition make_tables :: "u32 list list" where
  "make_tables = map (\<lambda>s. (next_table ^^ s) table0) [0..<8]"

definition TABLES :: "u32 list list" where "TABLES = make_tables"

definition from_le_bytes :: "u8 list \<Rightarrow> u32" where
  "from_le_bytes bs = of_le bs"

definition crc_chunk :: "u32 \<Rightarrow> u8 list \<Rightarrow> u32" where
  "crc_chunk c b =
     (let t = TABLES;
          lo = c XOR from_le_bytes [b ! 0, b ! 1, b ! 2, b ! 3];
          hi = from_le_bytes [b ! 4, b ! 5, b ! 6, b ! 7]
      in (t ! 7) ! unat (lo AND 0xFF)
         XOR (t ! 6) ! unat (drop_bit 8 lo AND 0xFF)
         XOR (t ! 5) ! unat (drop_bit 16 lo AND 0xFF)
         XOR (t ! 4) ! unat (drop_bit 24 lo)
         XOR (t ! 3) ! unat (hi AND 0xFF)
         XOR (t ! 2) ! unat (drop_bit 8 hi AND 0xFF)
         XOR (t ! 1) ! unat (drop_bit 16 hi AND 0xFF)
         XOR (t ! 0) ! unat (drop_bit 24 hi))"

definition crc_byte :: "u32 \<Rightarrow> u8 \<Rightarrow> u32" where
  "crc_byte c b = drop_bit 8 c XOR (TABLES ! 0) ! unat ((c XOR ucast b) AND 0xFF)"

text \<open>\<^verbatim>\<open>chunks_exact(8)\<close>, then the remainder.\<close>

function update_loop :: "u32 \<Rightarrow> u8 list \<Rightarrow> u32" where
  "update_loop c data =
     (if 8 \<le> length data then update_loop (crc_chunk c (take 8 data)) (drop 8 data)
      else foldl crc_byte c data)"
  by pat_completeness auto
termination by (relation "measure (\<lambda>(c, data). length data)") auto

declare update_loop.simps [simp del]

record crc32 = crc_state :: u32

definition crc_new :: crc32 where
  "crc_new = \<lparr>crc_state = 0xFFFFFFFF\<rparr>"

definition crc_update :: "crc32 \<Rightarrow> u8 list \<Rightarrow> crc32" where
  "crc_update s data = s\<lparr>crc_state := update_loop (crc_state s) data\<rparr>"

definition crc_value :: "crc32 \<Rightarrow> u32" where
  "crc_value s = NOT (crc_state s)"

definition checksum :: "u8 list \<Rightarrow> u32" where
  "checksum data = crc_value (crc_update crc_new data)"

section \<open>The register is linear\<close>

definition crc8 :: "u32 \<Rightarrow> u32" where
  "crc8 = crc_bit ^^ 8"

lemma and_one_iff: "(c :: u32) AND 1 \<noteq> 0 \<longleftrightarrow> bit c 0"
  by (simp add: and_one_eq odd_iff_mod_2_eq_one even_iff_mod_2_eq_zero bit_0)

lemma crc_bit_xor: "crc_bit (a XOR b) = crc_bit a XOR crc_bit b"
  by (rule bit_word_eqI) (auto simp: crc_bit_def and_one_iff bit_xor_iff bit_drop_bit_eq)

lemma funpow_xor:
  fixes f :: "u32 \<Rightarrow> u32"
  assumes "\<And>a b. f (a XOR b) = f a XOR f b"
  shows "(f ^^ n) (a XOR b) = (f ^^ n) a XOR (f ^^ n) b"
  by (induction n) (simp_all add: assms)

lemma crc8_xor: "crc8 (a XOR b) = crc8 a XOR crc8 b"
  by (simp add: crc8_def funpow_xor crc_bit_xor)

lemma crc8_pow_xor: "(crc8 ^^ n) (a XOR b) = (crc8 ^^ n) a XOR (crc8 ^^ n) b"
  by (simp add: funpow_xor crc8_xor)

lemma crc_bit_even: "\<not> bit c 0 \<Longrightarrow> crc_bit c = drop_bit 1 c"
  by (simp add: crc_bit_def and_one_iff)

lemma crc_bits_shift: "(\<And>i. i < n \<Longrightarrow> \<not> bit c i) \<Longrightarrow> (crc_bit ^^ n) c = drop_bit n c"
proof (induction n)
  case (Suc n)
  then have "(crc_bit ^^ n) c = drop_bit n c" by simp
  moreover have "\<not> bit (drop_bit n c) 0" using Suc.prems [of n] by (simp add: bit_drop_bit_eq)
  ultimately show ?case by (simp add: crc_bit_even)
qed simp

lemma crc8_high: "(\<And>i. i < 8 \<Longrightarrow> \<not> bit c i) \<Longrightarrow> crc8 c = drop_bit 8 c"
  unfolding crc8_def by (rule crc_bits_shift)

lemma and_ff: "(w :: u32) AND 0xFF = take_bit 8 w"
  by (simp add: take_bit_eq_mask mask_eq_exp_minus_1)

lemma crc8_split: "crc8 c = drop_bit 8 c XOR crc8 (take_bit 8 c)"
proof -
  let ?h = "push_bit 8 (drop_bit 8 c)"
  have "c = ?h XOR take_bit 8 c"
    by (rule bit_word_eqI) (auto simp: bit_simps)
  then have "crc8 c = crc8 ?h XOR crc8 (take_bit 8 c)" by (metis crc8_xor)
  moreover have "crc8 ?h = drop_bit 8 ?h"
    by (rule crc8_high) (simp add: bit_simps)
  moreover have "drop_bit 8 ?h = drop_bit 8 c"
    by (rule bit_word_eqI) (auto simp: bit_simps dest: bit_imp_le_length)
  ultimately show ?thesis by simp
qed

section \<open>The tables\<close>

lemma unat_byte: "unat (take_bit 8 (c :: u32)) < 256"
  by (simp add: unsigned_take_bit_eq take_bit_nat_eq_self_iff [of 8, simplified, symmetric])

lemma table0_nth: "i < 256 \<Longrightarrow> table0 ! i = crc8 (of_nat i)"
  by (simp add: table0_def crc8_def)

lemma length_next_tables [simp]: "length ((next_table ^^ s) table0) = 256"
  by (induction s) (simp_all add: next_table_def table0_def)

lemma next_tables_nth: "i < 256 \<Longrightarrow> (next_table ^^ s) table0 ! i = (crc8 ^^ Suc s) (of_nat i)"
proof (induction s)
  case 0
  then show ?case by (simp add: table0_nth)
next
  case (Suc s)
  have "next_table t ! i = drop_bit 8 (t ! i) XOR table0 ! unat (take_bit 8 (t ! i))" if "length t = 256" for t
    using that Suc.prems by (simp add: next_table_def and_ff)
  then have "(next_table ^^ Suc s) table0 ! i =
      drop_bit 8 ((crc8 ^^ Suc s) (of_nat i)) XOR table0 ! unat (take_bit 8 ((crc8 ^^ Suc s) (of_nat i)))"
    using Suc by simp
  also have "\<dots> = crc8 ((crc8 ^^ Suc s) (of_nat i))"
    by (subst table0_nth [OF unat_byte], subst crc8_split) simp
  finally show ?case by simp
qed

lemma TABLES_nth: "s < 8 \<Longrightarrow> unat c < 256 \<Longrightarrow> (TABLES ! s) ! unat c = (crc8 ^^ Suc s) c"
  using next_tables_nth [of "unat c" s] by (simp add: TABLES_def make_tables_def)

section \<open>Equivalence with the bit-serial register\<close>

text \<open>The reference: a byte is exclusive-ored into the low end of the register, which is then shifted eight
  times.\<close>

definition crc_ref :: "u32 \<Rightarrow> u8 list \<Rightarrow> u32" where
  "crc_ref = foldl (\<lambda>c b. (crc_bit ^^ 8) (c XOR ucast b))"

lemma crc_byte_ref: "crc_byte c b = crc8 (c XOR ucast b)"
proof -
  let ?x = "c XOR ucast b"
  have "\<not> bit (ucast b :: u32) (i + 8)" for i
    by (simp add: bit_ucast_iff bit_u8_ge)
  then have "drop_bit 8 ?x = drop_bit 8 c"
    by (intro bit_word_eqI) (auto simp: bit_drop_bit_eq bit_xor_iff add.commute)
  then show ?thesis
    using TABLES_nth [of 0 "take_bit 8 ?x"] unat_byte [of ?x] crc8_split [of ?x] by (simp add: crc_byte_def and_ff)
qed

lemma crc8_pow_push:
  "k \<le> n \<Longrightarrow> k \<le> 3 \<Longrightarrow> (\<And>i. bit b i \<Longrightarrow> i < 8) \<Longrightarrow> (crc8 ^^ n) (push_bit (8 * k) b) = (crc8 ^^ (n - k)) b"
proof (induction k arbitrary: n)
  case (Suc k)
  then obtain n' where n: "n = Suc n'" by (cases n) auto
  have "crc8 (push_bit (8 * Suc k) b) = drop_bit 8 (push_bit (8 * Suc k) b)"
    by (rule crc8_high) (simp add: bit_push_bit_iff)
  also have "\<dots> = push_bit (8 * k) b"
    using Suc.prems(2,3) by (intro bit_word_eqI) (force simp: bit_drop_bit_eq bit_push_bit_iff)
  finally show ?case using Suc.IH [of n'] Suc.prems n by (simp add: funpow_swap1)
qed simp

lemma word_bytes:
  "(w :: u32) = take_bit 8 w XOR push_bit 8 (take_bit 8 (drop_bit 8 w)) XOR push_bit 16 (take_bit 8 (drop_bit 16 w)) XOR push_bit 24 (drop_bit 24 w)"
  by (rule bit_word_eqI) (auto simp: bit_simps)

lemma low_byte_bits: "bit (take_bit 8 (w :: u32)) i \<Longrightarrow> i < 8" "bit (drop_bit 24 (w :: u32)) i \<Longrightarrow> i < 8"
  by (auto simp: bit_simps dest: bit_imp_le_length)

lemma crc8_pow_word:
  assumes "4 \<le> n"
  shows "(crc8 ^^ n) w = (crc8 ^^ n) (take_bit 8 w) XOR (crc8 ^^ (n - 1)) (take_bit 8 (drop_bit 8 w))
    XOR (crc8 ^^ (n - 2)) (take_bit 8 (drop_bit 16 w)) XOR (crc8 ^^ (n - 3)) (drop_bit 24 w)"
proof -
  have "(crc8 ^^ n) w = (crc8 ^^ n) (take_bit 8 w XOR push_bit (8 * 1) (take_bit 8 (drop_bit 8 w))
      XOR push_bit (8 * 2) (take_bit 8 (drop_bit 16 w)) XOR push_bit (8 * 3) (drop_bit 24 w))"
    using word_bytes [of w] by simp
  also have "\<dots> = (crc8 ^^ n) (take_bit 8 w) XOR (crc8 ^^ n) (push_bit (8 * 1) (take_bit 8 (drop_bit 8 w)))
      XOR (crc8 ^^ n) (push_bit (8 * 2) (take_bit 8 (drop_bit 16 w))) XOR (crc8 ^^ n) (push_bit (8 * 3) (drop_bit 24 w))"
    by (simp only: crc8_pow_xor)
  finally show ?thesis
    using assms by (simp only: crc8_pow_push [OF _ _ low_byte_bits(1)] crc8_pow_push [OF _ _ low_byte_bits(2)])
qed

lemma unat_top: "unat (drop_bit 24 (w :: u32)) < 256"
proof -
  have w: "unat w < 2 ^ 32" using unsigned_less [of w] by simp
  then have "unat (drop_bit 24 w) = unat w div 2 ^ 24"
    using drop_bit_eq_div [of 24 "unat w"] unsigned_drop_bit_eq [of 24 w, where 'a = nat] by (simp add: take_bit_nat_eq_self)
  then show ?thesis using w by simp
qed

lemma TABLES_entries:
  assumes "unat c < 256"
  shows "(TABLES ! 0) ! unat c = crc8 c" "(TABLES ! 1) ! unat c = (crc8 ^^ 2) c" "(TABLES ! 2) ! unat c = (crc8 ^^ 3) c"
    "(TABLES ! 3) ! unat c = (crc8 ^^ 4) c" "(TABLES ! 4) ! unat c = (crc8 ^^ 5) c" "(TABLES ! 5) ! unat c = (crc8 ^^ 6) c"
    "(TABLES ! 6) ! unat c = (crc8 ^^ 7) c" "(TABLES ! 7) ! unat c = (crc8 ^^ 8) c"
  using assms TABLES_nth [of _ c] by (simp_all add: eval_nat_numeral)

lemma crc_chunk_words:
  "crc_chunk c b = (crc8 ^^ 4) ((crc8 ^^ 4) (c XOR of_le [b ! 0, b ! 1, b ! 2, b ! 3]) XOR of_le [b ! 4, b ! 5, b ! 6, b ! 7])"
proof -
  define lo where "lo = c XOR of_le [b ! 0, b ! 1, b ! 2, b ! 3]"
  define hi where "hi = (of_le [b ! 4, b ! 5, b ! 6, b ! 7] :: u32)"
  have "(crc8 ^^ 4) ((crc8 ^^ 4) lo XOR hi) = (crc8 ^^ 8) lo XOR (crc8 ^^ 4) hi"
    using funpow_add [of 4 4 crc8] by (simp add: crc8_pow_xor fun_eq_iff)
  moreover have "crc_chunk c b = (crc8 ^^ 8) lo XOR (crc8 ^^ 4) hi"
    unfolding crc_chunk_def from_le_bytes_def Let_def lo_def [symmetric] hi_def [symmetric] and_ff
      TABLES_entries [OF unat_byte] TABLES_entries [OF unat_top]
    using crc8_pow_word [of 8 lo] crc8_pow_word [of 4 hi] by (simp add: xor.assoc)
  ultimately show ?thesis by (simp add: lo_def hi_def)
qed

lemma crc_ref_words:
  "length bs \<le> 4 \<Longrightarrow> crc_ref c bs = (crc8 ^^ length bs) (c XOR of_le bs)"
proof (induction bs arbitrary: c)
  case Nil
  then show ?case by (simp add: crc_ref_def)
next
  case (Cons b bs)
  have "bit (of_le bs :: u32) i \<Longrightarrow> i < 24" for i using Cons.prems by (auto simp: bit_of_le)
  then have d: "drop_bit 8 (push_bit 8 (of_le bs :: u32)) = of_le bs"
    by (intro bit_word_eqI) (force simp: bit_simps simp del: of_le_simps)
  have s: "crc8 (push_bit 8 (of_le bs)) = of_le bs"
    using crc8_high [of "push_bit 8 (of_le bs)"] d by (simp add: bit_simps)
  have o: "of_le (b # bs) = push_bit 8 (of_le bs) XOR (ucast b :: u32)"
    by (rule bit_word_eqI) (auto simp: bit_simps dest: bit_imp_le_length)
  have "crc_ref c (b # bs) = crc_ref (crc8 (c XOR ucast b)) bs" by (simp add: crc_ref_def crc8_def)
  also have "\<dots> = (crc8 ^^ length bs) (crc8 (c XOR ucast b) XOR of_le bs)" using Cons by simp
  also have "crc8 (c XOR ucast b) XOR of_le bs = crc8 (c XOR of_le (b # bs))"
    unfolding o crc8_xor s by (simp add: xor.assoc xor.commute xor.left_commute)
  finally show ?case by (simp add: funpow_swap1)
qed

lemma crc_ref_append: "crc_ref c (xs @ ys) = crc_ref (crc_ref c xs) ys"
  by (simp add: crc_ref_def)

lemma crc_chunk_ref: "length b = 8 \<Longrightarrow> crc_chunk c b = crc_ref c b"
proof -
  assume b: "length b = 8"
  let ?l = "[b ! 0, b ! 1, b ! 2, b ! 3]" and ?h = "[b ! 4, b ! 5, b ! 6, b ! 7]"
  have "b = ?l @ ?h" by (rule nth_equalityI) (auto simp: b less_Suc_eq numeral_eq_Suc)
  then have "crc_ref c b = crc_ref (crc_ref c ?l) ?h" by (metis crc_ref_append)
  then show ?thesis by (simp add: crc_chunk_words crc_ref_words eval_nat_numeral del: of_le_simps)
qed

lemma update_loop_ref: "update_loop c data = crc_ref c data"
proof (induction c data rule: update_loop.induct)
  case (1 c data)
  show ?case
  proof (cases "8 \<le> length data")
    case True
    then have "crc_ref c data = crc_ref (crc_chunk c (take 8 data)) (drop 8 data)"
      using crc_ref_append [of c "take 8 data" "drop 8 data"] by (simp add: crc_chunk_ref)
    then show ?thesis using 1 True by (simp add: update_loop.simps)
  next
    case False
    have "crc_byte = (\<lambda>c b. (crc_bit ^^ 8) (c XOR ucast b))" by (simp add: fun_eq_iff crc_byte_ref crc8_def)
    then show ?thesis using False by (simp add: update_loop.simps crc_ref_def)
  qed
qed

text \<open>C34 (CRC-32). The slice-by-8 update with its precomputed tables is the bit-serial CRC-32 register with the
  reflected polynomial, on every input; and feeding the data in pieces gives the checksum of the whole.\<close>

theorem crc32_slice_by_8_correct:
  "checksum data = NOT (foldl (\<lambda>c b. (crc_bit ^^ 8) (c XOR ucast b)) 0xFFFFFFFF data) \<and>
   crc_update (crc_update s xs) ys = crc_update s (xs @ ys)"
  by (simp add: checksum_def crc_value_def crc_update_def crc_new_def update_loop_ref crc_ref_append) (simp add: crc_ref_def)

end
