(* ===== verification/Perm.thy ===== *)
theory Perm
  imports Errno
begin

unbundle bit_operations_syntax

text \<open>
  File types, metadata and device numbers of \<^verbatim>\<open>kernel/src/fs/mod.rs\<close> and the POSIX permission checks of
  \<^verbatim>\<open>kernel/src/fs/perm.rs\<close>.
\<close>

section \<open>File types and metadata\<close>

datatype file_type = Regular | Directory | Symlink | CharDevice | BlockDevice | Fifo | Socket

fun mode_bits :: "file_type \<Rightarrow> u32" where
  "mode_bits Fifo = 0x1000"
| "mode_bits CharDevice = 0x2000"
| "mode_bits Directory = 0x4000"
| "mode_bits BlockDevice = 0x6000"
| "mode_bits Regular = 0x8000"
| "mode_bits Symlink = 0xA000"
| "mode_bits Socket = 0xC000"

definition from_mode :: "u32 \<Rightarrow> file_type option" where
  "from_mode mode =
     (let t = mode AND 0xF000 in
      if t = 0x1000 then Some Fifo
      else if t = 0x2000 then Some CharDevice
      else if t = 0x4000 then Some Directory
      else if t = 0x6000 then Some BlockDevice
      else if t = 0x8000 then Some Regular
      else if t = 0xA000 then Some Symlink
      else if t = 0xC000 then Some Socket
      else None)"

fun letter :: "file_type \<Rightarrow> char" where
  "letter Regular = CHR ''-''"
| "letter Directory = CHR ''d''"
| "letter Symlink = CHR ''l''"
| "letter CharDevice = CHR ''c''"
| "letter BlockDevice = CHR ''b''"
| "letter Fifo = CHR ''p''"
| "letter Socket = CHR ''s''"

fun dirent_type :: "file_type \<Rightarrow> u8" where
  "dirent_type Fifo = 1"
| "dirent_type CharDevice = 2"
| "dirent_type Directory = 4"
| "dirent_type BlockDevice = 6"
| "dirent_type Regular = 8"
| "dirent_type Symlink = 10"
| "dirent_type Socket = 12"

record timespec =
  ts_sec :: int
  ts_nsec :: u32

record metadata =
  md_dev :: u64
  md_ino :: u64
  md_kind :: file_type
  md_perm :: u16
  md_nlink :: u32
  md_uid :: u32
  md_gid :: u32
  md_size :: u64
  md_blocks :: u64
  md_blksize :: u32
  md_rdev :: u64
  md_atime :: timespec
  md_mtime :: timespec
  md_ctime :: timespec

definition md_mode :: "metadata \<Rightarrow> u32" where
  "md_mode m = mode_bits (md_kind m) OR ucast (md_perm m)"

record set_attr =
  sa_perm :: "u16 option"
  sa_uid :: "u32 option"
  sa_gid :: "u32 option"
  sa_size :: "u64 option"
  sa_atime :: "timespec option"
  sa_mtime :: "timespec option"

definition set_attr_default :: set_attr where
  "set_attr_default = \<lparr>sa_perm = None, sa_uid = None, sa_gid = None, sa_size = None, sa_atime = None, sa_mtime = None\<rparr>"

record dir_entry =
  de_name :: string
  de_ino :: u64
  de_kind :: file_type

definition makedev :: "u32 \<Rightarrow> u32 \<Rightarrow> u64" where
  "makedev mj mn = push_bit 8 (ucast mj AND 0xFFF) OR (ucast mn AND 0xFF) OR push_bit 12 (ucast mn AND NOT 0xFF)"

definition major :: "u64 \<Rightarrow> u32" where
  "major dev = ucast (drop_bit 8 dev AND 0xFFF)"

definition minor :: "u64 \<Rightarrow> u32" where
  "minor dev = ucast ((dev AND 0xFF) OR (drop_bit 12 dev AND NOT 0xFF))"

section \<open>Credentials and checks\<close>

definition MAY_EXEC :: u32 where "MAY_EXEC = 1"
definition MAY_WRITE :: u32 where "MAY_WRITE = 2"
definition MAY_READ :: u32 where "MAY_READ = 4"

record cred =
  cr_uid :: u32
  cr_gid :: u32
  cr_euid :: u32
  cr_egid :: u32
  cr_suid :: u32
  cr_sgid :: u32
  cr_groups :: "u32 list"

definition cred_root :: cred where
  "cred_root = \<lparr>cr_uid = 0, cr_gid = 0, cr_euid = 0, cr_egid = 0, cr_suid = 0, cr_sgid = 0, cr_groups = []\<rparr>"

definition cred_user :: "u32 \<Rightarrow> u32 \<Rightarrow> u32 list \<Rightarrow> cred" where
  "cred_user uid gid groups =
     \<lparr>cr_uid = uid, cr_gid = gid, cr_euid = uid, cr_egid = gid, cr_suid = uid, cr_sgid = gid, cr_groups = groups\<rparr>"

definition is_root :: "cred \<Rightarrow> bool" where
  "is_root c \<longleftrightarrow> cr_euid c = 0"

definition in_group :: "cred \<Rightarrow> u32 \<Rightarrow> bool" where
  "in_group c gid \<longleftrightarrow> cr_egid c = gid \<or> gid \<in> set (cr_groups c)"

definition perm_check :: "cred \<Rightarrow> metadata \<Rightarrow> u32 \<Rightarrow> unit KResult" where
  "perm_check c m msk =
     (if is_root c then
        (if msk AND MAY_EXEC \<noteq> 0 \<and> md_kind m \<noteq> Directory \<and> md_perm m AND 0x49 = 0 then Inl EACCES else Inr ())
      else
        let p = (ucast (md_perm m) :: u32);
            bits = (if md_uid m = cr_euid c then drop_bit 6 p AND 7
                    else if in_group c (md_gid m) then drop_bit 3 p AND 7
                    else p AND 7)
        in if bits AND msk = msk then Inr () else Inl EACCES)"

definition may_delete :: "cred \<Rightarrow> metadata \<Rightarrow> metadata \<Rightarrow> unit KResult" where
  "may_delete c dir victim =
     kbind (perm_check c dir (MAY_WRITE OR MAY_EXEC)) (\<lambda>_.
       if md_perm dir AND 0x200 \<noteq> 0 \<and> \<not> is_root c \<and> cr_euid c \<noteq> md_uid victim \<and> cr_euid c \<noteq> md_uid dir
       then Inl EPERM else Inr ())"

definition is_owner :: "cred \<Rightarrow> metadata \<Rightarrow> bool" where
  "is_owner c m \<longleftrightarrow> is_root c \<or> cr_euid c = md_uid m"

section \<open>Facts\<close>

lemma from_mode_mode_bits: "from_mode (mode_bits k OR ucast (p AND 0xFFF)) = Some k" for p :: u16
proof -
  have "(mode_bits k OR ucast (p AND 0xFFF)) AND 0xF000 = (mode_bits k AND 0xF000) OR (ucast (p AND 0xFFF) AND 0xF000)"
    by (rule bit_word_eqI) (auto simp: bit_simps)
  moreover have "(ucast (p AND 0xFFF) :: u32) AND 0xF000 = 0"
    by (simp add: unsigned_and_eq and.assoc)
  moreover have "mode_bits k AND 0xF000 = mode_bits k" by (cases k) simp_all
  ultimately show ?thesis by (cases k) (simp_all add: from_mode_def)
qed

text \<open>Which of the three permission triples applies to a caller.\<close>

definition class_bits :: "cred \<Rightarrow> metadata \<Rightarrow> u32" where
  "class_bits c m = (if md_uid m = cr_euid c then drop_bit 6 (ucast (md_perm m)) AND 7
     else if in_group c (md_gid m) then drop_bit 3 (ucast (md_perm m)) AND 7 else ucast (md_perm m) AND 7)"

lemma perm_check_user: "\<not> is_root c \<Longrightarrow> perm_check c m msk = Inr () \<longleftrightarrow> class_bits c m AND msk = msk"
  by (simp add: perm_check_def class_bits_def Let_def)

lemma perm_check_mono: "perm_check c m (a OR b) = Inr () \<Longrightarrow> perm_check c m a = Inr ()"
proof -
  assume "perm_check c m (a OR b) = Inr ()"
  moreover have "x AND (a OR b) = a OR b \<Longrightarrow> x AND a = a" for x :: u32
  proof -
    assume *: "x AND (a OR b) = a OR b"
    show "x AND a = a"
    proof (rule bit_word_eqI)
      fix n assume "n < LENGTH(32)"
      have "bit (x AND (a OR b)) n = bit (a OR b) n" using * by simp
      then show "bit (x AND a) n = bit a n" by (auto simp: bit_simps)
    qed
  qed
  moreover have "a AND MAY_EXEC \<noteq> 0 \<Longrightarrow> (a OR b) AND MAY_EXEC \<noteq> 0"
    by (simp add: MAY_EXEC_def and_one_eq flip: odd_iff_mod_2_eq_one) (simp add: even_or_iff)
  ultimately show ?thesis by (auto simp: perm_check_def Let_def split: if_splits)
qed

end
