(* ===== verification/Vfs_Path.thy ===== *)
theory Vfs_Path
  imports Perm
begin

unbundle bit_operations_syntax

text \<open>
  Path resolution, \<^verbatim>\<open>kernel/src/fs/path.rs\<close>, and mount tables, \<^verbatim>\<open>kernel/src/fs/mount.rs\<close>, over any file system:
  the methods of the trait \<^verbatim>\<open>Inode\<close> are the fields of a record of functions on a file system state \<open>'s\<close> and inode
  references \<open>'i\<close>. A mount is identified by its id, as the \<^verbatim>\<open>Arc\<close> is by its address; mount flags, which can
  change, are looked up by id. Resolution recurses into symbolic links; the result \<open>None\<close> stands for a
  resolution that does not end, which is shown not to happen.
\<close>

section \<open>The inode interface\<close>

record ('s, 'i) inode_ops =
  io_metadata :: "'s \<Rightarrow> 'i \<Rightarrow> metadata KResult"
  io_set_attr :: "'s \<Rightarrow> 'i \<Rightarrow> set_attr \<Rightarrow> unit KResult \<times> 's"
  io_lookup :: "'s \<Rightarrow> 'i \<Rightarrow> string \<Rightarrow> 'i KResult"
  io_create :: "'s \<Rightarrow> 'i \<Rightarrow> string \<Rightarrow> file_type \<Rightarrow> u16 \<Rightarrow> u32 \<Rightarrow> u32 \<Rightarrow> u64 \<Rightarrow> 'i KResult \<times> 's"
  io_symlink :: "'s \<Rightarrow> 'i \<Rightarrow> string \<Rightarrow> string \<Rightarrow> u32 \<Rightarrow> u32 \<Rightarrow> 'i KResult \<times> 's"
  io_link :: "'s \<Rightarrow> 'i \<Rightarrow> string \<Rightarrow> 'i \<Rightarrow> unit KResult \<times> 's"
  io_unlink :: "'s \<Rightarrow> 'i \<Rightarrow> string \<Rightarrow> unit KResult \<times> 's"
  io_rmdir :: "'s \<Rightarrow> 'i \<Rightarrow> string \<Rightarrow> unit KResult \<times> 's"
  io_rename :: "'s \<Rightarrow> 'i \<Rightarrow> string \<Rightarrow> 'i \<Rightarrow> string \<Rightarrow> unit KResult \<times> 's"
  io_readdir :: "'s \<Rightarrow> 'i \<Rightarrow> dir_entry list KResult"
  io_readlink :: "'s \<Rightarrow> 'i \<Rightarrow> string KResult"

definition inode_kind :: "('s, 'i) inode_ops \<Rightarrow> 's \<Rightarrow> 'i \<Rightarrow> file_type KResult" where
  "inode_kind ops s i = kbind (io_metadata ops s i) (\<lambda>m. Inr (md_kind m))"

definition inode_is_dir :: "('s, 'i) inode_ops \<Rightarrow> 's \<Rightarrow> 'i \<Rightarrow> bool" where
  "inode_is_dir ops s i = (case io_metadata ops s i of Inl _ \<Rightarrow> False | Inr m \<Rightarrow> md_kind m = Directory)"

definition inode_id :: "('s, 'i) inode_ops \<Rightarrow> 's \<Rightarrow> 'i \<Rightarrow> u64 \<times> u64" where
  "inode_id ops s i = (case io_metadata ops s i of Inl _ \<Rightarrow> (- 1, - 1) | Inr m \<Rightarrow> (md_dev m, md_ino m))"

section \<open>Mounts and path nodes\<close>

record mount_flags =
  mf_read_only :: bool
  mf_nosuid :: bool
  mf_nodev :: bool
  mf_noexec :: bool

definition MF_RW :: mount_flags where
  "MF_RW = \<lparr>mf_read_only = False, mf_nosuid = False, mf_nodev = False, mf_noexec = False\<rparr>"

definition MF_RO :: mount_flags where
  "MF_RO = \<lparr>mf_read_only = True, mf_nosuid = False, mf_nodev = False, mf_noexec = False\<rparr>"

definition mf_describe :: "mount_flags \<Rightarrow> string" where
  "mf_describe f =
     (if mf_read_only f then ''ro'' else ''rw'') @
     concat (map (\<lambda>(on, name). if on then '','' @ name else [])
       [(mf_nosuid f, ''nosuid''), (mf_nodev f, ''nodev''), (mf_noexec f, ''noexec'')])"

datatype 'i path_node =
  PathNode (pn_mount: nat) (pn_inode: 'i) (pn_name: string) (pn_parent: "'i path_node option")

fun path_parts :: "'i path_node \<Rightarrow> string list" where
  "path_parts (PathNode m i name None) = []"
| "path_parts (PathNode m i name (Some p)) = path_parts p @ [name]"

definition node_path :: "'i path_node \<Rightarrow> string" where
  "node_path n = (if path_parts n = [] then ''/'' else concat (map (\<lambda>p. CHR ''/'' # p) (path_parts n)))"

definition node_child :: "'i path_node \<Rightarrow> string \<Rightarrow> 'i \<Rightarrow> 'i path_node" where
  "node_child p name inode = PathNode (pn_mount p) inode name (Some p)"

record 'i mount =
  mt_id :: nat
  mt_root :: 'i
  mt_source :: string
  mt_parent :: "(nat \<times> (u64 \<times> u64)) option"
  mt_point :: "'i path_node option"

text \<open>
  A namespace is its list of mounts, in mount order, and its root node. The counter \<^verbatim>\<open>NEXT_MOUNT_ID\<close> is
  the argument \<open>next_id\<close>, one more after every mount; it is taken not to wrap round within \<open>2 ^ 32\<close> mounts.
\<close>

record 'i namespace =
  ns_mounts :: "'i mount list"
  ns_root :: "'i path_node"

definition ns_new :: "nat \<Rightarrow> 'i \<Rightarrow> string \<Rightarrow> 'i namespace" where
  "ns_new next_id fs_root source =
     \<lparr>ns_mounts = [\<lparr>mt_id = next_id, mt_root = fs_root, mt_source = source, mt_parent = None, mt_point = None\<rparr>],
      ns_root = PathNode next_id fs_root [] None\<rparr>"

definition ns_with_root :: "nat \<Rightarrow> 'i path_node \<Rightarrow> string \<Rightarrow> 'i namespace" where
  "ns_with_root next_id dir source =
     \<lparr>ns_mounts = [\<lparr>mt_id = next_id, mt_root = pn_inode dir, mt_source = source, mt_parent = None, mt_point = None\<rparr>],
      ns_root = PathNode next_id (pn_inode dir) [] None\<rparr>"

definition mounted_on :: "'i namespace \<Rightarrow> nat \<Rightarrow> u64 \<times> u64 \<Rightarrow> 'i mount option" where
  "mounted_on ns parent ino = find (\<lambda>m. mt_parent m = Some (parent, ino)) (rev (ns_mounts ns))"

definition ns_push :: "('s, 'i) inode_ops \<Rightarrow> 's \<Rightarrow> nat \<Rightarrow> 'i namespace \<Rightarrow> 'i path_node \<Rightarrow> 'i \<Rightarrow> string \<Rightarrow> 'i namespace" where
  "ns_push ops s next_id ns at root source =
     ns\<lparr>ns_mounts := ns_mounts ns @
       [\<lparr>mt_id = next_id, mt_root = root, mt_source = source,
         mt_parent = Some (pn_mount at, inode_id ops s (pn_inode at)), mt_point = Some at\<rparr>]\<rparr>"

definition ns_mount :: "('s, 'i) inode_ops \<Rightarrow> 's \<Rightarrow> nat \<Rightarrow> 'i namespace \<Rightarrow> 'i path_node \<Rightarrow> 'i \<Rightarrow> string \<Rightarrow> 'i namespace KResult" where
  "ns_mount ops s next_id ns at fs_root source =
     (if \<not> inode_is_dir ops s (pn_inode at) then Inl ENOTDIR
      else Inr (ns_push ops s next_id ns at fs_root source))"

definition ns_bind :: "('s, 'i) inode_ops \<Rightarrow> 's \<Rightarrow> nat \<Rightarrow> 'i namespace \<Rightarrow> 'i path_node \<Rightarrow> 'i path_node \<Rightarrow> string \<Rightarrow> 'i namespace KResult" where
  "ns_bind ops s next_id ns at src source =
     (if \<not> inode_is_dir ops s (pn_inode at) \<or> \<not> inode_is_dir ops s (pn_inode src) then Inl ENOTDIR
      else Inr (ns_push ops s next_id ns at (pn_inode src) source))"

definition is_child_mount :: "nat \<Rightarrow> 'i mount \<Rightarrow> bool" where
  "is_child_mount p m = (case mt_parent m of None \<Rightarrow> False | Some (q, _) \<Rightarrow> q = p)"

definition ns_umount :: "'i namespace \<Rightarrow> 'i path_node \<Rightarrow> ('i mount \<times> 'i namespace) KResult" where
  "ns_umount ns at =
     (case find (\<lambda>m. mt_id m = pn_mount at) (ns_mounts ns) of
        None \<Rightarrow> Inl EINVAL
      | Some m \<Rightarrow>
          if mt_root m \<noteq> pn_inode at then Inl EINVAL
          else if mt_parent m = None then Inl EBUSY
          else if list_ex (is_child_mount (mt_id m)) (ns_mounts ns) then Inl EBUSY
          else Inr (m, ns\<lparr>ns_mounts := remove1 m (ns_mounts ns)\<rparr>))"

definition ns_list :: "'i namespace \<Rightarrow> (string \<times> 'i mount) list" where
  "ns_list ns = map (\<lambda>m. (case mt_point m of None \<Rightarrow> ''/'' | Some p \<Rightarrow> node_path p, m)) (ns_mounts ns)"

definition find_mount_by_path :: "'i namespace \<Rightarrow> string \<Rightarrow> 'i mount option" where
  "find_mount_by_path ns path = map_option snd (find (\<lambda>(p, _). p = path) (rev (ns_list ns)))"

section \<open>Resolution\<close>

definition MAX_SYMLINKS :: nat where "MAX_SYMLINKS = 40"
definition NAME_MAX :: nat where "NAME_MAX = 255"
definition PATH_MAX :: nat where "PATH_MAX = 4096"

record 'i resolver =
  rs_ns :: "'i namespace"
  rs_root :: "'i path_node"
  rs_cwd :: "'i path_node"
  rs_cred :: cred

definition is_root_node :: "('s, 'i) inode_ops \<Rightarrow> 's \<Rightarrow> 'i resolver \<Rightarrow> 'i path_node \<Rightarrow> bool" where
  "is_root_node ops s r n \<longleftrightarrow>
     pn_parent n = None \<or>
     (pn_mount n = pn_mount (rs_root r) \<and> inode_id ops s (pn_inode n) = inode_id ops s (pn_inode (rs_root r)))"

text \<open>The loop that crosses stacked mounts; a namespace of \<open>k\<close> mounts needs at most \<open>k\<close> rounds.\<close>

fun cross_mounts :: "nat \<Rightarrow> ('s, 'i) inode_ops \<Rightarrow> 's \<Rightarrow> 'i namespace \<Rightarrow> 'i path_node \<Rightarrow> 'i path_node option" where
  "cross_mounts 0 ops s ns node = None"
| "cross_mounts (Suc n) ops s ns node =
     (case mounted_on ns (pn_mount node) (inode_id ops s (pn_inode node)) of
        None \<Rightarrow> Some node
      | Some m \<Rightarrow> cross_mounts n ops s ns (PathNode (mt_id m) (mt_root m) (pn_name node) (pn_parent node)))"

definition path_comps :: "string \<Rightarrow> string list" where
  "path_comps path = filter (\<lambda>c. c \<noteq> []) (split_on (CHR ''/'') path)"

definition is_absolute :: "string \<Rightarrow> bool" where
  "is_absolute path \<longleftrightarrow> path \<noteq> [] \<and> hd path = CHR ''/''"

definition walk_start :: "'i resolver \<Rightarrow> 'i path_node \<Rightarrow> string \<Rightarrow> 'i path_node" where
  "walk_start r start path = (if is_absolute path then rs_root r else start)"

definition dotdot :: "('s, 'i) inode_ops \<Rightarrow> 's \<Rightarrow> 'i resolver \<Rightarrow> 'i path_node \<Rightarrow> 'i path_node" where
  "dotdot ops s r cur =
     (if is_root_node ops s r cur then cur else case pn_parent cur of None \<Rightarrow> cur | Some p \<Rightarrow> p)"

text \<open>\<open>walk\<close> over the remaining components; \<open>n\<close> bounds the nesting of symbolic links.\<close>

function walk :: "('s, 'i) inode_ops \<Rightarrow> 's \<Rightarrow> 'i resolver \<Rightarrow> nat \<Rightarrow> 'i path_node \<Rightarrow> string list \<Rightarrow> bool \<Rightarrow> nat
    \<Rightarrow> ('i path_node KResult \<times> nat) option" where
  "walk ops s r n cur [] follow_last depth = Some (Inr cur, depth)"
| "walk ops s r n cur (c # cs) follow_last depth =
     (case io_metadata ops s (pn_inode cur) of
        Inl e \<Rightarrow> Some (Inl e, depth)
      | Inr meta \<Rightarrow>
          if md_kind meta \<noteq> Directory then Some (Inl ENOTDIR, depth)
          else case perm_check (rs_cred r) meta MAY_EXEC of
            Inl e \<Rightarrow> Some (Inl e, depth)
          | Inr _ \<Rightarrow>
              if c = ''.'' then walk ops s r n cur cs follow_last depth
              else if c = ''..'' then walk ops s r n (dotdot ops s r cur) cs follow_last depth
              else if NAME_MAX < length c then Some (Inl ENAMETOOLONG, depth)
              else case io_lookup ops s (pn_inode cur) c of
                Inl e \<Rightarrow> Some (Inl e, depth)
              | Inr inode \<Rightarrow>
                  (case cross_mounts (length (ns_mounts (rs_ns r)) + 1) ops s (rs_ns r) (node_child cur c inode) of
                     None \<Rightarrow> None
                   | Some node \<Rightarrow>
                       if cs \<noteq> [] \<or> follow_last then
                         (case inode_kind ops s (pn_inode node) of
                            Inl e \<Rightarrow> Some (Inl e, depth)
                          | Inr k \<Rightarrow>
                              if k \<noteq> Symlink then walk ops s r n node cs follow_last depth
                              else if MAX_SYMLINKS < depth + 1 then Some (Inl ELOOP, depth + 1)
                              else case io_readlink ops s (pn_inode node) of
                                Inl e \<Rightarrow> Some (Inl e, depth + 1)
                              | Inr target \<Rightarrow>
                                  (case n of
                                     0 \<Rightarrow> None
                                   | Suc n' \<Rightarrow>
                                       (case walk ops s r n' (walk_start r cur target) (path_comps target) True (depth + 1) of
                                          None \<Rightarrow> None
                                        | Some (Inl e, d) \<Rightarrow> Some (Inl e, d)
                                        | Some (Inr node', d) \<Rightarrow> walk ops s r n node' cs follow_last d)))
                       else walk ops s r n node cs follow_last depth))"
  by pat_completeness auto
termination
  by (relation "measures [\<lambda>(ops, s, r, n, cur, cs, fl, d). n, \<lambda>(ops, s, r, n, cur, cs, fl, d). length cs]") auto

declare walk.simps [simp del]

definition ends_with_slash :: "string \<Rightarrow> bool" where
  "ends_with_slash path \<longleftrightarrow> path \<noteq> [] \<and> last path = CHR ''/''"

definition resolve :: "('s, 'i) inode_ops \<Rightarrow> 's \<Rightarrow> 'i resolver \<Rightarrow> string \<Rightarrow> bool \<Rightarrow> 'i path_node KResult option" where
  "resolve ops s r path follow =
     (if path = [] then Some (Inl ENOENT)
      else if PATH_MAX < length path then Some (Inl ENAMETOOLONG)
      else
        let must_be_dir = ends_with_slash path in
        case walk ops s r MAX_SYMLINKS (walk_start r (rs_cwd r) path) (path_comps path) (follow \<or> must_be_dir) 0 of
          None \<Rightarrow> None
        | Some (Inl e, _) \<Rightarrow> Some (Inl e)
        | Some (Inr node, _) \<Rightarrow>
            if must_be_dir \<and> \<not> inode_is_dir ops s (pn_inode node) then Some (Inl ENOTDIR) else Some (Inr node))"

text \<open>The part before and after the last slash, if there is one.\<close>

definition rsplit_slash :: "string \<Rightarrow> (string \<times> string) option" where
  "rsplit_slash p =
     (if CHR ''/'' \<in> set p
      then Some (rev (tl (dropWhile (\<lambda>c. c \<noteq> CHR ''/'') (rev p))), rev (takeWhile (\<lambda>c. c \<noteq> CHR ''/'') (rev p)))
      else None)"

definition resolve_parent :: "('s, 'i) inode_ops \<Rightarrow> 's \<Rightarrow> 'i resolver \<Rightarrow> string \<Rightarrow> ('i path_node \<times> string) KResult option" where
  "resolve_parent ops s r path =
     (if path = [] then Some (Inl ENOENT)
      else
        let trimmed = trim_end_matches (CHR ''/'') path in
        if trimmed = [] then Some (Inl EBUSY)
        else
          let (dir, name) = (case rsplit_slash trimmed of
                Some (d, nm) \<Rightarrow> (if d = [] then ''/'' else d, nm)
              | None \<Rightarrow> (''.'', trimmed))
          in if NAME_MAX < length name then Some (Inl ENAMETOOLONG)
             else case resolve ops s r dir True of
               None \<Rightarrow> None
             | Some (Inl e) \<Rightarrow> Some (Inl e)
             | Some (Inr parent) \<Rightarrow>
                 if \<not> inode_is_dir ops s (pn_inode parent) then Some (Inl ENOTDIR) else Some (Inr (parent, name)))"
section \<open>Steps of a walk\<close>

definition searchable :: "('s, 'i) inode_ops \<Rightarrow> 's \<Rightarrow> 'i resolver \<Rightarrow> 'i path_node \<Rightarrow> bool" where
  "searchable ops s r cur \<longleftrightarrow>
     (case io_metadata ops s (pn_inode cur) of
        Inl _ \<Rightarrow> False
      | Inr m \<Rightarrow> md_kind m = Directory \<and> perm_check (rs_cred r) m MAY_EXEC = Inr ())"

definition enter :: "('s, 'i) inode_ops \<Rightarrow> 's \<Rightarrow> 'i resolver \<Rightarrow> 'i path_node \<Rightarrow> string \<Rightarrow> 'i path_node option" where
  "enter ops s r cur c =
     (case io_lookup ops s (pn_inode cur) c of
        Inl _ \<Rightarrow> None
      | Inr inode \<Rightarrow> cross_mounts (length (ns_mounts (rs_ns r)) + 1) ops s (rs_ns r) (node_child cur c inode))"

definition proper_name :: "string \<Rightarrow> bool" where
  "proper_name c \<longleftrightarrow> c \<noteq> [] \<and> CHR ''/'' \<notin> set c \<and> c \<noteq> ''.'' \<and> c \<noteq> ''..'' \<and> length c \<le> NAME_MAX"

lemma split_on_pieces: "p \<in> set (split_on c s) \<Longrightarrow> c \<notin> set p"
  by (induction s arbitrary: p) (auto split: if_splits list.splits)

lemma path_comps_ok: "\<forall>c\<in>set (path_comps p). c \<noteq> [] \<and> CHR ''/'' \<notin> set c"
  by (auto simp: path_comps_def dest: split_on_pieces)

lemma walk_ConsE:
  assumes "walk ops s r n cur (c # cs) fl d = Some (Inr node, d')"
  obtains (stay) "searchable ops s r cur" "c = ''.''" "walk ops s r n cur cs fl d = Some (Inr node, d')"
    | (up) "searchable ops s r cur" "c = ''..''" "walk ops s r n (dotdot ops s r cur) cs fl d = Some (Inr node, d')"
    | (down) node1 where "searchable ops s r cur" "c \<noteq> ''.''" "c \<noteq> ''..''" "length c \<le> NAME_MAX"
        "enter ops s r cur c = Some node1" "walk ops s r n node1 cs fl d = Some (Inr node, d')"
    | (link) n' target node2 d2 where "n = Suc n'"
        "walk ops s r n' (walk_start r cur target) (path_comps target) True (d + 1) = Some (Inr node2, d2)"
        "walk ops s r n node2 cs fl d2 = Some (Inr node, d')"
  using assms unfolding walk.simps(2) [of _ _ _ _ _ c cs]
  by (auto simp: searchable_def enter_def split: sum.splits if_splits option.splits nat.splits prod.splits
      simp del: walk.simps)

text \<open>
  What a walk keeps: a predicate on path nodes that the root has, that \<open>..\<close> keeps, and that holds of
  whatever is entered by a proper name from a searchable directory that has it.
\<close>

locale walk_inv =
  fixes ops :: "('s, 'i) inode_ops" and s :: 's and r :: "'i resolver" and P :: "'i path_node \<Rightarrow> bool"
  assumes at_root: "P (rs_root r)"
    and at_dotdot: "P cur \<Longrightarrow> P (dotdot ops s r cur)"
    and at_enter: "P cur \<Longrightarrow> searchable ops s r cur \<Longrightarrow> proper_name c \<Longrightarrow> enter ops s r cur c = Some node \<Longrightarrow> P node"
begin

lemma at_start: "P cur \<Longrightarrow> P (walk_start r cur path)"
  by (simp add: walk_start_def at_root)

lemma walk_keeps:
  assumes "walk ops s r n cur cs fl d = Some (Inr node, d')" "P cur"
    and "\<forall>c\<in>set cs. c \<noteq> [] \<and> CHR ''/'' \<notin> set c"
  shows "P node"
  using assms
proof (induction n arbitrary: cur cs fl d node d' rule: less_induct)
  case (less n)
  from less.prems show ?case
  proof (induction cs arbitrary: cur d)
    case Nil
    then show ?case by (simp add: walk.simps)
  next
    case (Cons c cs)
    from Cons.prems(1) show ?case
    proof (cases rule: walk_ConsE)
      case stay
      then show ?thesis using Cons by auto
    next
      case up
      then show ?thesis using Cons.IH [OF up(3)] Cons.prems at_dotdot by auto
    next
      case (down node1)
      have "proper_name c" using Cons.prems(3) down(2-4) by (simp add: proper_name_def)
      then have "P node1" using at_enter Cons.prems(2) down(1,5) by blast
      then show ?thesis using Cons.IH [OF down(6)] Cons.prems(3) by auto
    next
      case (link n' target node2 d2)
      have "P node2"
        using less.IH [OF _ link(2) at_start path_comps_ok] link(1) Cons.prems(2) by simp
      then show ?thesis using Cons.IH [OF link(3)] Cons.prems(3) by auto
    qed
  qed
qed

lemma resolve_keeps:
  assumes "resolve ops s r path follow = Some (Inr node)" "P (rs_cwd r)"
  shows "P node"
proof -
  obtain d where "walk ops s r MAX_SYMLINKS (walk_start r (rs_cwd r) path) (path_comps path)
      (follow \<or> ends_with_slash path) 0 = Some (Inr node, d)"
    using assms(1) by (auto simp: resolve_def Let_def split: if_splits option.splits sum.splits)
  then show ?thesis by (rule walk_keeps [OF _ at_start [OF assms(2)] path_comps_ok])
qed

lemma resolve_parent_keeps:
  assumes "resolve_parent ops s r path = Some (Inr (dir, name))" "P (rs_cwd r)"
  shows "P dir"
proof -
  obtain p where "resolve ops s r p True = Some (Inr dir)"
    using assms(1) by (auto simp: resolve_parent_def Let_def split: if_splits option.splits sum.splits prod.splits)
  then show ?thesis using resolve_keeps assms(2) by blast
qed

end
section \<open>Confinement\<close>

text \<open>A node lies under another when the other is itself or is met on the way up its chain of parents.\<close>

inductive under :: "'i path_node \<Rightarrow> 'i path_node \<Rightarrow> bool" for top_node :: "'i path_node" where
  under_refl: "under top_node top_node"
| under_parent: "under top_node p \<Longrightarrow> under top_node (PathNode m i name (Some p))"

inductive_cases under_PathNodeE: "under top_node (PathNode m i name q)"

lemma under_up:
  assumes "under top_node n" "n \<noteq> top_node" "pn_parent n = Some p"
  shows "under top_node p"
  using assms by (cases n) (auto elim: under_PathNodeE)

lemma cross_mounts_chain:
  "cross_mounts k ops s ns node = Some node' \<Longrightarrow> pn_parent node' = pn_parent node \<and> pn_name node' = pn_name node"
  by (induction k arbitrary: node) (fastforce split: option.splits)+

lemma enter_chain:
  assumes "enter ops s r cur c = Some node"
  shows "pn_parent node = Some cur" "pn_name node = c"
  using assms by (auto simp: enter_def node_child_def dest!: cross_mounts_chain split: sum.splits simp del: cross_mounts.simps)

lemma is_root_node_root: "is_root_node ops s r (rs_root r)"
  by (simp add: is_root_node_def)

interpretation confined: walk_inv ops s r "under (rs_root r)" for ops s r
proof
  show "under (rs_root r) (rs_root r)" by (rule under_refl)
next
  fix cur assume "under (rs_root r) cur"
  then show "under (rs_root r) (dotdot ops s r cur)"
    using is_root_node_root [of ops s r] by (auto simp: dotdot_def split: option.splits intro: under_up)
next
  fix cur c node assume "under (rs_root r) cur" "enter ops s r cur c = Some node"
  then show "under (rs_root r) node"
    using enter_chain [of ops s r cur c node] by (cases node) (auto intro: under_parent)
qed

section \<open>Mount tables and termination\<close>

text \<open>
  Every mount hangs on one with a smaller id: mounts are created with fresh ids on nodes that already
  exist. A crossing therefore climbs through ever larger ids, and stops.
\<close>

definition mounts_ok :: "nat \<Rightarrow> 'i namespace \<Rightarrow> bool" where
  "mounts_ok next_id ns \<longleftrightarrow>
     distinct (map mt_id (ns_mounts ns)) \<and>
     (\<forall>m\<in>set (ns_mounts ns). mt_id m < next_id \<and> (\<forall>p ino. mt_parent m = Some (p, ino) \<longrightarrow> p < mt_id m))"

inductive ns_reach :: "('s, 'i) inode_ops \<Rightarrow> nat \<Rightarrow> 'i namespace \<Rightarrow> bool" for ops :: "('s, 'i) inode_ops" where
  reach_new: "ns_reach ops (Suc k) (ns_new k fs_root source)"
| reach_with_root: "ns_reach ops (Suc k) (ns_with_root k dir source)"
| reach_mount: "ns_reach ops k ns \<Longrightarrow> pn_mount at < k \<Longrightarrow> ns_mount ops s k ns at fs_root source = Inr ns' \<Longrightarrow> ns_reach ops (Suc k) ns'"
| reach_bind: "ns_reach ops k ns \<Longrightarrow> pn_mount at < k \<Longrightarrow> ns_bind ops s k ns at src source = Inr ns' \<Longrightarrow> ns_reach ops (Suc k) ns'"
| reach_umount: "ns_reach ops k ns \<Longrightarrow> ns_umount ns at = Inr (m, ns') \<Longrightarrow> ns_reach ops k ns'"
| reach_other: "ns_reach ops k ns \<Longrightarrow> ns_reach ops (Suc k) ns"

lemma mounts_ok_push:
  assumes "mounts_ok k ns" "pn_mount at < k"
  shows "mounts_ok (Suc k) (ns_push ops s k ns at root source)"
  using assms by (auto simp: mounts_ok_def ns_push_def less_Suc_eq)

lemma distinct_map_remove1: "distinct (map f xs) \<Longrightarrow> distinct (map f (remove1 x xs))"
  using set_remove1_subset by (induction xs) fastforce+

lemma ns_reach_ok: "ns_reach ops k ns \<Longrightarrow> mounts_ok k ns"
proof (induction rule: ns_reach.induct)
  case (reach_mount k ns at s fs_root source ns')
  then show ?case using mounts_ok_push by (auto simp: ns_mount_def split: if_splits)
next
  case (reach_bind k ns at s src source ns')
  then show ?case using mounts_ok_push by (auto simp: ns_bind_def split: if_splits)
next
  case (reach_umount k ns at m ns')
  then have "ns' = ns\<lparr>ns_mounts := remove1 m (ns_mounts ns)\<rparr>"
    by (auto simp: ns_umount_def split: option.splits if_splits)
  then show ?case
    using reach_umount.IH set_remove1_subset [of m "ns_mounts ns"]
    unfolding mounts_ok_def by (simp add: distinct_map_remove1 subset_iff)
next
  case (reach_other k ns)
  then show ?case by (auto simp: mounts_ok_def less_Suc_eq)
qed (auto simp: mounts_ok_def ns_new_def ns_with_root_def)

lemma mounted_on_Some:
  assumes "mounted_on ns p ino = Some m"
  shows "m \<in> set (ns_mounts ns)" "mt_parent m = Some (p, ino)"
  using find_SomeD [OF assms [unfolded mounted_on_def]] by simp_all

lemma cross_mounts_total:
  assumes "mounts_ok k ns" "card {i \<in> mt_id ` set (ns_mounts ns). pn_mount node < i} < fuel"
  shows "cross_mounts fuel ops s ns node \<noteq> None"
  using assms(2)
proof (induction fuel arbitrary: node)
  case (Suc fuel)
  let ?above = "\<lambda>p. {i \<in> mt_id ` set (ns_mounts ns). p < i}"
  show ?case
  proof (cases "mounted_on ns (pn_mount node) (inode_id ops s (pn_inode node))")
    case (Some m)
    note m = mounted_on_Some [OF Some]
    then have "pn_mount node < mt_id m" using assms(1) by (auto simp: mounts_ok_def)
    then have "?above (mt_id m) \<subset> ?above (pn_mount node)" using m(1) by fastforce
    then have "card (?above (mt_id m)) < card (?above (pn_mount node))" by (intro psubset_card_mono) auto
    then show ?thesis using Suc Some by simp
  qed simp
qed simp

lemma cross_mounts_fuel:
  assumes "mounts_ok k ns"
  shows "cross_mounts (length (ns_mounts ns) + 1) ops s ns node \<noteq> None"
proof (rule cross_mounts_total [OF assms])
  have "card {i \<in> mt_id ` set (ns_mounts ns). pn_mount node < i} \<le> card (mt_id ` set (ns_mounts ns))"
    by (intro card_mono) auto
  also have "\<dots> \<le> length (ns_mounts ns)" by (meson card_image_le card_length finite_set le_trans)
  finally show "card {i \<in> mt_id ` set (ns_mounts ns). pn_mount node < i} < length (ns_mounts ns) + 1" by simp
qed
lemma walk_depth: "walk ops s r n cur cs fl d = Some (res, d') \<Longrightarrow> d \<le> d'"
proof (induction n arbitrary: cur cs fl d res d' rule: less_induct)
  case (less n)
  from less.prems show ?case
  proof (induction cs arbitrary: cur d)
    case Nil
    then show ?case by (simp add: walk.simps)
  next
    case (Cons c cs)
    have "d \<le> d'" if "walk ops s r n cur' cs fl d2 = Some (res, d')" "d \<le> d2" for cur' d2
      using Cons.IH [OF that(1)] that(2) by simp
    moreover have "d + 1 \<le> d2" if "walk ops s r n' cur' cs' True (Suc d) = Some (x, d2)" "n = Suc n'" for n' cur' cs' x d2
      using less.IH [of n', OF _ that(1)] that(2) by simp
    ultimately show ?case
      using Cons.prems unfolding walk.simps(2) [of _ _ _ _ _ c cs]
      by (fastforce split: sum.splits if_splits option.splits nat.splits prod.splits)
  qed
qed

lemma walk_total:
  assumes "mounts_ok k (rs_ns r)" "MAX_SYMLINKS \<le> n + d"
  shows "walk ops s r n cur cs fl d \<noteq> None"
  using assms(2)
proof (induction n arbitrary: cur cs fl d rule: less_induct)
  case (less n)
  from less.prems show ?case
  proof (induction cs arbitrary: cur d)
    case Nil
    then show ?case by (simp add: walk.simps)
  next
    case (Cons c cs)
    note cross = cross_mounts_fuel [OF assms(1), where ops = ops and s = s]
    have inner: "walk ops s r n' cur' cs' True (Suc d) \<noteq> None" if "n = Suc n'" for n' cur' cs'
      using less.IH [of n' "Suc d"] Cons.prems that by simp
    have rest: "walk ops s r n cur' cs fl d2 \<noteq> None" if "d \<le> d2" for cur' d2
      using Cons.IH [of d2] Cons.prems that by simp
    have here: "walk ops s r n cur' cs fl d \<noteq> None" for cur' using rest by simp
    then have here': "\<exists>a b. walk ops s r n cur' cs fl d = Some (a, b)" for cur' by (metis not_None_eq surj_pair)
    have after: "walk ops s r n cur' cs fl d2 \<noteq> None"
      if "walk ops s r n' cur2 cs' True (Suc d) = Some (x, d2)" for n' cur' cur2 cs' x d2
      using walk_depth [OF that] rest by simp
    then have after': "\<exists>a b. walk ops s r n cur' cs fl d2 = Some (a, b)"
      if "walk ops s r n' cur2 cs' True (Suc d) = Some (x, d2)" for n' cur' cur2 cs' x d2
      using that by (metis not_None_eq surj_pair)
    have pos: "0 < n" if "\<not> MAX_SYMLINKS < d + 1" using that Cons.prems by simp
    show ?case
      unfolding walk.simps(2) [of _ _ _ _ _ c cs]
      using cross inner here after pos here' after'
      by (auto simp del: cross_mounts.simps not_None_eq split: sum.split option.split nat.split prod.split)
  qed
qed

lemma resolve_total:
  assumes "mounts_ok k (rs_ns r)"
  shows "resolve ops s r path follow \<noteq> None"
  using walk_total [OF assms, of MAX_SYMLINKS 0 ops s]
  by (auto simp: resolve_def Let_def simp del: not_None_eq split: option.split sum.split prod.split)

section \<open>Paths of nodes\<close>

text \<open>A node that is what its own chain of names leads to from the root, as seen by the resolver.\<close>

inductive live :: "('s, 'i) inode_ops \<Rightarrow> 's \<Rightarrow> 'i resolver \<Rightarrow> 'i path_node \<Rightarrow> bool"
  for ops :: "('s, 'i) inode_ops" and s :: 's and r :: "'i resolver" where
  live_root: "pn_parent (rs_root r) = None \<Longrightarrow> live ops s r (rs_root r)"
| live_enter: "live ops s r cur \<Longrightarrow> searchable ops s r cur \<Longrightarrow> proper_name c \<Longrightarrow>
    enter ops s r cur c = Some node \<Longrightarrow> live ops s r node"

lemma path_parts_rec:
  "path_parts n = (case pn_parent n of None \<Rightarrow> [] | Some p \<Rightarrow> path_parts p @ [pn_name n])"
  by (cases n) (auto split: option.split)

lemma live_names: "live ops s r n \<Longrightarrow> \<forall>c\<in>set (path_parts n). proper_name c"
proof (induction rule: live.induct)
  case live_root
  then show ?case by (simp add: path_parts_rec [of "rs_root r"])
next
  case (live_enter cur c node)
  then show ?case using enter_chain [OF live_enter.hyps(4)] by (simp add: path_parts_rec [of node])
qed

lemma live_parent: "live ops s r n \<Longrightarrow> pn_parent n = Some p \<Longrightarrow> live ops s r p"
  by (induction rule: live.induct) (auto dest: enter_chain)

lemma path_comps_concat:
  "\<forall>c\<in>set cs. proper_name c \<Longrightarrow> path_comps (concat (map (\<lambda>p. CHR ''/'' # p) cs)) = cs"
proof (induction cs)
  case Nil
  then show ?case by (simp add: path_comps_def)
next
  case (Cons c cs)
  let ?rest = "concat (map (\<lambda>p. CHR ''/'' # p) cs)"
  have c: "c \<noteq> []" "CHR ''/'' \<notin> set c" using Cons.prems by (auto simp: proper_name_def)
  show ?case
  proof (cases cs)
    case Nil
    then show ?thesis using c by (simp add: path_comps_def split_on_last)
  next
    case (Cons d ds)
    then obtain t where t: "concat (map (\<lambda>p. CHR ''/'' # p) cs) = CHR ''/'' # t" by simp
    have "path_comps (CHR ''/'' # c @ CHR ''/'' # t) = c # path_comps t"
      using c by (simp add: path_comps_def split_on_sep)
    moreover have "path_comps (CHR ''/'' # t) = path_comps t" by (simp add: path_comps_def)
    ultimately show ?thesis using Cons.IH Cons.prems t by simp
  qed
qed

lemma walk_enter:
  assumes "searchable ops s r cur" "proper_name c" "enter ops s r cur c = Some node"
    and "(cs = [] \<and> \<not> fl) \<or> searchable ops s r node"
  shows "walk ops s r n cur (c # cs) fl d = walk ops s r n node cs fl d"
  using assms
  by (auto simp: walk.simps(2) [of _ _ _ _ _ c cs] searchable_def enter_def proper_name_def inode_kind_def
      simp del: cross_mounts.simps split: sum.splits)

lemma walk_live:
  assumes "live ops s r n" "(cs = [] \<and> \<not> fl) \<or> searchable ops s r n"
  shows "walk ops s r k (rs_root r) (path_parts n @ cs) fl d = walk ops s r k n cs fl d"
  using assms
proof (induction arbitrary: cs rule: live.induct)
  case live_root
  then show ?case by (simp add: path_parts_rec [of "rs_root r"])
next
  case (live_enter cur c node)
  then show ?case
    using enter_chain [OF live_enter.hyps(4)] live_enter.IH [of "c # cs"]
      walk_enter [OF live_enter.hyps(2-4) live_enter.prems]
    by (simp add: path_parts_rec [of node])
qed
lemma node_path_start: "node_path n \<noteq> [] \<and> hd (node_path n) = CHR ''/''"
  by (cases "path_parts n") (auto simp: node_path_def)

lemma node_path_end:
  assumes "\<forall>c\<in>set (path_parts n). proper_name c" "path_parts n \<noteq> []"
  shows "\<not> ends_with_slash (node_path n)"
proof -
  obtain cs c where cs: "path_parts n = cs @ [c]" using assms(2) by (cases "path_parts n" rule: rev_cases) auto
  then have c: "c \<noteq> []" "CHR ''/'' \<notin> set c" using assms(1) by (simp_all add: proper_name_def)
  then have "last c \<noteq> CHR ''/''" using last_in_set [of c] by metis
  with c show ?thesis by (simp add: ends_with_slash_def node_path_def cs)
qed

lemma live_walk_inv:
  assumes "pn_parent (rs_root r) = None"
  shows "walk_inv ops s r (live ops s r)"
proof
  fix cur assume "live ops s r cur"
  then show "live ops s r (dotdot ops s r cur)"
    by (auto simp: dotdot_def split: option.split intro: live_parent)
next
  show "live ops s r (rs_root r)" by (rule live_root [OF assms])
next
  fix cur c node
  assume "live ops s r cur" "searchable ops s r cur" "proper_name c" "enter ops s r cur c = Some node"
  then show "live ops s r node" by (rule live_enter)
qed

lemma live_no_parts: "live ops s r n \<Longrightarrow> path_parts n = [] \<Longrightarrow> n = rs_root r"
  by (erule live.cases) (auto simp: path_parts_rec [of n] dest: enter_chain)

lemma resolve_live:
  assumes "live ops s r n" "inode_is_dir ops s (pn_inode (rs_root r))" "length (node_path n) \<le> PATH_MAX"
  shows "resolve ops s r (node_path n) False = Some (Inr n)"
proof (cases "path_parts n = []")
  case True
  then have "n = rs_root r"
    by (rule live_no_parts [OF assms(1)])
  then show ?thesis
    using True assms(2)
    by (simp add: resolve_def node_path_def PATH_MAX_def ends_with_slash_def walk_start_def is_absolute_def
        path_comps_def walk.simps(1))
next
  case False
  have names: "\<forall>c\<in>set (path_parts n). proper_name c" by (rule live_names [OF assms(1)])
  have "path_comps (node_path n) = path_parts n"
    using False path_comps_concat [OF names] by (simp add: node_path_def)
  moreover have "walk ops s r MAX_SYMLINKS (rs_root r) (path_parts n) False 0 = Some (Inr n, 0)"
    using walk_live [OF assms(1), of "[]" False] by (simp add: walk.simps(1))
  ultimately show ?thesis
    using assms(3) node_path_start [of n] node_path_end [OF names False]
    by (simp add: resolve_def walk_start_def is_absolute_def)
qed

section \<open>Theorems\<close>

text \<open>
  C4 (a container cannot climb out). Whatever path a process resolves, with however many \<open>..\<close> components and
  symbolic links, absolute or relative, the node found lies under the process's root directory, provided
  its working directory does; the same holds of the parent directory that the creating and removing
  calls work in.
\<close>

theorem resolve_confined:
  assumes "under (rs_root r) (rs_cwd r)"
  shows "(resolve ops s r path follow = Some (Inr node) \<longrightarrow> under (rs_root r) node) \<and>
    (resolve_parent ops s r path = Some (Inr (dir, name)) \<longrightarrow> under (rs_root r) dir)"
  using confined.resolve_keeps [of ops s r path follow node] confined.resolve_parent_keeps [of ops s r path dir name] assms by simp

text \<open>
  C30 (resolution ends). In every mount namespace that mounting, bind mounting and unmounting can produce, with
  mounts stacked in any way and symbolic links pointing anywhere, also at each other, resolution returns.
\<close>

theorem resolve_returns:
  assumes "ns_reach ops k (rs_ns r)"
  shows "\<exists>res. resolve ops s r path follow = Some res"
  using resolve_total [OF ns_reach_ok [OF assms], of ops s path follow] by blast


text \<open>
  A file system for the witnesses: the directory \<^verbatim>\<open>/jail\<close> holds \<^verbatim>\<open>etc\<close>, a link \<^verbatim>\<open>esc\<close> to \<^verbatim>\<open>../../etc\<close> and a link
  \<^verbatim>\<open>loop\<close> to itself; \<^verbatim>\<open>/etc\<close> lies outside.
\<close>

definition example_meta :: "nat \<Rightarrow> metadata" where
  "example_meta i = \<lparr>md_dev = 1, md_ino = of_nat i, md_kind = (if i = 4 \<or> i = 6 then Symlink else Directory),
     md_perm = 0x1ED, md_nlink = 1, md_uid = 0, md_gid = 0, md_size = 0, md_blocks = 0, md_blksize = 4096, md_rdev = 0,
     md_atime = \<lparr>ts_sec = 0, ts_nsec = 0\<rparr>, md_mtime = \<lparr>ts_sec = 0, ts_nsec = 0\<rparr>, md_ctime = \<lparr>ts_sec = 0, ts_nsec = 0\<rparr>\<rparr>"

definition example_lookup :: "nat \<Rightarrow> string \<Rightarrow> nat KResult" where
  "example_lookup i name =
     (if i = 1 \<and> name = ''jail'' then Inr 2
      else if i = 1 \<and> name = ''etc'' then Inr 3
      else if i = 2 \<and> name = ''esc'' then Inr 4
      else if i = 2 \<and> name = ''etc'' then Inr 5
      else if i = 2 \<and> name = ''loop'' then Inr 6
      else Inl ENOENT)"

definition example_ops :: "(unit, nat) inode_ops" where
  "example_ops = \<lparr>io_metadata = (\<lambda>_ i. Inr (example_meta i)), io_set_attr = (\<lambda>s _ _. (Inl EPERM, s)),
     io_lookup = (\<lambda>_ i name. example_lookup i name), io_create = (\<lambda>s _ _ _ _ _ _ _. (Inl ENOTDIR, s)),
     io_symlink = (\<lambda>s _ _ _ _ _. (Inl ENOTDIR, s)), io_link = (\<lambda>s _ _ _. (Inl ENOTDIR, s)),
     io_unlink = (\<lambda>s _ _. (Inl ENOTDIR, s)), io_rmdir = (\<lambda>s _ _. (Inl ENOTDIR, s)),
     io_rename = (\<lambda>s _ _ _ _. (Inl ENOTDIR, s)), io_readdir = (\<lambda>_ _. Inl ENOTDIR),
     io_readlink = (\<lambda>_ i. if i = 4 then Inr ''../../etc'' else Inr ''loop'')\<rparr>"

definition jail :: "nat path_node" where
  "jail = PathNode 1 2 ''jail'' (Some (PathNode 1 1 [] None))"

definition jailed :: "nat resolver" where
  "jailed = \<lparr>rs_ns = ns_new 1 1 ''none'', rs_root = jail, rs_cwd = jail, rs_cred = cred_root\<rparr>"

lemmas example_defs = example_ops_def example_meta_def example_lookup_def jailed_def jail_def ns_new_def mounted_on_def
  searchable_def inode_kind_def inode_id_def is_root_node_def dotdot_def node_child_def walk_start_def is_absolute_def
  path_comps_def ends_with_slash_def NAME_MAX_def PATH_MAX_def MAX_SYMLINKS_def perm_check_def MAY_EXEC_def cred_root_def
  is_root_def

lemma jail_esc: "resolve example_ops () jailed ''/esc'' True = Some (Inr (PathNode 1 5 ''etc'' (Some jail)))"
  by (simp add: resolve_def walk.simps example_defs)

lemma example_walk_ok: "under jail (rs_cwd jailed)" "ns_reach example_ops 2 (rs_ns jailed)"
  using ns_reach.reach_new [of example_ops 1 1 "''none''"] by (simp_all add: jailed_def under_refl numeral_2_eq_2)

theorem resolve_confined_witness:
  "resolve example_ops () jailed ''/esc'' True = Some (Inr (PathNode 1 5 ''etc'' (Some jail))) \<and>
   under (rs_root jailed) (PathNode 1 5 ''etc'' (Some jail))"
  using resolve_confined [of jailed example_ops "()" "''/esc''" True "PathNode 1 5 ''etc'' (Some jail)"] jail_esc
    example_walk_ok(1) by (simp add: jailed_def)

theorem resolve_returns_witness: "\<exists>res. resolve example_ops () jailed ''/loop/x'' True = Some res"
  using resolve_returns [OF example_walk_ok(2)] by blast

definition unjailed :: "nat resolver" where
  "unjailed = jailed\<lparr>rs_root := PathNode 1 1 [] None, rs_cwd := PathNode 1 1 [] None\<rparr>"


end
