(* ===== verification/Tmpfs.thy ===== *)
theory Tmpfs
  imports Vfs_Path Ordered_Map "HOL-Library.List_Lexorder" "HOL-Library.Char_ord"
begin

unbundle bit_operations_syntax

text \<open>
  The in-memory file system, \<^verbatim>\<open>kernel/src/fs/tmpfs.rs\<close>: its nodes in a store from inode numbers to nodes (an
  \<^verbatim>\<open>Arc<TmpNode>\<close> is the number of a live node), file data in sparse maps of pages, and the counters of the
  mount. \<^verbatim>\<open>Timespec::now()\<close> is the field \<open>tf_now\<close>. Page and link counts are natural numbers: they count objects
  held in memory. The inode counter, which can pass below zero, is a 64-bit word.
\<close>

section \<open>State\<close>

definition TPAGE :: nat where "TPAGE = 4096"
definition TMPFS_MAGIC :: u64 where "TMPFS_MAGIC = 0x01021994"

type_synonym page_map = "(nat, u8 list) btree"

datatype tmp_data =
    TFile page_map nat
  | TDir "(string, nat) btree"
  | TSymlink string
  | TFifo
  | TDevice

record tmp_meta =
  tm_kind :: file_type
  tm_perm :: u16
  tm_uid :: u32
  tm_gid :: u32
  tm_nlink :: nat
  tm_rdev :: u64
  tm_atime :: timespec
  tm_mtime :: timespec
  tm_ctime :: timespec

record tmp_node =
  tn_meta :: tmp_meta
  tn_data :: tmp_data

record tmpfs =
  tf_dev :: u64
  tf_next_ino :: nat
  tf_used :: nat
  tf_limit :: nat
  tf_inodes :: u64
  tf_type_name :: string
  tf_nodes :: "nat \<Rightarrow> tmp_node option"
  tf_now :: timespec

definition tnode :: "tmpfs \<Rightarrow> nat \<Rightarrow> tmp_node" where
  "tnode s i = the (tf_nodes s i)"

definition node_kind :: "tmpfs \<Rightarrow> nat \<Rightarrow> file_type" where
  "node_kind s i = tm_kind (tn_meta (tnode s i))"

definition set_node :: "tmpfs \<Rightarrow> nat \<Rightarrow> tmp_node \<Rightarrow> tmpfs" where
  "set_node s i n = s\<lparr>tf_nodes := (tf_nodes s)(i \<mapsto> n)\<rparr>"

definition upd_meta :: "tmpfs \<Rightarrow> nat \<Rightarrow> (tmp_meta \<Rightarrow> tmp_meta) \<Rightarrow> tmpfs" where
  "upd_meta s i f = set_node s i ((tnode s i)\<lparr>tn_meta := f (tn_meta (tnode s i))\<rparr>)"

definition set_data :: "tmpfs \<Rightarrow> nat \<Rightarrow> tmp_data \<Rightarrow> tmpfs" where
  "set_data s i d = set_node s i ((tnode s i)\<lparr>tn_data := d\<rparr>)"

definition new_node :: "tmpfs \<Rightarrow> file_type \<Rightarrow> u16 \<Rightarrow> u32 \<Rightarrow> u32 \<Rightarrow> u64 \<Rightarrow> tmp_data \<Rightarrow> tmp_node" where
  "new_node s kind perm uid gid rdev d =
     \<lparr>tn_meta = \<lparr>tm_kind = kind, tm_perm = perm, tm_uid = uid, tm_gid = gid, tm_nlink = 1, tm_rdev = rdev,
        tm_atime = tf_now s, tm_mtime = tf_now s, tm_ctime = tf_now s\<rparr>, tn_data = d\<rparr>"

definition with_nlink :: "nat \<Rightarrow> tmp_node \<Rightarrow> tmp_node" where
  "with_nlink k n = n\<lparr>tn_meta := (tn_meta n)\<lparr>tm_nlink := k\<rparr>\<rparr>"

definition tmpfs_named :: "u64 \<Rightarrow> nat \<Rightarrow> string \<Rightarrow> timespec \<Rightarrow> tmpfs" where
  "tmpfs_named dev limit type_name now =
     (let s = \<lparr>tf_dev = dev, tf_next_ino = 2, tf_used = 0, tf_limit = limit, tf_inodes = 1, tf_type_name = type_name,
                tf_nodes = Map.empty, tf_now = now\<rparr>
      in set_node s 1 (with_nlink 2 (new_node s Directory 0x1ED 0 0 0 (TDir []))))"

definition tmpfs_new :: "u64 \<Rightarrow> nat \<Rightarrow> timespec \<Rightarrow> tmpfs" where
  "tmpfs_new dev limit now = tmpfs_named dev limit ''tmpfs'' now"

section \<open>Accounting\<close>

definition charge :: "nat \<Rightarrow> nat \<Rightarrow> nat \<Rightarrow> nat KResult" where
  "charge limit used bytes = (if 0 < limit \<and> limit < used + bytes then Inl ENOSPC else Inr (used + bytes))"

definition uncharge :: "tmpfs \<Rightarrow> nat \<Rightarrow> tmpfs" where
  "uncharge s bytes = s\<lparr>tf_used := tf_used s - bytes\<rparr>"

text \<open>\<^verbatim>\<open>statfs\<close>: \<open>None\<close> is the overflow trap of \<^verbatim>\<open>(1 << 20) - inodes\<close>. \<open>free_frames\<close> is the frame allocator's count.\<close>

record stat_fs =
  sf_type :: u64
  sf_block_size :: nat
  sf_blocks :: nat
  sf_blocks_free :: nat
  sf_blocks_avail :: nat
  sf_files :: nat
  sf_files_free :: nat
  sf_name_max :: nat

definition tmp_statfs :: "nat \<Rightarrow> tmpfs \<Rightarrow> stat_fs option" where
  "tmp_statfs free_frames s =
     (let used = tf_used s;
          limit = (if 0 < tf_limit s then tf_limit s else used + free_frames * TPAGE div 2);
          free = (limit - used) div TPAGE
      in if 2 ^ 20 < unat (tf_inodes s) then None
         else Some \<lparr>sf_type = TMPFS_MAGIC, sf_block_size = TPAGE, sf_blocks = limit div TPAGE, sf_blocks_free = free,
                sf_blocks_avail = free, sf_files = 2 ^ 20, sf_files_free = 2 ^ 20 - unat (tf_inodes s), sf_name_max = 255\<rparr>)"

section \<open>File data\<close>

definition truncate_pages :: "page_map \<Rightarrow> nat \<Rightarrow> nat \<Rightarrow> page_map \<times> nat" where
  "truncate_pages pages cur sz =
     (if sz < cur then
        let first_dead = div_ceil sz TPAGE;
            dead = filter (\<lambda>k. first_dead \<le> k) (map fst pages);
            kept = foldl (\<lambda>m k. bt_remove k m) pages dead;
            off = sz mod TPAGE
        in (if off \<noteq> 0 then
              (case bt_get kept (sz div TPAGE) of
                 Some p \<Rightarrow> bt_insert (sz div TPAGE) (take off p @ replicate (length p - off) 0) kept
               | None \<Rightarrow> kept)
            else kept, length dead)
      else (pages, 0))"

function read_loop :: "page_map \<Rightarrow> nat \<Rightarrow> nat \<Rightarrow> nat \<Rightarrow> u8 list" where
  "read_loop pages off n dn =
     (if dn < n then
        let pos = off + dn; pi = pos div TPAGE; po = pos mod TPAGE; chunk = min (TPAGE - po) (n - dn)
        in (case bt_get pages pi of Some p \<Rightarrow> take chunk (drop po p) | None \<Rightarrow> replicate chunk 0)
           @ read_loop pages off n (dn + chunk)
      else [])"
  by pat_completeness auto
termination
  by (relation "measure (\<lambda>(pages, off, n, dn). n - dn)") (auto simp: TPAGE_def Let_def)

declare read_loop.simps [simp del]

definition patch :: "u8 list \<Rightarrow> nat \<Rightarrow> u8 list \<Rightarrow> u8 list" where
  "patch p po bs = take po p @ bs @ drop (po + length bs) p"

text \<open>The loop of \<^verbatim>\<open>write_at\<close>: the page map and the bytes in use are kept also when the space runs out.\<close>

function write_loop :: "nat \<Rightarrow> page_map \<Rightarrow> nat \<Rightarrow> nat \<Rightarrow> u8 list \<Rightarrow> nat \<Rightarrow> unit KResult \<times> page_map \<times> nat" where
  "write_loop limit pages used off buf dn =
     (if dn < length buf then
        let pos = off + dn; pi = pos div TPAGE; po = pos mod TPAGE; chunk = min (TPAGE - po) (length buf - dn);
            part = take chunk (drop dn buf)
        in case bt_get pages pi of
             Some p \<Rightarrow> write_loop limit (bt_insert pi (patch p po part) pages) used off buf (dn + chunk)
           | None \<Rightarrow>
               (case charge limit used TPAGE of
                  Inl e \<Rightarrow> (Inl e, pages, used)
                | Inr used' \<Rightarrow>
                    write_loop limit (bt_insert pi (patch (replicate TPAGE 0) po part) pages) used' off buf (dn + chunk))
      else (Inr (), pages, used))"
  by pat_completeness auto
termination
  by (relation "measure (\<lambda>(limit, pages, used, off, buf, dn). length buf - dn)") (auto simp: TPAGE_def Let_def)

declare write_loop.simps [simp del]

section \<open>Inode operations\<close>

definition touch_mc :: "tmpfs \<Rightarrow> nat \<Rightarrow> tmpfs" where
  "touch_mc s i = upd_meta s i (\<lambda>m. m\<lparr>tm_mtime := tf_now s, tm_ctime := tf_now s\<rparr>)"

definition set_ctime :: "tmpfs \<Rightarrow> nat \<Rightarrow> tmpfs" where
  "set_ctime s i = upd_meta s i (\<lambda>m. m\<lparr>tm_ctime := tf_now s\<rparr>)"

definition set_nlink :: "tmpfs \<Rightarrow> nat \<Rightarrow> (nat \<Rightarrow> nat) \<Rightarrow> tmpfs" where
  "set_nlink s i f = upd_meta s i (\<lambda>m. m\<lparr>tm_nlink := f (tm_nlink m)\<rparr>)"

definition dec_link :: "nat \<Rightarrow> nat" where
  "dec_link k = k - 1"

definition add_child :: "tmpfs \<Rightarrow> nat \<Rightarrow> string \<Rightarrow> nat \<Rightarrow> unit KResult \<times> tmpfs" where
  "add_child s d name i =
     (case tn_data (tnode s d) of
        TDir m \<Rightarrow>
          if bt_get m name \<noteq> None then (Inl EEXIST, s)
          else (Inr (), touch_mc (set_data s d (TDir (bt_insert name i m))) d)
      | _ \<Rightarrow> (Inl ENOTDIR, s))"

definition node_pages :: "tmp_node \<Rightarrow> nat" where
  "node_pages n = (case tn_data n of TFile pages _ \<Rightarrow> length pages | _ \<Rightarrow> 0)"

definition drop_node :: "tmpfs \<Rightarrow> nat \<Rightarrow> tmpfs" where
  "drop_node s i =
     s\<lparr>tf_used := tf_used s - node_pages (tnode s i) * TPAGE, tf_inodes := tf_inodes s - 1,
       tf_nodes := (tf_nodes s)(i := None)\<rparr>"

definition is_empty_dir :: "tmpfs \<Rightarrow> nat \<Rightarrow> bool" where
  "is_empty_dir s i = (case tn_data (tnode s i) of TDir m \<Rightarrow> m = [] | _ \<Rightarrow> False)"

definition tmp_truncate :: "tmpfs \<Rightarrow> nat \<Rightarrow> nat \<Rightarrow> unit KResult \<times> tmpfs" where
  "tmp_truncate s i sz =
     (case tn_data (tnode s i) of
        TFile pages cur \<Rightarrow>
          let (pages', dead) = truncate_pages pages cur sz
          in (Inr (), uncharge (set_data s i (TFile pages' sz)) (dead * TPAGE))
      | _ \<Rightarrow> (Inl EISDIR, s))"

definition tmp_metadata :: "tmpfs \<Rightarrow> nat \<Rightarrow> metadata KResult" where
  "tmp_metadata s i =
     (let m = tn_meta (tnode s i);
          (sz, blocks) = (case tn_data (tnode s i) of
              TFile pages sz \<Rightarrow> (sz, length pages * (TPAGE div 512))
            | TDir dm \<Rightarrow> ((length dm + 2) * 20, 0)
            | TSymlink t \<Rightarrow> (length t, 0)
            | _ \<Rightarrow> (0, 0))
      in Inr \<lparr>md_dev = tf_dev s, md_ino = of_nat i, md_kind = tm_kind m, md_perm = tm_perm m, md_nlink = of_nat (tm_nlink m),
           md_uid = tm_uid m, md_gid = tm_gid m, md_size = of_nat sz, md_blocks = of_nat blocks, md_blksize = of_nat TPAGE,
           md_rdev = tm_rdev m, md_atime = tm_atime m, md_mtime = tm_mtime m, md_ctime = tm_ctime m\<rparr>)"

definition tmp_set_attr :: "tmpfs \<Rightarrow> nat \<Rightarrow> set_attr \<Rightarrow> unit KResult \<times> tmpfs" where
  "tmp_set_attr s i a =
     (case (case sa_size a of None \<Rightarrow> (Inr (), s) | Some sz \<Rightarrow> tmp_truncate s i (unat sz)) of
        (Inl e, s1) \<Rightarrow> (Inl e, s1)
      | (Inr _, s1) \<Rightarrow>
          (Inr (), upd_meta s1 i (\<lambda>m. m\<lparr>
             tm_perm := (case sa_perm a of None \<Rightarrow> tm_perm m | Some p \<Rightarrow> p AND 0xFFF),
             tm_uid := (case sa_uid a of None \<Rightarrow> tm_uid m | Some u \<Rightarrow> u),
             tm_gid := (case sa_gid a of None \<Rightarrow> tm_gid m | Some g \<Rightarrow> g),
             tm_atime := (case sa_atime a of None \<Rightarrow> tm_atime m | Some t \<Rightarrow> t),
             tm_mtime := (case sa_mtime a of None \<Rightarrow> tm_mtime m | Some t \<Rightarrow> t),
             tm_ctime := tf_now s\<rparr>)))"

text \<open>The bytes \<^verbatim>\<open>read_at\<close> copies into a buffer of \<open>len\<close> bytes; the result of the call is their number.\<close>

definition tmp_read_at :: "tmpfs \<Rightarrow> nat \<Rightarrow> nat \<Rightarrow> nat \<Rightarrow> u8 list KResult" where
  "tmp_read_at s i off len =
     (case tn_data (tnode s i) of
        TFile pages sz \<Rightarrow>
          if sz \<le> off then Inr [] else Inr (read_loop pages off (min len (sz - off)) 0)
      | TDir _ \<Rightarrow> Inl EISDIR
      | _ \<Rightarrow> Inl EINVAL)"

definition tmp_write_at :: "tmpfs \<Rightarrow> nat \<Rightarrow> nat \<Rightarrow> u8 list \<Rightarrow> nat KResult \<times> tmpfs" where
  "tmp_write_at s i off buf =
     (let fin = off + length buf in
      if 2 ^ 64 \<le> fin then (Inl EFBIG, s)
      else if 2 ^ 40 < fin then (Inl EFBIG, s)
      else case tn_data (tnode s i) of
        TFile pages sz \<Rightarrow>
          (case write_loop (tf_limit s) pages (tf_used s) off buf 0 of
             (Inl e, pages', used') \<Rightarrow> (Inl e, (set_data s i (TFile pages' sz))\<lparr>tf_used := used'\<rparr>)
           | (Inr _, pages', used') \<Rightarrow>
               (Inr (length buf),
                touch_mc ((set_data s i (TFile pages' (if sz < fin then fin else sz)))\<lparr>tf_used := used'\<rparr>) i))
      | _ \<Rightarrow> (Inl EISDIR, s))"

definition tmp_lookup :: "tmpfs \<Rightarrow> nat \<Rightarrow> string \<Rightarrow> nat KResult" where
  "tmp_lookup s d name =
     (case tn_data (tnode s d) of
        TDir m \<Rightarrow> (case bt_get m name of None \<Rightarrow> Inl ENOENT | Some i \<Rightarrow> Inr i)
      | _ \<Rightarrow> Inl ENOTDIR)"

fun create_data :: "file_type \<Rightarrow> tmp_data option" where
  "create_data Regular = Some (TFile [] 0)"
| "create_data Directory = Some (TDir [])"
| "create_data Fifo = Some TFifo"
| "create_data CharDevice = Some TDevice"
| "create_data BlockDevice = Some TDevice"
| "create_data Socket = Some TDevice"
| "create_data Symlink = None"

definition alloc_node :: "tmpfs \<Rightarrow> tmp_node \<Rightarrow> nat \<times> tmpfs" where
  "alloc_node s n = (tf_next_ino s, set_node (s\<lparr>tf_next_ino := tf_next_ino s + 1\<rparr>) (tf_next_ino s) n)"

text \<open>A node that could not be entered is dropped again.\<close>

definition link_new :: "tmpfs \<Rightarrow> nat \<Rightarrow> string \<Rightarrow> tmp_node \<Rightarrow> nat KResult \<times> tmpfs" where
  "link_new s d name n =
     (let (ino, s1) = alloc_node s n in
      case add_child s1 d name ino of
        (Inl e, s2) \<Rightarrow> (Inl e, drop_node s2 ino)
      | (Inr _, s2) \<Rightarrow> (Inr ino, s2\<lparr>tf_inodes := tf_inodes s2 + 1\<rparr>))"

definition tmp_create :: "tmpfs \<Rightarrow> nat \<Rightarrow> string \<Rightarrow> file_type \<Rightarrow> u16 \<Rightarrow> u32 \<Rightarrow> u32 \<Rightarrow> u64 \<Rightarrow> nat KResult \<times> tmpfs" where
  "tmp_create s d name kind perm uid gid rdev =
     (case create_data kind of
        None \<Rightarrow> (Inl EINVAL, s)
      | Some data \<Rightarrow>
          let n = new_node s kind (perm AND 0xFFF) uid gid rdev data;
              n = (if kind = Directory then with_nlink 2 n else n)
          in case link_new s d name n of
               (Inl e, s1) \<Rightarrow> (Inl e, s1)
             | (Inr ino, s1) \<Rightarrow> (Inr ino, if kind = Directory then set_nlink s1 d Suc else s1))"

definition tmp_symlink :: "tmpfs \<Rightarrow> nat \<Rightarrow> string \<Rightarrow> string \<Rightarrow> u32 \<Rightarrow> u32 \<Rightarrow> nat KResult \<times> tmpfs" where
  "tmp_symlink s d name target uid gid = link_new s d name (new_node s Symlink 0x1FF uid gid 0 (TSymlink target))"

text \<open>A target \<open>None\<close> is an inode of another file system.\<close>

definition tmp_link :: "tmpfs \<Rightarrow> nat \<Rightarrow> string \<Rightarrow> nat option \<Rightarrow> unit KResult \<times> tmpfs" where
  "tmp_link s d name target =
     (case target of
        None \<Rightarrow> (Inl EXDEV, s)
      | Some t \<Rightarrow>
          if node_kind s t = Directory then (Inl EPERM, s)
          else case add_child s d name t of
            (Inl e, s1) \<Rightarrow> (Inl e, s1)
          | (Inr _, s1) \<Rightarrow> (Inr (), set_ctime (set_nlink s1 t Suc) t))"

definition tmp_unlink :: "tmpfs \<Rightarrow> nat \<Rightarrow> string \<Rightarrow> unit KResult \<times> tmpfs" where
  "tmp_unlink s d name =
     (case tn_data (tnode s d) of
        TDir m \<Rightarrow>
          (case bt_get m name of
             None \<Rightarrow> (Inl ENOENT, s)
           | Some c \<Rightarrow>
               if node_kind s c = Directory then (Inl EISDIR, s)
               else
                 let s1 = set_data s d (TDir (bt_remove name m));
                     s2 = set_ctime (set_nlink s1 c dec_link) c
                 in (Inr (), touch_mc s2 d))
      | _ \<Rightarrow> (Inl ENOTDIR, s))"

definition tmp_rmdir :: "tmpfs \<Rightarrow> nat \<Rightarrow> string \<Rightarrow> unit KResult \<times> tmpfs" where
  "tmp_rmdir s d name =
     (case tn_data (tnode s d) of
        TDir m \<Rightarrow>
          (case bt_get m name of
             None \<Rightarrow> (Inl ENOENT, s)
           | Some c \<Rightarrow>
               if node_kind s c \<noteq> Directory then (Inl ENOTDIR, s)
               else if \<not> is_empty_dir s c then (Inl ENOTEMPTY, s)
               else
                 let s1 = set_data s d (TDir (bt_remove name m));
                     s2 = set_nlink s1 c (\<lambda>_. 0);
                     s3 = set_nlink s2 d dec_link
                 in (Inr (), touch_mc s3 d))
      | _ \<Rightarrow> (Inl ENOTDIR, s))"

definition rename_compatible :: "tmpfs \<Rightarrow> nat \<Rightarrow> nat \<Rightarrow> unit KResult" where
  "rename_compatible s i ex =
     (let is_dir = node_kind s i = Directory; ex_dir = node_kind s ex = Directory in
      if is_dir \<and> \<not> ex_dir then Inl ENOTDIR
      else if \<not> is_dir \<and> ex_dir then Inl EISDIR
      else if ex_dir \<and> \<not> is_empty_dir s ex then Inl ENOTEMPTY
      else Inr ())"

definition move_entry :: "tmpfs \<Rightarrow> nat \<Rightarrow> string \<Rightarrow> nat \<Rightarrow> string \<Rightarrow> nat \<Rightarrow> tmpfs" where
  "move_entry s d old nd new i =
     (let s1 = (case tn_data (tnode s d) of TDir m \<Rightarrow> set_data s d (TDir (bt_remove old m)) | _ \<Rightarrow> s)
      in case tn_data (tnode s1 nd) of TDir m \<Rightarrow> set_data s1 nd (TDir (bt_insert new i m)) | _ \<Rightarrow> s1)"

definition drop_replaced :: "tmpfs \<Rightarrow> nat \<Rightarrow> nat option \<Rightarrow> tmpfs" where
  "drop_replaced s nd existing =
     (case existing of
        None \<Rightarrow> s
      | Some ex \<Rightarrow>
          if node_kind s ex = Directory then set_nlink (set_nlink s ex (\<lambda>_. 0)) nd dec_link
          else set_nlink s ex dec_link)"

definition shift_links :: "tmpfs \<Rightarrow> bool \<Rightarrow> nat \<Rightarrow> nat \<Rightarrow> tmpfs" where
  "shift_links s is_dir d nd = (if is_dir \<and> nd \<noteq> d then set_nlink (set_nlink s d dec_link) nd Suc else s)"

definition rename_stamp :: "tmpfs \<Rightarrow> nat \<Rightarrow> nat \<Rightarrow> nat \<Rightarrow> tmpfs" where
  "rename_stamp s i d nd =
     (let s1 = touch_mc (set_ctime s i) d in if nd \<noteq> d then touch_mc s1 nd else s1)"

definition tmp_rename :: "tmpfs \<Rightarrow> nat \<Rightarrow> string \<Rightarrow> nat option \<Rightarrow> string \<Rightarrow> unit KResult \<times> tmpfs" where
  "tmp_rename s d old new_dir new =
     (case new_dir of
        None \<Rightarrow> (Inl EXDEV, s)
      | Some nd \<Rightarrow>
          (case tmp_lookup s d old of
             Inl e \<Rightarrow> (Inl e, s)
           | Inr i \<Rightarrow>
               (case tn_data (tnode s nd) of
                  TDir m \<Rightarrow>
                    let existing = bt_get m new; is_dir = node_kind s i = Directory in
                    if existing = Some i then (Inr (), s)
                    else (case (case existing of None \<Rightarrow> Inr () | Some ex \<Rightarrow> rename_compatible s i ex) of
                       Inl e \<Rightarrow> (Inl e, s)
                     | Inr _ \<Rightarrow>
                         let s1 = move_entry s d old nd new i;
                             s2 = drop_replaced s1 nd existing;
                             s3 = shift_links s2 is_dir d nd
                         in (Inr (), rename_stamp s3 i d nd))
                | _ \<Rightarrow> (Inl ENOTDIR, s))))"

definition tmp_readdir :: "tmpfs \<Rightarrow> nat \<Rightarrow> dir_entry list KResult" where
  "tmp_readdir s d =
     (case tn_data (tnode s d) of
        TDir m \<Rightarrow> Inr (map (\<lambda>(name, i). \<lparr>de_name = name, de_ino = of_nat i, de_kind = node_kind s i\<rparr>) m)
      | _ \<Rightarrow> Inl ENOTDIR)"

definition tmp_readlink :: "tmpfs \<Rightarrow> nat \<Rightarrow> string KResult" where
  "tmp_readlink s i = (case tn_data (tnode s i) of TSymlink t \<Rightarrow> Inr t | _ \<Rightarrow> Inl EINVAL)"

text \<open>What opening an inode gives: a device, the pipe of a fifo, or an ordinary inode-backed file.\<close>

datatype special = OpenChar u64 | OpenBlock u64 | OpenFifo nat | OpenPlain

definition tmp_open_special :: "tmpfs \<Rightarrow> nat \<Rightarrow> special KResult" where
  "tmp_open_special s i =
     (case node_kind s i of
        CharDevice \<Rightarrow> Inr (OpenChar (tm_rdev (tn_meta (tnode s i))))
      | BlockDevice \<Rightarrow> Inr (OpenBlock (tm_rdev (tn_meta (tnode s i))))
      | Fifo \<Rightarrow> (case tn_data (tnode s i) of TFifo \<Rightarrow> Inr (OpenFifo i) | _ \<Rightarrow> Inl EINVAL)
      | _ \<Rightarrow> Inr OpenPlain)"

definition tmpfs_ops :: "(tmpfs, nat) inode_ops" where
  "tmpfs_ops = \<lparr>io_metadata = tmp_metadata, io_set_attr = tmp_set_attr, io_lookup = tmp_lookup, io_create = tmp_create,
     io_symlink = tmp_symlink, io_link = (\<lambda>s d name t. tmp_link s d name (Some t)), io_unlink = tmp_unlink,
     io_rmdir = tmp_rmdir, io_rename = (\<lambda>s d old nd new. tmp_rename s d old (Some nd) new), io_readdir = tmp_readdir,
     io_readlink = tmp_readlink\<rparr>"
section \<open>File data as a flat sequence of bytes\<close>

definition byte_at :: "page_map \<Rightarrow> nat \<Rightarrow> u8" where
  "byte_at pages k = (case bt_get pages (k div TPAGE) of None \<Rightarrow> 0 | Some p \<Rightarrow> p ! (k mod TPAGE))"

definition pages_ok :: "page_map \<Rightarrow> bool" where
  "pages_ok pages \<longleftrightarrow> bt_ok pages \<and> (\<forall>k p. bt_get pages k = Some p \<longrightarrow> length p = TPAGE)"

definition file_ok :: "page_map \<Rightarrow> nat \<Rightarrow> bool" where
  "file_ok pages sz \<longleftrightarrow> pages_ok pages \<and> (\<forall>k\<ge>sz. byte_at pages k = 0)"

definition content :: "page_map \<Rightarrow> nat \<Rightarrow> u8 list" where
  "content pages sz = map (byte_at pages) [0..<sz]"

lemma TPAGE_pos [simp]: "0 < TPAGE" "k mod TPAGE < TPAGE" "\<not> TPAGE \<le> k mod TPAGE"
  by (simp_all add: TPAGE_def not_le)

lemma div_page: "r < TPAGE \<Longrightarrow> (r + q * TPAGE) div TPAGE = q \<and> (r + q * TPAGE) mod TPAGE = r"
  by simp

lemma same_page_iff:
  assumes "pos \<le> k" "k < pos + c" "c \<le> TPAGE - pos mod TPAGE"
  shows "k div TPAGE = pos div TPAGE \<and> k mod TPAGE = pos mod TPAGE + (k - pos)"
proof -
  let ?q = "pos div TPAGE" and ?r = "pos mod TPAGE + (k - pos)"
  have "pos = ?q * TPAGE + pos mod TPAGE" by simp
  then have k: "k = ?r + ?q * TPAGE" using assms(1) by linarith
  have r: "?r < TPAGE" using assms mod_less_divisor [OF TPAGE_pos(1), of pos] by linarith
  show ?thesis using div_page [OF r, of ?q] k by metis
qed

lemma chunk_range:
  assumes "pages_ok pages" "c \<le> TPAGE - pos mod TPAGE"
  shows "(case bt_get pages (pos div TPAGE) of Some p \<Rightarrow> take c (drop (pos mod TPAGE) p) | None \<Rightarrow> replicate c 0)
    = map (byte_at pages) [pos..<pos + c]"
proof -
  have pt: "byte_at pages (pos + j) = (case bt_get pages (pos div TPAGE) of None \<Rightarrow> 0 | Some p \<Rightarrow> p ! (pos mod TPAGE + j))"
    if "j < c" for j
  proof -
    have e: "(pos + j) div TPAGE = pos div TPAGE" "(pos + j) mod TPAGE = pos mod TPAGE + j"
      using same_page_iff [of pos "pos + j" c] that assms(2) by simp_all
    show ?thesis unfolding byte_at_def e ..
  qed
  show ?thesis
  proof (cases "bt_get pages (pos div TPAGE)")
    case None
    then show ?thesis by (intro nth_equalityI) (simp_all add: pt)
  next
    case (Some p)
    then have "length p = TPAGE" using assms(1) by (simp add: pages_ok_def)
    then show ?thesis using assms(2) Some by (intro nth_equalityI) (simp_all add: pt)
  qed
qed

lemma read_loop_eq:
  assumes "pages_ok pages" "dn \<le> n"
  shows "read_loop pages off n dn = map (byte_at pages) [off + dn..<off + n]"
  using assms
proof (induction pages off n dn rule: read_loop.induct)
  case (1 pages off n dn)
  define c where "c = min (TPAGE - (off + dn) mod TPAGE) (n - dn)"
  then have c: "c \<le> TPAGE - (off + dn) mod TPAGE" "dn < n \<Longrightarrow> dn + c \<le> n" by auto
  show ?case
  proof (cases "dn < n")
    case True
    have step: "read_loop pages off n dn =
        (case bt_get pages ((off + dn) div TPAGE) of Some p \<Rightarrow> take c (drop ((off + dn) mod TPAGE) p) | None \<Rightarrow> replicate c 0)
        @ read_loop pages off n (dn + c)"
      using True unfolding c_def read_loop.simps [of pages off n dn] by (simp only: Let_def if_True)
    have "read_loop pages off n (dn + c) = map (byte_at pages) [off + (dn + c)..<off + n]"
      using "1.IH" [OF True refl refl refl refl "1.prems"(1)] c(2) [OF True] by (simp add: c_def)
    moreover have "[off + dn..<off + n] = [off + dn..<off + dn + c] @ [off + dn + c..<off + n]"
      using c(2) [OF True] upt_add_eq_append [of "off + dn" "off + dn + c" "n - (dn + c)"] by simp
    ultimately show ?thesis
      using chunk_range [OF "1.prems"(1) c(1)] step by (simp add: add.assoc)
  next
    case False
    then show ?thesis by (simp add: read_loop.simps)
  qed
qed
definition page_or_zero :: "page_map \<Rightarrow> nat \<Rightarrow> u8 list" where
  "page_or_zero pages k = (case bt_get pages k of Some p \<Rightarrow> p | None \<Rightarrow> replicate TPAGE 0)"

definition put_part :: "page_map \<Rightarrow> nat \<Rightarrow> u8 list \<Rightarrow> page_map" where
  "put_part pages pos part =
     bt_insert (pos div TPAGE) (patch (page_or_zero pages (pos div TPAGE)) (pos mod TPAGE) part) pages"

lemma page_or_zero_length: "pages_ok pages \<Longrightarrow> length (page_or_zero pages k) = TPAGE"
  by (auto simp: page_or_zero_def pages_ok_def split: option.split)

lemma byte_at_page: "byte_at pages k = page_or_zero pages (k div TPAGE) ! (k mod TPAGE)"
  by (simp add: byte_at_def page_or_zero_def split: option.split)

lemma nth_patch:
  assumes "po + length bs \<le> length p" "j < length p"
  shows "patch p po bs ! j = (if po \<le> j \<and> j < po + length bs then bs ! (j - po) else p ! j)"
  using assms by (auto simp: patch_def nth_append)

lemma put_part_page:
  "page_or_zero (put_part pages pos part) k =
     (if k = pos div TPAGE then patch (page_or_zero pages k) (pos mod TPAGE) part else page_or_zero pages k)"
  by (simp add: put_part_def page_or_zero_def bt_get_insert)

lemma in_part_iff:
  assumes "c \<le> TPAGE - pos mod TPAGE"
  shows "k div TPAGE = pos div TPAGE \<and> pos mod TPAGE \<le> k mod TPAGE \<and> k mod TPAGE < pos mod TPAGE + c
    \<longleftrightarrow> pos \<le> k \<and> k < pos + c"
proof
  assume "pos \<le> k \<and> k < pos + c"
  then show "k div TPAGE = pos div TPAGE \<and> pos mod TPAGE \<le> k mod TPAGE \<and> k mod TPAGE < pos mod TPAGE + c"
    using same_page_iff [of pos k c] assms by auto
next
  assume "k div TPAGE = pos div TPAGE \<and> pos mod TPAGE \<le> k mod TPAGE \<and> k mod TPAGE < pos mod TPAGE + c"
  moreover have "k = k div TPAGE * TPAGE + k mod TPAGE" "pos = pos div TPAGE * TPAGE + pos mod TPAGE" by simp_all
  ultimately show "pos \<le> k \<and> k < pos + c" by (metis add.assoc nat_add_left_cancel_le nat_add_left_cancel_less)
qed

lemma byte_at_put_part:
  assumes "pages_ok pages" "length part \<le> TPAGE - pos mod TPAGE"
  shows "byte_at (put_part pages pos part) k =
    (if pos \<le> k \<and> k < pos + length part then part ! (k - pos) else byte_at pages k)"
proof -
  let ?p = "page_or_zero pages (k div TPAGE)"
  have len: "pos mod TPAGE + length part \<le> length ?p" "k mod TPAGE < length ?p"
    unfolding page_or_zero_length [OF assms(1)] using le_diff_conv2 assms(2) by (auto simp: less_imp_le)
  note range = in_part_iff [OF assms(2), of k]
  have "k mod TPAGE - pos mod TPAGE = k - pos" if "pos \<le> k \<and> k < pos + length part"
    using same_page_iff [of pos k "length part"] that assms(2) by simp
  then show ?thesis
    using range nth_patch [OF len] by (auto simp: byte_at_page put_part_page)
qed

lemma put_part_ok: "pages_ok pages \<Longrightarrow> length part \<le> TPAGE - pos mod TPAGE \<Longrightarrow> pages_ok (put_part pages pos part)"
  using page_or_zero_length [of pages "pos div TPAGE"] le_diff_conv2 [of "pos mod TPAGE" TPAGE "length part"]
  by (auto simp: pages_ok_def put_part_def bt_get_insert patch_def less_imp_le min_def)

lemma length_put_part:
  "pages_ok pages \<Longrightarrow> length (put_part pages pos part) =
     length pages + (if bt_get pages (pos div TPAGE) = None then 1 else 0)"
  by (simp add: put_part_def bt.cnt_ins pages_ok_def)

lemma write_loop_step:
  fixes off dn :: nat and buf :: "u8 list"
  defines "c \<equiv> min (TPAGE - (off + dn) mod TPAGE) (length buf - dn)"
  assumes "dn < length buf"
  shows "write_loop limit pages used off buf dn =
    (case (if bt_get pages ((off + dn) div TPAGE) = None then charge limit used TPAGE else Inr used) of
       Inl e \<Rightarrow> (Inl e, pages, used)
     | Inr used' \<Rightarrow>
         write_loop limit (put_part pages (off + dn) (take c (drop dn buf))) used' off buf (dn + c))"
  using assms(2) unfolding c_def write_loop.simps [of limit pages used off buf dn] put_part_def page_or_zero_def
  by (simp add: Let_def split: option.split sum.split)

lemma write_loop_spec:
  assumes "write_loop limit pages used off buf dn = (r, pages', used')" "pages_ok pages" "dn \<le> length buf"
  shows "pages_ok pages' \<and> used' + TPAGE * length pages = used + TPAGE * length pages' \<and>
    (0 < limit \<and> used \<le> limit \<longrightarrow> used' \<le> limit) \<and>
    (\<exists>m. dn \<le> m \<and> m \<le> length buf \<and> (r = Inr () \<longrightarrow> m = length buf) \<and>
      (\<forall>k. byte_at pages' k = (if off + dn \<le> k \<and> k < off + m then buf ! (k - off) else byte_at pages k)))"
  using assms
proof (induction "length buf - dn" arbitrary: pages used dn rule: less_induct)
  case less
  define c where "c = min (TPAGE - (off + dn) mod TPAGE) (length buf - dn)"
  define part where "part = take c (drop dn buf)"
  let ?put = "put_part pages (off + dn) part"
  show ?case
  proof (cases "dn < length buf")
    case True
    have c: "0 < c" "dn + c \<le> length buf" using True by (auto simp: c_def)
    have part: "length part = c" "length part \<le> TPAGE - (off + dn) mod TPAGE" using c by (auto simp: part_def c_def)
    note step = write_loop_step [OF True, of limit pages used off, folded c_def, folded part_def]
    show ?thesis
    proof (cases "if bt_get pages ((off + dn) div TPAGE) = None then charge limit used TPAGE else Inr used")
      case (Inl e)
      then show ?thesis using less.prems step by auto
    next
      case (Inr u)
      have u: "u = used + (if bt_get pages ((off + dn) div TPAGE) = None then TPAGE else 0)"
        "0 < limit \<and> used \<le> limit \<longrightarrow> u \<le> limit"
        using Inr by (auto simp: charge_def split: if_splits)
      have ok: "pages_ok ?put" by (rule put_part_ok [OF less.prems(2) part(2)])
      have "write_loop limit ?put u off buf (dn + c) = (r, pages', used')" using less.prems(1) step Inr by simp
      moreover have "length buf - (dn + c) < length buf - dn" using c by linarith
      ultimately obtain m where
        m: "pages_ok pages'" "used' + TPAGE * length ?put = u + TPAGE * length pages'"
          "0 < limit \<and> u \<le> limit \<longrightarrow> used' \<le> limit" "dn + c \<le> m" "m \<le> length buf" "r = Inr () \<longrightarrow> m = length buf"
        and bytes: "\<And>k. byte_at pages' k = (if off + (dn + c) \<le> k \<and> k < off + m then buf ! (k - off) else byte_at ?put k)"
        using less.hyps [OF _ _ ok c(2)] by blast
      have "byte_at pages' k = (if off + dn \<le> k \<and> k < off + m then buf ! (k - off) else byte_at pages k)" for k
        using m(4,5) part(1) c unfolding bytes byte_at_put_part [OF less.prems(2) part(2)]
        by (auto simp: part_def add.commute)
      moreover have "used' + TPAGE * length pages = used + TPAGE * length pages'"
        using m(2) u(1) length_put_part [OF less.prems(2), of "off + dn" part] by (simp split: if_splits)
      ultimately show ?thesis using m u(2) c by (intro conjI exI [of _ m]) auto
    qed
  next
    case False
    then show ?thesis using less.prems by (auto simp: write_loop.simps)
  qed
qed
lemma foldl_bt_remove: "foldl (\<lambda>m k. bt_remove k m) pages ks = filter (\<lambda>e. fst e \<notin> set ks) pages"
  by (induction ks arbitrary: pages) (simp_all add: bt_remove_def conj_commute)

lemma bt_get_filter_keys: "bt_get (filter (\<lambda>e. P (fst e)) m) k = (if P k then bt_get m k else None)"
  unfolding bt_get_def by (induction m) auto

lemma div_ceil_le_iff: "div_ceil sz TPAGE \<le> k \<longleftrightarrow> sz \<le> k * TPAGE"
proof -
  have sz: "sz = sz div TPAGE * TPAGE + sz mod TPAGE" by simp
  show ?thesis
  proof (cases "sz mod TPAGE = 0")
    case True
    then have "sz = sz div TPAGE * TPAGE" using sz by simp
    then have "sz \<le> k * TPAGE \<longleftrightarrow> sz div TPAGE \<le> k" by (metis TPAGE_pos(1) mult_le_cancel2)
    then show ?thesis using True by (simp add: div_ceil_def)
  next
    case False
    have "sz \<le> k * TPAGE \<longleftrightarrow> sz div TPAGE < k"
    proof
      assume "sz \<le> k * TPAGE"
      then have "sz div TPAGE * TPAGE < k * TPAGE" using sz False by linarith
      then show "sz div TPAGE < k" by simp
    next
      assume "sz div TPAGE < k"
      then have "(sz div TPAGE + 1) * TPAGE \<le> k * TPAGE" by (intro mult_le_mono1) simp
      then show "sz \<le> k * TPAGE" using dividend_less_div_times [OF TPAGE_pos(1), of sz] by (simp add: algebra_simps)
    qed
    then show ?thesis using False by (simp add: div_ceil_def Suc_le_eq)
  qed
qed

lemma page_beyond:
  assumes "k div TPAGE \<noteq> sz div TPAGE \<or> sz mod TPAGE = 0"
  shows "div_ceil sz TPAGE \<le> k div TPAGE \<longleftrightarrow> sz \<le> k"
proof -
  have k: "k = k div TPAGE * TPAGE + k mod TPAGE" and sz: "sz = sz div TPAGE * TPAGE + sz mod TPAGE" by simp_all
  have "sz \<le> k div TPAGE * TPAGE" if "sz \<le> k"
  proof (cases "sz mod TPAGE = 0")
    case True
    have "sz div TPAGE \<le> k div TPAGE" using that by (rule div_le_mono)
    then have "sz div TPAGE * TPAGE \<le> k div TPAGE * TPAGE" by simp
    then show ?thesis using sz True by linarith
  next
    case False
    then have "sz div TPAGE < k div TPAGE" using assms div_le_mono [OF that, of TPAGE] by simp
    then have "(sz div TPAGE + 1) * TPAGE \<le> k div TPAGE * TPAGE" by (intro mult_le_mono1) simp
    then show ?thesis using dividend_less_div_times [OF TPAGE_pos(1), of sz] by (simp add: algebra_simps)
  qed
  then show ?thesis using k unfolding div_ceil_le_iff by linarith
qed

lemma truncate_pages_spec:
  assumes "truncate_pages pages cur sz = (pages', dead)" "pages_ok pages"
  shows "pages_ok pages'" "length pages' + dead = length pages"
    and "byte_at pages' k = (if sz < cur \<and> sz \<le> k then 0 else byte_at pages k)"
proof -
  define kept where "kept = filter (\<lambda>e. fst e < div_ceil sz TPAGE) pages"
  define tail where "tail = (case bt_get kept (sz div TPAGE) of
      Some p \<Rightarrow> bt_insert (sz div TPAGE) (take (sz mod TPAGE) p @ replicate (length p - sz mod TPAGE) 0) kept | None \<Rightarrow> kept)"
  have "foldl (\<lambda>m k. bt_remove k m) pages (filter (\<lambda>k. div_ceil sz TPAGE \<le> k) (map fst pages)) = kept"
    unfolding foldl_bt_remove kept_def by (rule filter_cong) auto
  then have eq: "sz < cur \<Longrightarrow> pages' = (if sz mod TPAGE \<noteq> 0 then tail else kept) \<and>
      dead = length (filter (\<lambda>k. div_ceil sz TPAGE \<le> k) (map fst pages))"
    "\<not> sz < cur \<Longrightarrow> pages' = pages \<and> dead = 0"
    using assms(1) by (auto simp: truncate_pages_def Let_def tail_def split: if_splits)
  have get: "bt_get kept k = (if k < div_ceil sz TPAGE then bt_get pages k else None)" for k
    unfolding kept_def by (rule bt_get_filter_keys)
  have ok: "pages_ok kept"
    using assms(2) bt_ok_filter [of pages] by (auto simp: pages_ok_def get) (simp add: kept_def)
  then have ok': "pages_ok tail"
    by (auto simp: pages_ok_def tail_def bt_get_insert split: option.split)
  show "pages_ok pages'" using eq ok ok' assms(2) by (cases "sz < cur") auto
  have "length kept + length (filter (\<lambda>k. div_ceil sz TPAGE \<le> k) (map fst pages)) = length pages"
    unfolding kept_def by (induction pages) auto
  moreover have "length tail = length kept"
    using ok by (auto simp: tail_def bt.cnt_ins pages_ok_def split: option.split)
  ultimately show "length pages' + dead = length pages" using eq by (cases "sz < cur") auto
  show "byte_at pages' k = (if sz < cur \<and> sz \<le> k then 0 else byte_at pages k)"
  proof (cases "k div TPAGE = sz div TPAGE \<and> sz mod TPAGE \<noteq> 0")
    case True
    then have less: "sz div TPAGE < div_ceil sz TPAGE" by (simp add: div_ceil_def)
    have "k = sz div TPAGE * TPAGE + k mod TPAGE" "sz = sz div TPAGE * TPAGE + sz mod TPAGE"
      using True div_mult_mod_eq [of k TPAGE] by simp_all
    then have k: "sz \<le> k \<longleftrightarrow> sz mod TPAGE \<le> k mod TPAGE" by linarith
    show ?thesis
    proof (cases "bt_get pages (sz div TPAGE)")
      case None
      then show ?thesis using True eq less by (cases "sz < cur") (simp_all add: byte_at_def tail_def get)
    next
      case (Some p)
      then have "length p = TPAGE" using assms(2) by (simp add: pages_ok_def)
      moreover have "k mod TPAGE - sz mod TPAGE < TPAGE - sz mod TPAGE" if "sz mod TPAGE \<le> k mod TPAGE"
        using that by (intro diff_less_mono) simp_all
      ultimately show ?thesis using True eq less Some k
        by (cases "sz < cur") (auto simp: byte_at_def tail_def get bt_get_insert nth_append)
    qed
  next
    case False
    have "bt_get tail (k div TPAGE) = bt_get kept (k div TPAGE)" if "sz mod TPAGE \<noteq> 0"
      using False that by (auto simp: tail_def bt_get_insert split: option.split)
    then have "sz < cur \<Longrightarrow> bt_get pages' (k div TPAGE) = bt_get kept (k div TPAGE)" using eq(1) by auto
    then show ?thesis
      using eq(2) page_beyond [of k sz] False by (cases "sz < cur") (auto simp: byte_at_def get not_le)
  qed
qed

section \<open>The abstract file\<close>

definition file_read :: "nat \<Rightarrow> nat \<Rightarrow> u8 list \<Rightarrow> u8 list" where
  "file_read off n c = take n (drop off c)"

definition pad_to :: "nat \<Rightarrow> u8 list \<Rightarrow> u8 list" where
  "pad_to off c = take off c @ replicate (off - length c) 0"

definition file_write :: "nat \<Rightarrow> u8 list \<Rightarrow> u8 list \<Rightarrow> u8 list" where
  "file_write off bs c = pad_to off c @ bs @ drop (off + length bs) c"

definition file_truncate :: "nat \<Rightarrow> u8 list \<Rightarrow> u8 list" where
  "file_truncate n c = pad_to n c"

lemma length_content [simp]: "length (content pages sz) = sz"
  by (simp add: content_def)

lemma read_content: "pages_ok pages \<Longrightarrow> off + n \<le> sz \<Longrightarrow> read_loop pages off n 0 = file_read off n (content pages sz)"
  by (simp add: read_loop_eq file_read_def content_def take_map drop_map)

lemma length_pad_to [simp]: "length (pad_to off c) = off"
  by (simp add: pad_to_def)

lemma nth_pad_to: "i < off \<Longrightarrow> pad_to off c ! i = (if i < length c then c ! i else 0)"
  by (simp add: pad_to_def nth_append)

lemma nth_pad_content:
  assumes "file_ok pages sz" "i < off"
  shows "pad_to off (content pages sz) ! i = byte_at pages i"
  using assms by (auto simp: nth_pad_to content_def file_ok_def)

lemma write_content:
  assumes "file_ok pages sz"
    and "\<And>k. byte_at pages' k = (if off \<le> k \<and> k < off + length bs then bs ! (k - off) else byte_at pages k)"
  shows "content pages' (max sz (off + length bs)) = file_write off bs (content pages sz)"
proof (rule nth_equalityI)
  fix i assume "i < length (content pages' (max sz (off + length bs)))"
  then show "content pages' (max sz (off + length bs)) ! i = file_write off bs (content pages sz) ! i"
    using nth_pad_content [OF assms(1), of i off]
    by (auto simp: file_write_def nth_append content_def assms(2))
qed (simp add: file_write_def)

lemma truncate_content:
  assumes "file_ok pages cur" "\<And>k. byte_at pages' k = (if sz < cur \<and> sz \<le> k then 0 else byte_at pages k)"
  shows "content pages' sz = file_truncate sz (content pages cur)"
  using assms nth_pad_content [OF assms(1), of _ sz]
  by (intro nth_equalityI) (auto simp: file_truncate_def content_def)
section \<open>Files behind the inode interface\<close>

text \<open>
  What a file system promises of a regular file: reading, writing and setting the size act on its content as on
  one sequence of bytes, and leave the content of every other file as it was.
\<close>

locale byte_file =
  fixes rd :: "'s \<Rightarrow> 'i \<Rightarrow> nat \<Rightarrow> nat \<Rightarrow> u8 list KResult"
    and wr :: "'s \<Rightarrow> 'i \<Rightarrow> nat \<Rightarrow> u8 list \<Rightarrow> nat KResult \<times> 's"
    and tr :: "'s \<Rightarrow> 'i \<Rightarrow> nat \<Rightarrow> unit KResult \<times> 's"
    and data :: "'s \<Rightarrow> 'i \<Rightarrow> u8 list" and ok :: "'s \<Rightarrow> 'i \<Rightarrow> bool"
  assumes rd_data: "ok s i \<Longrightarrow> rd s i off n = Inr (file_read off n (data s i))"
    and wr_data: "ok s i \<Longrightarrow> wr s i off bs = (Inr n, s') \<Longrightarrow>
      n = length bs \<and> ok s' i \<and> data s' i = file_write off bs (data s i)"
    and wr_other: "ok s i \<Longrightarrow> wr s i off bs = (Inr n, s') \<Longrightarrow> ok s j \<Longrightarrow> j \<noteq> i \<Longrightarrow> ok s' j \<and> data s' j = data s j"
    and tr_data: "ok s i \<Longrightarrow> \<exists>s'. tr s i len = (Inr (), s') \<and> ok s' i \<and> data s' i = file_truncate len (data s i)"
    and tr_other: "ok s i \<Longrightarrow> tr s i len = (r, s') \<Longrightarrow> ok s j \<Longrightarrow> j \<noteq> i \<Longrightarrow> ok s' j \<and> data s' j = data s j"
begin

lemma read_back:
  assumes "ok s i" "wr s i off bs = (Inr n, s')"
  shows "rd s' i off (length bs) = Inr bs"
  using wr_data [OF assms] rd_data [of s' i off "length bs"] by (simp add: file_read_def file_write_def)

lemma append_write:
  assumes "ok s i" "wr s i (length (data s i)) bs = (Inr n, s')"
  shows "data s' i = data s i @ bs"
  using wr_data [OF assms] by (simp add: file_write_def pad_to_def)

end

definition tmp_file_ok :: "tmpfs \<Rightarrow> nat \<Rightarrow> bool" where
  "tmp_file_ok s i \<longleftrightarrow>
     (case tf_nodes s i of
        None \<Rightarrow> False
      | Some n \<Rightarrow> (case tn_data n of TFile pages sz \<Rightarrow> file_ok pages sz | _ \<Rightarrow> False))"

definition tmp_content :: "tmpfs \<Rightarrow> nat \<Rightarrow> u8 list" where
  "tmp_content s i = (case tn_data (tnode s i) of TFile pages sz \<Rightarrow> content pages sz | _ \<Rightarrow> [])"

lemmas store_defs = set_node_def upd_meta_def set_data_def touch_mc_def set_ctime_def set_nlink_def uncharge_def

lemma tmp_file_okE:
  assumes "tmp_file_ok s i"
  obtains pages sz where "tn_data (tnode s i) = TFile pages sz" "file_ok pages sz" "tmp_content s i = content pages sz"
  using assms by (auto simp: tmp_file_ok_def tnode_def tmp_content_def split: option.splits tmp_data.splits)

lemma tmp_read_content:
  assumes "tmp_file_ok s i"
  shows "tmp_read_at s i off n = Inr (file_read off n (tmp_content s i))"
proof -
  obtain pages sz where f: "tn_data (tnode s i) = TFile pages sz" "file_ok pages sz" "tmp_content s i = content pages sz"
    using assms by (rule tmp_file_okE)
  have "read_loop pages off (min n (sz - off)) 0 = file_read off n (content pages sz)" if "off < sz"
    using read_content [of pages off n sz] read_content [of pages off "sz - off" sz] f(2) that
    by (cases "n \<le> sz - off") (simp_all add: file_ok_def file_read_def min_def)
  then show ?thesis using f by (simp add: tmp_read_at_def file_read_def)
qed

lemma file_ok_write:
  assumes "file_ok pages sz" "pages_ok pages'"
    and "\<And>k. byte_at pages' k = (if off \<le> k \<and> k < off + m then b k else byte_at pages k)" "m \<le> n"
  shows "file_ok pages' (max sz (off + n))"
  using assms by (auto simp: file_ok_def)

lemma tmp_write_content:
  assumes "tmp_file_ok s i" "tmp_write_at s i off bs = (Inr n, s')"
  shows "n = length bs \<and> tmp_file_ok s' i \<and> tmp_content s' i = file_write off bs (tmp_content s i)"
proof -
  obtain pages sz where f: "tn_data (tnode s i) = TFile pages sz" "file_ok pages sz" "tmp_content s i = content pages sz"
    using assms(1) by (rule tmp_file_okE)
  obtain pages' used' where w: "write_loop (tf_limit s) pages (tf_used s) off bs 0 = (Inr (), pages', used')"
    and s': "n = length bs"
      "s' = touch_mc ((set_data s i (TFile pages' (max sz (off + length bs))))\<lparr>tf_used := used'\<rparr>) i"
    using assms(2) f(1) by (auto simp: tmp_write_at_def Let_def max_def split: if_splits prod.splits sum.splits)
  have pk: "pages_ok pages" using f(2) by (simp add: file_ok_def)
  note spec = write_loop_spec [OF w pk, simplified]
  have bytes: "\<And>k. byte_at pages' k = (if off \<le> k \<and> k < off + length bs then bs ! (k - off) else byte_at pages k)"
    using spec by blast
  have "tf_nodes s' i \<noteq> None" "tn_data (tnode s' i) = TFile pages' (max sz (off + length bs))"
    by (simp_all add: s' store_defs tnode_def)
  then show ?thesis
    using file_ok_write [OF f(2) _ bytes] write_content [OF f(2) bytes] spec f(3) s'(1)
    by (auto simp: tmp_file_ok_def tmp_content_def tnode_def)
qed

lemma tmp_write_other:
  assumes "tmp_write_at s i off bs = (r, s')" "j \<noteq> i"
  shows "tf_nodes s' j = tf_nodes s j"
  using assms
  by (auto simp: tmp_write_at_def store_defs Let_def split: if_splits prod.splits sum.splits tmp_data.splits)

lemma tmp_other:
  assumes "tf_nodes s' j = tf_nodes s j" "tmp_file_ok s j"
  shows "tmp_file_ok s' j \<and> tmp_content s' j = tmp_content s j"
  using assms by (simp add: tmp_file_ok_def tmp_content_def tnode_def)

lemma tmp_truncate_content:
  assumes "tmp_file_ok s i"
  shows "\<exists>s'. tmp_truncate s i len = (Inr (), s') \<and> tmp_file_ok s' i \<and> tmp_content s' i = file_truncate len (tmp_content s i)"
proof -
  obtain pages sz where f: "tn_data (tnode s i) = TFile pages sz" "file_ok pages sz" "tmp_content s i = content pages sz"
    using assms by (rule tmp_file_okE)
  obtain pages' dead where t: "truncate_pages pages sz len = (pages', dead)" by (cases "truncate_pages pages sz len")
  have pk: "pages_ok pages" using f(2) by (simp add: file_ok_def)
  note spec = truncate_pages_spec [OF t pk]
  let ?s' = "uncharge (set_data s i (TFile pages' len)) (dead * TPAGE)"
  have "tmp_truncate s i len = (Inr (), ?s')" using f(1) t by (simp add: tmp_truncate_def)
  moreover have "file_ok pages' len" using f(2) spec(1,3) by (auto simp: file_ok_def)
  moreover have "tf_nodes ?s' i \<noteq> None" "tn_data (tnode ?s' i) = TFile pages' len"
    by (simp_all add: store_defs tnode_def)
  ultimately show ?thesis
    using truncate_content [OF f(2) spec(3)] f(3) by (auto simp: tmp_file_ok_def tmp_content_def tnode_def)
qed

lemma tmp_truncate_other: "tmp_truncate s i len = (r, s') \<Longrightarrow> j \<noteq> i \<Longrightarrow> tf_nodes s' j = tf_nodes s j"
  by (auto simp: tmp_truncate_def store_defs split: tmp_data.splits prod.splits)

interpretation tmpfile: byte_file tmp_read_at tmp_write_at tmp_truncate tmp_content tmp_file_ok
  by unfold_locales
    (use tmp_read_content tmp_write_content tmp_write_other tmp_other tmp_truncate_content tmp_truncate_other in \<open>metis+\<close>)
lemma write_loop_unlimited: "fst (write_loop 0 pages used off buf dn) = Inr ()"
proof (induction "length buf - dn" arbitrary: pages used dn rule: less_induct)
  case less
  show ?case
  proof (cases "dn < length buf")
    case True
    define c where "c = min (TPAGE - (off + dn) mod TPAGE) (length buf - dn)"
    have "0 < c" using True by (simp add: c_def)
    then have "length buf - (dn + c) < length buf - dn" using True by linarith
    then have "fst (write_loop 0 pages' used' off buf (dn + c)) = Inr ()" for pages' used' by (rule less)
    then show ?thesis by (simp add: write_loop_step [OF True] charge_def flip: c_def)
  qed (simp add: write_loop.simps)
qed

section \<open>Theorems\<close>


definition example_fs :: "nat \<Rightarrow> tmpfs" where
  "example_fs limit = snd (tmp_create (tmpfs_new 1 limit \<lparr>ts_sec = 0, ts_nsec = 0\<rparr>) 1 ''f'' Regular 0x1A4 0 0 0)"

lemma example_file:
  "tf_limit (example_fs limit) = limit" "tf_used (example_fs limit) = 0" "tn_data (tnode (example_fs limit) 2) = TFile [] 0"
  "tmp_file_ok (example_fs limit) 2" "tmp_content (example_fs limit) 2 = []"
  by (simp_all add: example_fs_def tmp_create_def tmpfs_new_def tmpfs_named_def Let_def link_new_def alloc_node_def add_child_def
      store_defs tnode_def new_node_def with_nlink_def tmp_file_ok_def tmp_content_def content_def file_ok_def pages_ok_def byte_at_def)


text \<open>
  A write that runs out of space half way reports an error but keeps the pages it filled: after the file
  is made longer, the bytes of the failed write appear where zeros are due.
\<close>

lemma failed_write_shows_later:
  assumes "length bs = 4097" "tmp_write_at (example_fs 4096) 2 0 bs = (r, s1)" "tmp_truncate s1 2 1 = (r2, s2)"
  shows "r = Inl ENOSPC \<and> tmp_content s1 2 = [] \<and> tmp_content s2 2 = [hd bs]"
proof -
  let ?p = "put_part [] 0 (take 4096 bs)"
  have lt: "0 < length bs" "4096 < length bs" using assms(1) by simp_all
  have "bt_get ?p 1 = None" by (simp add: put_part_def bt_get_insert bt_get_def)
  then have w: "write_loop 4096 [] 0 0 bs 0 = (Inl ENOSPC, ?p, 4096)"
    using assms(1) lt by (simp add: write_loop_step [OF lt(1)] write_loop_step [OF lt(2)] charge_def TPAGE_def)
  have s1: "r = Inl ENOSPC" "s1 = (set_data (example_fs 4096) 2 (TFile ?p 0))\<lparr>tf_used := 4096\<rparr>"
    using assms(1,2) w example_file [of 4096] by (auto simp: tmp_write_at_def)
  have n1: "tn_data (tnode s1 2) = TFile ?p 0" unfolding s1(2) by (simp add: store_defs tnode_def)
  have "s2 = uncharge (set_data s1 2 (TFile ?p 1)) 0"
    using assms(3) n1 by (simp add: tmp_truncate_def truncate_pages_def)
  then have n2: "tn_data (tnode s2 2) = TFile ?p 1" by (simp add: store_defs tnode_def)
  have "byte_at ?p 0 = hd bs"
    using byte_at_put_part [of "[]" "take 4096 bs" 0 0] assms(1)
    by (cases bs) (simp_all add: pages_ok_def TPAGE_def)
  then show ?thesis using s1(1) n1 n2 by (simp add: tmp_content_def content_def)
qed

end
