(* ===== verification/Tmpfs_Tree.thy ===== *)
theory Tmpfs_Tree
  imports Tmpfs
begin

unbundle bit_operations_syntax

text \<open>
  The directory tree and the counters of the in-memory file system: what every sequence of calls keeps. The tree
  is abstracted to its entries, the kinds of the nodes and their link counts; each call is one of a few changes of
  that abstraction, and the invariant is proved on those.
\<close>

section \<open>Names and link counts\<close>

text \<open>
  The directory tree as a relation: the entries, the kinds of the live nodes and their link counts. A file's count is
  the number of its names; a directory's is two while it is linked into the tree, plus its subdirectories.
\<close>

type_synonym entries = "nat \<times> string \<Rightarrow> nat option"

definition names_of :: "entries \<Rightarrow> nat \<Rightarrow> nat" where
  "names_of E i = card {k. E k = Some i}"

definition subdirs :: "entries \<Rightarrow> (nat \<Rightarrow> file_type option) \<Rightarrow> nat \<Rightarrow> nat" where
  "subdirs E K d = card {k. fst k = d \<and> (\<exists>i. E k = Some i \<and> K i = Some Directory)}"

definition links_ok :: "entries \<Rightarrow> (nat \<Rightarrow> file_type option) \<Rightarrow> (nat \<Rightarrow> nat) \<Rightarrow> bool" where
  "links_ok E K L \<longleftrightarrow>
     finite (dom E) \<and> (\<forall>k i. E k = Some i \<longrightarrow> K i \<noteq> None \<and> K (fst k) = Some Directory) \<and>
     K 1 = Some Directory \<and> names_of E 1 = 0 \<and>
     (\<forall>i. K i = Some Directory \<longrightarrow>
        names_of E i \<le> 1 \<and> L i = 2 * (if i = 1 then 1 else names_of E i) + subdirs E K i) \<and>
     (\<forall>i k. K i = Some k \<and> k \<noteq> Directory \<longrightarrow> L i = names_of E i)"

lemma finite_entries: "finite (dom E) \<Longrightarrow> finite {k. E k = Some i \<and> P k}"
  by (erule finite_subset [rotated]) auto

lemma names_of_put:
  assumes "finite (dom E)" "E k = None"
  shows "names_of (E(k \<mapsto> i)) j = names_of E j + (if j = i then 1 else 0)"
proof -
  have "{x. (E(k \<mapsto> i)) x = Some j} = (if j = i then insert k {x. E x = Some j} else {x. E x = Some j})"
    using assms(2) by auto
  then show ?thesis
    using assms(2) finite_entries [OF assms(1), of i "\<lambda>_. True"] unfolding names_of_def
    by (cases "j = i") (simp_all add: card_insert_if)
qed

lemma names_of_del:
  assumes "finite (dom E)" "E k = Some i"
  shows "names_of E j = names_of (E(k := None)) j + (if j = i then 1 else 0)"
  using names_of_put [of "E(k := None)" k i j] assms by (simp add: fun_upd_idem)

lemma finite_subdirs: "finite (dom E) \<Longrightarrow> finite {k. fst k = d \<and> (\<exists>i. E k = Some i \<and> P i)}"
  by (erule finite_subset [rotated]) auto

lemma subdirs_put:
  assumes "finite (dom E)" "E k = None"
  shows "subdirs (E(k \<mapsto> i)) K d = subdirs E K d + (if d = fst k \<and> K i = Some Directory then 1 else 0)"
proof -
  let ?A = "{x. fst x = d \<and> (\<exists>j. E x = Some j \<and> K j = Some Directory)}"
  have "{x. fst x = d \<and> (\<exists>j. (E(k \<mapsto> i)) x = Some j \<and> K j = Some Directory)} =
      (if d = fst k \<and> K i = Some Directory then insert k ?A else ?A)"
    using assms(2) by auto
  moreover have "k \<notin> ?A" using assms(2) by auto
  ultimately show ?thesis
    using finite_subdirs [OF assms(1), of d "\<lambda>j. K j = Some Directory"] unfolding subdirs_def
    by (cases "d = fst k \<and> K i = Some Directory") (simp_all only: card_insert_if if_True if_False, simp_all)
qed

lemma subdirs_del:
  assumes "finite (dom E)" "E k = Some i"
  shows "subdirs E K d = subdirs (E(k := None)) K d + (if d = fst k \<and> K i = Some Directory then 1 else 0)"
  using subdirs_put [of "E(k := None)" k i K d] assms by (simp add: fun_upd_idem)

lemma subdirs_new:
  assumes "\<And>k j. E k = Some j \<Longrightarrow> j \<noteq> i"
  shows "subdirs E (K(i \<mapsto> t)) d = subdirs E K d"
  using assms unfolding subdirs_def by (intro arg_cong [where f = card]) auto

lemma names_of_zero: "finite (dom E) \<Longrightarrow> names_of E i = 0 \<longleftrightarrow> (\<forall>k. E k \<noteq> Some i)"
  using finite_entries [of E i "\<lambda>_. True"] by (auto simp: names_of_def)

lemma subdirs_zero: "(\<forall>nm. E (d, nm) = None) \<Longrightarrow> subdirs E K d = 0"
proof -
  assume "\<forall>nm. E (d, nm) = None"
  then have "{k. fst k = d \<and> (\<exists>i. E k = Some i \<and> K i = Some Directory)} = {}" by auto
  then show ?thesis unfolding subdirs_def by (simp only: card.empty)
qed

lemma links_okI:
  assumes "finite (dom E)" "\<And>k i. E k = Some i \<Longrightarrow> K i \<noteq> None \<and> K (fst k) = Some Directory"
    and "K 1 = Some Directory" "names_of E 1 = 0"
    and "\<And>i. K i = Some Directory \<Longrightarrow> names_of E i \<le> 1 \<and> L i = 2 * (if i = 1 then 1 else names_of E i) + subdirs E K i"
    and "\<And>i t. K i = Some t \<Longrightarrow> t \<noteq> Directory \<Longrightarrow> L i = names_of E i"
  shows "links_ok E K L"
  unfolding links_ok_def using assms by blast

lemma links_okD:
  assumes "links_ok E K L"
  shows "finite (dom E)" "E k = Some i \<Longrightarrow> K i \<noteq> None \<and> K (fst k) = Some Directory"
    and "K 1 = Some Directory" "names_of E 1 = 0"
    and "K j = Some Directory \<Longrightarrow> names_of E j \<le> 1 \<and> L j = 2 * (if j = 1 then 1 else names_of E j) + subdirs E K j"
    and "K j = Some t \<Longrightarrow> t \<noteq> Directory \<Longrightarrow> L j = names_of E j"
  using assms unfolding links_ok_def by blast+

text \<open>One lemma per way the tree changes.\<close>

lemma links_new:
  assumes ok: "links_ok E K L" and d: "K (fst k) = Some Directory" and free: "E k = None" "K i = None"
    and L': "L' i = (if t = Directory then 2 else 1)"
    and L'': "\<And>j. j \<noteq> i \<Longrightarrow> L' j = L j + (if j = fst k \<and> t = Directory then 1 else 0)"
  shows "links_ok (E(k \<mapsto> i)) (K(i \<mapsto> t)) L'"
proof -
  note okD = links_okD [OF ok]
  have no: "j \<noteq> i \<and> fst k' \<noteq> i" if "E k' = Some j" for k' j using okD(2) [OF that] free(2) by auto
  have i: "i \<noteq> 1" "fst k \<noteq> i" using okD(3) d free(2) by auto
  have names: "names_of (E(k \<mapsto> i)) j = names_of E j + (if j = i then 1 else 0)" for j
    by (rule names_of_put [OF okD(1) free(1)])
  have subs: "subdirs (E(k \<mapsto> i)) (K(i \<mapsto> t)) j = subdirs E K j + (if j = fst k \<and> t = Directory then 1 else 0)" for j
    using subdirs_put [OF okD(1) free(1), of i "K(i \<mapsto> t)" j] subdirs_new [of E i K t j] no by simp
  have "E (i, nm) = None" for nm using no [of "(i, nm)"] by force
  then have zero: "names_of E i = 0" "subdirs E K i = 0"
    using names_of_zero [OF okD(1), of i] subdirs_zero [of E i K] no by blast+
  show ?thesis
  proof (rule links_okI, unfold names subs)
    fix k' j assume "(E(k \<mapsto> i)) k' = Some j"
    then show "(K(i \<mapsto> t)) j \<noteq> None \<and> (K(i \<mapsto> t)) (fst k') = Some Directory"
      using okD(2) [of k' j] no [of k' j] i d by (cases "k' = k") auto
  next
    fix j assume "(K(i \<mapsto> t)) j = Some Directory"
    then show "names_of E j + (if j = i then 1 else 0) \<le> 1 \<and>
        L' j = 2 * (if j = 1 then 1 else names_of E j + (if j = i then 1 else 0)) +
          (subdirs E K j + (if j = fst k \<and> t = Directory then 1 else 0))"
      using okD(5) [of j] i zero L' L'' [of j] by (cases "j = i") auto
  next
    fix j t' assume "(K(i \<mapsto> t)) j = Some t'" "t' \<noteq> Directory"
    then show "L' j = names_of E j + (if j = i then 1 else 0)"
      using okD(6) [of j t'] zero L' L'' [of j] d by (cases "j = i") auto
  qed (use okD(1,3,4) i in simp_all)
qed

lemma links_link:
  assumes ok: "links_ok E K L" and "K (fst k) = Some Directory" "E k = None" "K i = Some t" "t \<noteq> Directory"
    and L': "\<And>j. L' j = L j + (if j = i then 1 else 0)"
  shows "links_ok (E(k \<mapsto> i)) K L'"
proof -
  note okD = links_okD [OF ok]
  have i: "i \<noteq> 1" using okD(3) assms(4,5) by auto
  have names: "names_of (E(k \<mapsto> i)) j = names_of E j + (if j = i then 1 else 0)" for j
    by (rule names_of_put [OF okD(1) assms(3)])
  have subs: "subdirs (E(k \<mapsto> i)) K j = subdirs E K j" for j
    using subdirs_put [OF okD(1) assms(3), of i K j] assms(4,5) by simp
  show ?thesis
  proof (rule links_okI, unfold names subs)
    fix k' j assume "(E(k \<mapsto> i)) k' = Some j"
    then show "K j \<noteq> None \<and> K (fst k') = Some Directory" using okD(2) [of k' j] assms(2,4) by (cases "k' = k") auto
  next
    fix j assume "K j = Some Directory"
    then show "names_of E j + (if j = i then 1 else 0) \<le> 1 \<and>
        L' j = 2 * (if j = 1 then 1 else names_of E j + (if j = i then 1 else 0)) + subdirs E K j"
      using okD(5) [of j] assms(4,5) L' [of j] by auto
  next
    fix j t' assume "K j = Some t'" "t' \<noteq> Directory"
    then show "L' j = names_of E j + (if j = i then 1 else 0)" using okD(6) [of j t'] L' [of j] by simp
  qed (use okD(1,3,4) i in simp_all)
qed

lemma links_unlink:
  assumes ok: "links_ok E K L" and "E k = Some i" "K i = Some t" "t \<noteq> Directory"
    and L': "\<And>j. L' j = L j - (if j = i then 1 else 0)"
  shows "links_ok (E(k := None)) K L'"
proof -
  note okD = links_okD [OF ok]
  have names: "names_of E j = names_of (E(k := None)) j + (if j = i then 1 else 0)" for j
    by (rule names_of_del [OF okD(1) assms(2)])
  have subs: "subdirs E K j = subdirs (E(k := None)) K j" for j
    using subdirs_del [OF okD(1) assms(2), of K j] assms(3,4) by simp
  show ?thesis
  proof (rule links_okI)
    fix k' j assume "(E(k := None)) k' = Some j"
    then show "K j \<noteq> None \<and> K (fst k') = Some Directory" using okD(2) [of k' j] by (auto split: if_splits)
  next
    fix j assume "K j = Some Directory"
    then show "names_of (E(k := None)) j \<le> 1 \<and>
        L' j = 2 * (if j = 1 then 1 else names_of (E(k := None)) j) + subdirs (E(k := None)) K j"
      using okD(5) [of j] assms(3,4) L' [of j] names [of j] subs [of j] by auto
  next
    fix j t' assume "K j = Some t'" "t' \<noteq> Directory"
    then show "L' j = names_of (E(k := None)) j" using okD(6) [of j t'] L' [of j] names [of j] by simp
  qed (use okD(1,3,4) names [of 1] in \<open>simp_all add: finite_subset [of "dom E - {k}" "dom E"]\<close>)
qed

lemma links_rmdir:
  assumes ok: "links_ok E K L" and "E k = Some i" "K i = Some Directory" "\<forall>nm. E (i, nm) = None"
    and L': "L' i = 0" "\<And>j. j \<noteq> i \<Longrightarrow> L' j = L j - (if j = fst k then 1 else 0)"
  shows "links_ok (E(k := None)) K L'" "0 < L (fst k)" "fst k \<noteq> i"
proof -
  note okD = links_okD [OF ok]
  have names: "names_of E j = names_of (E(k := None)) j + (if j = i then 1 else 0)" for j
    by (rule names_of_del [OF okD(1) assms(2)])
  have subs: "subdirs E K j = subdirs (E(k := None)) K j + (if j = fst k then 1 else 0)" for j
    using subdirs_del [OF okD(1) assms(2), of K j] assms(3) by simp
  show ne: "fst k \<noteq> i" using assms(2,4) by (metis option.distinct(1) prod.collapse)
  have d: "K (fst k) = Some Directory" using okD(2) [OF assms(2)] ..
  show pos: "0 < L (fst k)" using okD(5) [OF d] subs [of "fst k"] by simp
  have zero: "names_of (E(k := None)) i = 0" "subdirs (E(k := None)) K i = 0"
    using okD(5) [OF assms(3)] names [of i] subs [of i] subdirs_zero [OF assms(4), of K] by simp_all
  have i: "i \<noteq> 1" using names [of 1] okD(4) by auto
  show "links_ok (E(k := None)) K L'"
  proof (rule links_okI)
    fix k' j assume "(E(k := None)) k' = Some j"
    then show "K j \<noteq> None \<and> K (fst k') = Some Directory" using okD(2) [of k' j] by (auto split: if_splits)
  next
    fix j assume "K j = Some Directory"
    then show "names_of (E(k := None)) j \<le> 1 \<and>
        L' j = 2 * (if j = 1 then 1 else names_of (E(k := None)) j) + subdirs (E(k := None)) K j"
      using okD(5) [of j] L'(1) L'(2) [of j] names [of j] subs [of j] zero i
      by (cases "j = i"; cases "j = fst k") auto
  next
    fix j t' assume "K j = Some t'" "t' \<noteq> Directory"
    then show "L' j = names_of (E(k := None)) j"
      using okD(6) [of j t'] L'(2) [of j] names [of j] d assms(3) by (cases "j = i"; cases "j = fst k") auto
  qed (use okD(1,3,4) names [of 1] in \<open>simp_all add: finite_subset [of "dom E - {k}" "dom E"]\<close>)
qed
lemma links_move:
  assumes ok: "links_ok E K L" and k: "E k1 = Some i" "E k2 = None" and d2: "K (fst k2) = Some Directory" and t: "K i = Some t"
    and L': "\<And>j. L' j = (if t = Directory \<and> fst k1 \<noteq> fst k2 then
        (if j = fst k1 then L j - 1 else if j = fst k2 then L j + 1 else L j) else L j)"
  shows "links_ok (E(k1 := None, k2 \<mapsto> i)) K L'"
proof -
  note okD = links_okD [OF ok]
  have ne: "k1 \<noteq> k2" and fin: "finite (dom (E(k1 := None)))" using k okD(1) by auto
  have names: "names_of (E(k1 := None, k2 \<mapsto> i)) j = names_of E j" for j
    using names_of_put [OF fin, of k2 i j] names_of_del [OF okD(1) k(1), of j] k(2) by simp
  have subs: "subdirs E K j + (if j = fst k2 \<and> t = Directory then 1 else 0) =
      subdirs (E(k1 := None, k2 \<mapsto> i)) K j + (if j = fst k1 \<and> t = Directory then 1 else 0)" for j
    using subdirs_put [OF fin, of k2 i K j] subdirs_del [OF okD(1) k(1), of K j] k(2) t by simp
  have d1: "K (fst k1) = Some Directory" using okD(2) [OF k(1)] ..
  have dir: "L' j = 2 * (if j = 1 then 1 else names_of E j) + b"
    if "L j = 2 * (if j = 1 then 1 else names_of E j) + a"
      "a + (if j = fst k2 \<and> t = Directory then 1 else 0) = b + (if j = fst k1 \<and> t = Directory then 1 else 0)" for a b j
    using that L' [of j] by (cases "t = Directory"; cases "j = fst k1"; cases "j = fst k2") auto
  show ?thesis
  proof (rule links_okI, unfold names)
    fix k' j assume "(E(k1 := None, k2 \<mapsto> i)) k' = Some j"
    then show "K j \<noteq> None \<and> K (fst k') = Some Directory"
      using okD(2) [of k' j] t d2 by (auto split: if_splits)
  next
    fix j assume j: "K j = Some Directory"
    show "names_of E j \<le> 1 \<and>
        L' j = 2 * (if j = 1 then 1 else names_of E j) + subdirs (E(k1 := None, k2 \<mapsto> i)) K j"
      using okD(5) [OF j] dir [OF _ subs [of j]] by blast
  next
    fix j t' assume "K j = Some t'" "t' \<noteq> Directory"
    then show "L' j = names_of E j" using okD(6) [of j t'] L' [of j] d1 d2 by auto
  qed (use okD(3,4) fin in simp_all)
qed

section \<open>The invariant of the store\<close>

definition dir_view :: "tmp_data \<Rightarrow> string \<Rightarrow> nat option" where
  "dir_view d name = (case d of TDir m \<Rightarrow> bt_get m name | _ \<Rightarrow> None)"

definition ent :: "tmpfs \<Rightarrow> entries" where
  "ent s k = (case tf_nodes s (fst k) of
     None \<Rightarrow> None | Some n \<Rightarrow> dir_view (tn_data n) (snd k))"

definition kinds :: "tmpfs \<Rightarrow> nat \<Rightarrow> file_type option" where
  "kinds s i = map_option (\<lambda>n. tm_kind (tn_meta n)) (tf_nodes s i)"

definition nlinks :: "tmpfs \<Rightarrow> nat \<Rightarrow> nat" where
  "nlinks s i = (case tf_nodes s i of None \<Rightarrow> 0 | Some n \<Rightarrow> tm_nlink (tn_meta n))"

definition npages :: "tmpfs \<Rightarrow> nat \<Rightarrow> nat" where
  "npages s i = (case tf_nodes s i of None \<Rightarrow> 0 | Some n \<Rightarrow> node_pages n)"

definition node_ok :: "tmp_node \<Rightarrow> bool" where
  "node_ok n \<longleftrightarrow>
     (case tn_data n of
        TFile pages sz \<Rightarrow> tm_kind (tn_meta n) = Regular \<and> pages_ok pages
      | TDir m \<Rightarrow> tm_kind (tn_meta n) = Directory \<and> bt_ok m
      | TSymlink t \<Rightarrow> tm_kind (tn_meta n) = Symlink
      | TFifo \<Rightarrow> tm_kind (tn_meta n) = Fifo
      | TDevice \<Rightarrow> tm_kind (tn_meta n) \<in> {CharDevice, BlockDevice, Socket})"

definition nodes_ok :: "tmpfs \<Rightarrow> bool" where
  "nodes_ok s \<longleftrightarrow> (\<forall>i n. tf_nodes s i = Some n \<longrightarrow> i < tf_next_ino s \<and> node_ok n)"

definition used_ok :: "tmpfs \<Rightarrow> bool" where
  "used_ok s \<longleftrightarrow> tf_used s = TPAGE * (\<Sum>i<tf_next_ino s. npages s i) \<and> (0 < tf_limit s \<longrightarrow> tf_used s \<le> tf_limit s)"

definition tmp_inv :: "tmpfs \<Rightarrow> bool" where
  "tmp_inv s \<longleftrightarrow> links_ok (ent s) (kinds s) (nlinks s) \<and> nodes_ok s \<and> used_ok s"

definition live_node :: "tmpfs \<Rightarrow> nat \<Rightarrow> bool" where
  "live_node s i \<longleftrightarrow> tf_nodes s i \<noteq> None"

text \<open>What the primitive updates of a live node change of these views.\<close>

lemma ent_node: "live_node s i \<Longrightarrow> ent s (i, nm) = dir_view (tn_data (tnode s i)) nm"
  by (auto simp: ent_def live_node_def tnode_def)

lemma set_node_views:
  "ent (set_node s i n) = (\<lambda>k. if fst k = i then dir_view (tn_data n) (snd k) else ent s k)"
  "kinds (set_node s i n) = (kinds s)(i \<mapsto> tm_kind (tn_meta n))"
  "nlinks (set_node s i n) = (nlinks s)(i := tm_nlink (tn_meta n))"
  "npages (set_node s i n) = (npages s)(i := node_pages n)"
  "live_node (set_node s i n) j \<longleftrightarrow> j = i \<or> live_node s j"
  "tf_used (set_node s i n) = tf_used s" "tf_limit (set_node s i n) = tf_limit s"
  "tf_next_ino (set_node s i n) = tf_next_ino s" "tf_now (set_node s i n) = tf_now s"
  "tnode (set_node s i n) j = (if j = i then n else tnode s j)"
  by (simp_all add: fun_eq_iff ent_def kinds_def nlinks_def npages_def live_node_def set_node_def tnode_def)

lemma node_views:
  assumes "live_node s i"
  shows "kinds s i = Some (node_kind s i)" "nlinks s i = tm_nlink (tn_meta (tnode s i))" "npages s i = node_pages (tnode s i)"
  using assms by (auto simp: live_node_def kinds_def nlinks_def npages_def tnode_def node_kind_def)

lemma nodes_ok_set: "nodes_ok s \<Longrightarrow> i < tf_next_ino s \<Longrightarrow> node_ok n \<Longrightarrow> nodes_ok (set_node s i n)"
  by (simp add: nodes_ok_def set_node_def)

lemma nodes_okD: "nodes_ok s \<Longrightarrow> live_node s i \<Longrightarrow> i < tf_next_ino s \<and> node_ok (tnode s i)"
  by (auto simp: nodes_ok_def live_node_def tnode_def)

lemma upd_meta_views:
  assumes "live_node s i"
  shows "ent (upd_meta s i f) = ent s" "npages (upd_meta s i f) = npages s"
    and "(\<And>m. tm_kind (f m) = tm_kind m) \<Longrightarrow> kinds (upd_meta s i f) = kinds s"
    and "nlinks (upd_meta s i f) = (nlinks s)(i := tm_nlink (f (tn_meta (tnode s i))))"
    and "tf_used (upd_meta s i f) = tf_used s" "tf_limit (upd_meta s i f) = tf_limit s"
    and "tf_next_ino (upd_meta s i f) = tf_next_ino s" "live_node (upd_meta s i f) j = live_node s j"
    and "tn_data (tnode (upd_meta s i f) j) = tn_data (tnode s j)"
    and "(\<And>m. tm_kind (f m) = tm_kind m) \<Longrightarrow> node_kind (upd_meta s i f) j = node_kind s j"
  using assms node_views [OF assms] ent_node [OF assms]
  by (auto simp: upd_meta_def set_node_views fun_eq_iff node_pages_def node_kind_def)

lemma upd_meta_nodes_ok:
  assumes "nodes_ok s" "live_node s i" "\<And>m. tm_kind (f m) = tm_kind m"
  shows "nodes_ok (upd_meta s i f)"
  using nodes_okD [OF assms(1,2)] assms(3) unfolding upd_meta_def
  by (intro nodes_ok_set [OF assms(1)]) (auto simp: node_ok_def split: tmp_data.splits)

lemma set_data_views:
  assumes "live_node s i"
  shows "kinds (set_data s i d) = kinds s" "nlinks (set_data s i d) = nlinks s" "tf_used (set_data s i d) = tf_used s"
    and "tf_limit (set_data s i d) = tf_limit s" "tf_next_ino (set_data s i d) = tf_next_ino s"
    and "live_node (set_data s i d) j = live_node s j"
    and "ent (set_data s i d) = (\<lambda>k. if fst k = i then dir_view d (snd k) else ent s k)"
    and "npages (set_data s i d) = (npages s)(i := (case d of TFile pages _ \<Rightarrow> length pages | _ \<Rightarrow> 0))"
    and "tn_data (tnode (set_data s i d) j) = (if j = i then d else tn_data (tnode s j))"
    and "node_kind (set_data s i d) j = node_kind s j"
  using assms node_views [OF assms]
  by (auto simp: set_data_def set_node_views fun_eq_iff node_pages_def node_kind_def)

lemma set_data_nodes_ok:
  assumes "nodes_ok s" "live_node s i" "node_ok ((tnode s i)\<lparr>tn_data := d\<rparr>)"
  shows "nodes_ok (set_data s i d)"
  using nodes_okD [OF assms(1,2)] assms(3) unfolding set_data_def by (intro nodes_ok_set [OF assms(1)]) auto
text \<open>A change of the tree that leaves file data alone.\<close>

definition tree_step :: "tmpfs \<Rightarrow> tmpfs \<Rightarrow> bool" where
  "tree_step s s' \<longleftrightarrow> nodes_ok s' \<and> npages s' = npages s \<and> tf_used s' = tf_used s \<and> tf_limit s' = tf_limit s \<and>
     tf_next_ino s \<le> tf_next_ino s'"

lemma npages_beyond: "nodes_ok s \<Longrightarrow> tf_next_ino s \<le> i \<Longrightarrow> npages s i = 0"
  by (force simp: nodes_ok_def npages_def split: option.split)

lemma tree_step_used:
  assumes "nodes_ok s" "used_ok s" "tree_step s s'"
  shows "used_ok s'"
proof -
  have "(\<Sum>i<tf_next_ino s'. npages s i) = (\<Sum>i<tf_next_ino s. npages s i)"
    using assms(3) npages_beyond [OF assms(1)] by (intro sum.mono_neutral_right) (auto simp: tree_step_def)
  then show ?thesis using assms by (auto simp: used_ok_def tree_step_def)
qed

lemma tree_step_trans: "tree_step s s' \<Longrightarrow> tree_step s' s'' \<Longrightarrow> tree_step s s''"
  by (auto simp: tree_step_def)

lemma upd_meta_tree:
  "nodes_ok s \<Longrightarrow> live_node s i \<Longrightarrow> (\<And>m. tm_kind (f m) = tm_kind m) \<Longrightarrow> tree_step s (upd_meta s i f)"
  by (simp add: tree_step_def upd_meta_views upd_meta_nodes_ok)

text \<open>Time stamps change nothing of the tree; \<open>set_nlink\<close> changes one count.\<close>

lemma touch_views:
  assumes "live_node s i"
  shows "ent (touch_mc s i) = ent s" "kinds (touch_mc s i) = kinds s" "nlinks (touch_mc s i) = nlinks s"
    and "live_node (touch_mc s i) j = live_node s j" "node_kind (touch_mc s i) j = node_kind s j"
    and "tn_data (tnode (touch_mc s i) j) = tn_data (tnode s j)" "nodes_ok s \<Longrightarrow> tree_step s (touch_mc s i)"
  using assms upd_meta_tree [OF _ assms]
  by (simp_all add: touch_mc_def upd_meta_views fun_upd_idem node_views)

lemma ctime_views:
  assumes "live_node s i"
  shows "ent (set_ctime s i) = ent s" "kinds (set_ctime s i) = kinds s" "nlinks (set_ctime s i) = nlinks s"
    and "live_node (set_ctime s i) j = live_node s j" "node_kind (set_ctime s i) j = node_kind s j"
    and "tn_data (tnode (set_ctime s i) j) = tn_data (tnode s j)" "nodes_ok s \<Longrightarrow> tree_step s (set_ctime s i)"
  using assms upd_meta_tree [OF _ assms]
  by (simp_all add: set_ctime_def upd_meta_views fun_upd_idem node_views)

lemma nlink_views:
  assumes "live_node s i"
  shows "ent (set_nlink s i f) = ent s" "kinds (set_nlink s i f) = kinds s"
    and "nlinks (set_nlink s i f) = (nlinks s)(i := f (nlinks s i))"
    and "live_node (set_nlink s i f) j = live_node s j" "node_kind (set_nlink s i f) j = node_kind s j"
    and "tn_data (tnode (set_nlink s i f) j) = tn_data (tnode s j)" "nodes_ok s \<Longrightarrow> tree_step s (set_nlink s i f)"
  using assms upd_meta_tree [OF _ assms]
  by (simp_all add: set_nlink_def upd_meta_views fun_upd_idem node_views)

lemma dir_node:
  assumes "nodes_ok s" "live_node s d" "tn_data (tnode s d) = TDir m"
  shows "kinds s d = Some Directory" "bt_ok m" "ent s (d, nm) = bt_get m nm" "node_kind s d = Directory"
  using nodes_okD [OF assms(1,2)] assms node_views [OF assms(2)] ent_node [OF assms(2)]
  by (auto simp: node_ok_def dir_view_def node_kind_def)

lemma dir_kind:
  assumes "nodes_ok s" "live_node s d" "node_kind s d = Directory"
  shows "\<exists>m. tn_data (tnode s d) = TDir m"
  using nodes_okD [OF assms(1,2)] assms(3) by (auto simp: node_ok_def node_kind_def split: tmp_data.splits)

lemma dir_update:
  assumes "nodes_ok s" "live_node s d" "tn_data (tnode s d) = TDir m" "bt_ok m'"
    and "\<And>nm. bt_get m' nm = (if nm = name then v else bt_get m nm)"
  shows "ent (set_data s d (TDir m')) = (ent s)((d, name) := v)" "tree_step s (set_data s d (TDir m'))"
proof -
  show "ent (set_data s d (TDir m')) = (ent s)((d, name) := v)"
    using dir_node [OF assms(1-3)] assms(2,5) by (auto simp: set_data_views fun_eq_iff dir_view_def)
  have "node_ok ((tnode s d)\<lparr>tn_data := TDir m'\<rparr>)"
    using nodes_okD [OF assms(1,2)] assms(3,4) by (simp add: node_ok_def)
  then have "nodes_ok (set_data s d (TDir m'))" by (rule set_data_nodes_ok [OF assms(1,2)])
  moreover have "npages s d = 0" using assms(2,3) by (simp add: node_views node_pages_def)
  ultimately show "tree_step s (set_data s d (TDir m'))"
    using assms(2) by (simp add: tree_step_def set_data_views fun_upd_idem)
qed

lemma add_child_views:
  assumes "add_child s d name i = (Inr (), s')" "nodes_ok s" "live_node s d"
  shows "ent s (d, name) = None" "kinds s d = Some Directory" "ent s' = (ent s)((d, name) \<mapsto> i)" "kinds s' = kinds s"
    and "nlinks s' = nlinks s" "live_node s' j = live_node s j" "node_kind s' j = node_kind s j" "tree_step s s'"
proof -
  obtain m where m: "tn_data (tnode s d) = TDir m" "bt_get m name = None"
    and s': "s' = touch_mc (set_data s d (TDir (bt_insert name i m))) d"
    using assms(1) by (auto simp: add_child_def split: tmp_data.splits if_splits)
  note dn = dir_node [OF assms(2,3) m(1)]
  have up: "ent (set_data s d (TDir (bt_insert name i m))) = (ent s)((d, name) \<mapsto> i)"
    "tree_step s (set_data s d (TDir (bt_insert name i m)))"
    by (rule dir_update [OF assms(2,3) m(1)]; use dn(2) in \<open>simp add: bt_get_insert\<close>)+
  have lv: "live_node (set_data s d (TDir (bt_insert name i m))) d" using assms(3) by (simp add: set_data_views)
  note tv = touch_views [OF lv]
  show "ent s (d, name) = None" "kinds s d = Some Directory" using dn m(2) by simp_all
  show "ent s' = (ent s)((d, name) \<mapsto> i)" "kinds s' = kinds s" "nlinks s' = nlinks s" "live_node s' j = live_node s j"
    "node_kind s' j = node_kind s j"
    using assms(3) up(1) by (simp_all add: s' tv set_data_views)
  have "nodes_ok (set_data s d (TDir (bt_insert name i m)))" using up(2) by (simp add: tree_step_def)
  then show "tree_step s s'" using tree_step_trans [OF up(2) tv(7)] by (simp add: s')
qed

lemma add_child_err: "add_child s d name i = (Inl e, s') \<Longrightarrow> s' = s"
  by (auto simp: add_child_def split: tmp_data.splits if_splits)

lemma fresh_ino:
  assumes "nodes_ok s"
  shows "\<not> live_node s (tf_next_ino s)" "kinds s (tf_next_ino s) = None" "ent s (tf_next_ino s, nm) = None"
    "npages s (tf_next_ino s) = 0" "nlinks s (tf_next_ino s) = 0"
proof -
  have "tf_nodes s (tf_next_ino s) = None"
    using assms unfolding nodes_ok_def by (metis less_irrefl not_None_eq)
  then show "\<not> live_node s (tf_next_ino s)" "kinds s (tf_next_ino s) = None" "ent s (tf_next_ino s, nm) = None"
      "npages s (tf_next_ino s) = 0" "nlinks s (tf_next_ino s) = 0"
    by (simp_all add: live_node_def kinds_def ent_def npages_def nlinks_def)
qed

lemma alloc_views:
  assumes "nodes_ok s" "node_ok n" "node_pages n = 0" "dir_view (tn_data n) = (\<lambda>_. None)" "alloc_node s n = (i, s1)"
  shows "i = tf_next_ino s" "ent s1 = ent s" "kinds s1 = (kinds s)(i \<mapsto> tm_kind (tn_meta n))"
    and "nlinks s1 = (nlinks s)(i := tm_nlink (tn_meta n))" "live_node s1 j \<longleftrightarrow> j = i \<or> live_node s j"
    and "live_node s j \<Longrightarrow> node_kind s1 j = node_kind s j" "tree_step s s1"
proof -
  note fr = fresh_ino [OF assms(1)]
  let ?s = "s\<lparr>tf_next_ino := Suc (tf_next_ino s)\<rparr>"
  have views: "ent ?s = ent s" "kinds ?s = kinds s" "nlinks ?s = nlinks s" "npages ?s = npages s"
    "\<And>j. live_node ?s j = live_node s j" "\<And>j. tnode ?s j = tnode s j"
    by (simp_all add: fun_eq_iff ent_def kinds_def nlinks_def npages_def live_node_def tnode_def)
  show i: "i = tf_next_ino s" using assms(5) by (simp add: alloc_node_def)
  then have s1: "s1 = set_node ?s i n" using assms(5) by (simp add: alloc_node_def)
  have "ent s (a, b) = None" if "a = i" for a b using fr(3) that i by simp
  then show "ent s1 = ent s" using assms(4) by (auto simp: s1 set_node_views views fun_eq_iff)
  show "kinds s1 = (kinds s)(i \<mapsto> tm_kind (tn_meta n))" "nlinks s1 = (nlinks s)(i := tm_nlink (tn_meta n))"
    "live_node s1 j \<longleftrightarrow> j = i \<or> live_node s j"
    by (simp_all add: s1 set_node_views views)
  show "node_kind s1 j = node_kind s j" if "live_node s j"
    using that fr(1) i by (auto simp: s1 set_node_views views node_kind_def)
  have "nodes_ok ?s" using assms(1) by (auto simp: nodes_ok_def less_Suc_eq)
  then have "nodes_ok s1" unfolding s1 by (rule nodes_ok_set) (use i assms(2) in simp_all)
  then show "tree_step s s1"
    using assms(3) fr(4) i by (simp add: tree_step_def s1 set_node_views views fun_upd_idem)
qed

lemma link_new_views:
  assumes "link_new s d name n = (r, s')" "nodes_ok s" "live_node s d"
    and "node_ok n" "node_pages n = 0" "dir_view (tn_data n) = (\<lambda>_. None)"
  shows "r = Inr i \<Longrightarrow> i = tf_next_ino s \<and> ent s (d, name) = None \<and> kinds s d = Some Directory \<and>
      ent s' = (ent s)((d, name) \<mapsto> i) \<and> kinds s' = (kinds s)(i \<mapsto> tm_kind (tn_meta n)) \<and>
      nlinks s' = (nlinks s)(i := tm_nlink (tn_meta n)) \<and> live_node s' d \<and> tree_step s s'"
    and "r = Inl e \<Longrightarrow> ent s' = ent s \<and> kinds s' = kinds s \<and> nlinks s' = nlinks s \<and> tree_step s s'"
proof -
  obtain i0 s1 where al: "alloc_node s n = (i0, s1)" by (cases "alloc_node s n")
  note av = alloc_views [OF assms(2,4-6) al] and fr = fresh_ino [OF assms(2)]
  have lv: "live_node s1 d" "nodes_ok s1" using assms(3) av(5,7) by (auto simp: tree_step_def)
  have d: "d \<noteq> i0" using assms(3) fr(1) av(1) by auto
  show "i = tf_next_ino s \<and> ent s (d, name) = None \<and> kinds s d = Some Directory \<and>
      ent s' = (ent s)((d, name) \<mapsto> i) \<and> kinds s' = (kinds s)(i \<mapsto> tm_kind (tn_meta n)) \<and>
      nlinks s' = (nlinks s)(i := tm_nlink (tn_meta n)) \<and> live_node s' d \<and> tree_step s s'" if r: "r = Inr i"
  proof -
    obtain s2 where s2: "add_child s1 d name i0 = (Inr (), s2)" "i = i0" "s' = s2\<lparr>tf_inodes := tf_inodes s2 + 1\<rparr>"
      using assms(1) r al by (auto simp: link_new_def split: prod.splits sum.splits)
    note ac = add_child_views [OF s2(1) lv(2,1)]
    have "ent s' = ent s2" "kinds s' = kinds s2" "nlinks s' = nlinks s2" "live_node s' d = live_node s2 d" "tree_step s2 s2 \<Longrightarrow> tree_step s2 s'"
      by (simp_all add: s2(3) fun_eq_iff ent_def kinds_def nlinks_def live_node_def tree_step_def npages_def nodes_ok_def)
    moreover have "tree_step s2 s2" using ac(8) by (simp add: tree_step_def)
    ultimately show ?thesis
      using ac av d s2(2) lv(1) tree_step_trans [OF av(7) tree_step_trans [OF ac(8)]] by auto
  qed
  show "ent s' = ent s \<and> kinds s' = kinds s \<and> nlinks s' = nlinks s \<and> tree_step s s'" if "r = Inl e"
  proof -
    have s': "s' = drop_node s1 i0"
      using assms(1) that al by (auto simp: link_new_def dest: add_child_err split: prod.splits sum.splits)
    have "tf_nodes s1 = (tf_nodes s)(i0 \<mapsto> n)" "tf_next_ino s1 = tf_next_ino s + 1" "tf_nodes s i0 = None" "tnode s1 i0 = n"
      "tf_used s1 = tf_used s" "tf_limit s1 = tf_limit s"
      using al fr(1) av(1) by (auto simp: alloc_node_def set_node_def live_node_def tnode_def)
    then have "tf_nodes s' = tf_nodes s" "tf_next_ino s' = tf_next_ino s + 1" "tf_used s' = tf_used s" "tf_limit s' = tf_limit s"
      using assms(5) by (auto simp: s' drop_node_def fun_upd_idem)
    then show ?thesis
      using assms(2) by (auto simp: fun_eq_iff ent_def kinds_def nlinks_def npages_def tree_step_def nodes_ok_def less_Suc_eq)
  qed
qed
lemma tmp_inv_tree: "tmp_inv s \<Longrightarrow> tree_step s s' \<Longrightarrow> links_ok (ent s') (kinds s') (nlinks s') \<Longrightarrow> tmp_inv s'"
  using tree_step_used by (auto simp: tmp_inv_def tree_step_def)

lemma tmp_inv_same:
  assumes "tmp_inv s" "tree_step s s'" "ent s' = ent s" "kinds s' = kinds s" "nlinks s' = nlinks s"
  shows "tmp_inv s'"
  using tmp_inv_tree [OF assms(1,2)] assms by (simp add: tmp_inv_def)

lemma live_kinds: "live_node s i \<longleftrightarrow> kinds s i \<noteq> None"
  by (simp add: live_node_def kinds_def)

lemma entry_live: "tmp_inv s \<Longrightarrow> ent s k = Some i \<Longrightarrow> live_node s i \<and> live_node s (fst k)"
  using links_okD(2) [of "ent s" "kinds s" "nlinks s" k i] by (auto simp: tmp_inv_def live_kinds)

lemma create_inv:
  assumes "tmp_inv s" "live_node s d" "tmp_create s d name kind perm uid gid rdev = (r, s')"
  shows "tmp_inv s'"
proof (cases "create_data kind")
  case None
  then show ?thesis using assms(1,3) by (simp add: tmp_create_def)
next
  case (Some data)
  define n0 where "n0 = new_node s kind (perm AND 0xFFF) uid gid rdev data"
  define n where "n = (if kind = Directory then with_nlink 2 n0 else n0)"
  obtain r1 s1 where ln: "link_new s d name n = (r1, s1)" by (cases "link_new s d name n")
  have inv: "nodes_ok s" "links_ok (ent s) (kinds s) (nlinks s)" using assms(1) by (simp_all add: tmp_inv_def)
  have n: "node_ok n" "node_pages n = 0" "dir_view (tn_data n) = (\<lambda>_. None)" "tm_kind (tn_meta n) = kind"
    "tm_nlink (tn_meta n) = (if kind = Directory then 2 else 1)"
    using Some by (cases kind;
      force simp: n_def n0_def new_node_def with_nlink_def node_ok_def node_pages_def dir_view_def pages_ok_def)+
  have res: "(r, s') = (case r1 of Inl e \<Rightarrow> (Inl e, s1)
      | Inr ino \<Rightarrow> (Inr ino, if kind = Directory then set_nlink s1 d Suc else s1))"
    using assms(3) Some ln unfolding tmp_create_def n_def n0_def by (simp add: Let_def split: sum.splits)
  show ?thesis
  proof (cases r1)
    case (Inl e)
    then show ?thesis using link_new_views(2) [OF ln inv(1) assms(2) n(1-3) Inl] res tmp_inv_same [OF assms(1)] by simp
  next
    case (Inr i)
    note v = link_new_views(1) [OF ln inv(1) assms(2) n(1-3) Inr]
    have s': "s' = (if kind = Directory then set_nlink s1 d Suc else s1)" using res Inr by simp
    have lv: "live_node s1 d" "nodes_ok s1" using v by (auto simp: tree_step_def)
    have "i \<noteq> d" using v fresh_ino(1) [OF inv(1)] assms(2) by auto
    then have "links_ok ((ent s)((d, name) \<mapsto> i)) ((kinds s)(i \<mapsto> kind)) (nlinks s')"
      using v n(5) fresh_ino(2) [OF inv(1)] by (intro links_new [OF inv(2)]) (auto simp: s' nlink_views [OF lv(1)])
    moreover have "ent s' = (ent s)((d, name) \<mapsto> i)" "kinds s' = (kinds s)(i \<mapsto> kind)" "tree_step s s'"
      using v n(4) nlink_views [OF lv(1)] lv(2) by (auto simp: s' intro: tree_step_trans)
    ultimately show ?thesis using tmp_inv_tree [OF assms(1)] by simp
  qed
qed

lemma symlink_inv:
  assumes "tmp_inv s" "live_node s d" "tmp_symlink s d name target uid gid = (r, s')"
  shows "tmp_inv s'"
proof -
  define n where "n = new_node s Symlink 0x1FF uid gid 0 (TSymlink target)"
  have inv: "nodes_ok s" "links_ok (ent s) (kinds s) (nlinks s)" using assms(1) by (simp_all add: tmp_inv_def)
  have ln: "link_new s d name n = (r, s')" using assms(3) by (simp add: tmp_symlink_def n_def)
  have n: "node_ok n" "node_pages n = 0" "dir_view (tn_data n) = (\<lambda>_. None)" "tm_kind (tn_meta n) = Symlink" "tm_nlink (tn_meta n) = 1"
    by (auto simp: n_def new_node_def node_ok_def node_pages_def dir_view_def)
  show ?thesis
  proof (cases r)
    case (Inl e)
    then show ?thesis using link_new_views(2) [OF ln inv(1) assms(2) n(1-3) Inl] tmp_inv_same [OF assms(1)] by simp
  next
    case (Inr i)
    note v = link_new_views(1) [OF ln inv(1) assms(2) n(1-3) Inr]
    have "links_ok ((ent s)((d, name) \<mapsto> i)) ((kinds s)(i \<mapsto> Symlink)) (nlinks s')"
      using v n(5) fresh_ino(2) [OF inv(1)] by (intro links_new [OF inv(2)]) auto
    then show ?thesis using tmp_inv_tree [OF assms(1)] v n(4) by simp
  qed
qed

lemma link_inv:
  assumes "tmp_inv s" "live_node s d" "\<And>t. target = Some t \<Longrightarrow> live_node s t" "tmp_link s d name target = (r, s')"
  shows "tmp_inv s'"
proof (cases r)
  case (Inl e)
  then have "s' = s" using assms(4) by (auto simp: tmp_link_def dest: add_child_err split: option.splits if_splits prod.splits sum.splits)
  then show ?thesis using assms(1) by simp
next
  case (Inr u)
  then obtain t s1 where t: "target = Some t" "node_kind s t \<noteq> Directory" "add_child s d name t = (Inr (), s1)"
    and s': "s' = set_ctime (set_nlink s1 t Suc) t"
    using assms(4) by (auto simp: tmp_link_def split: option.splits if_splits prod.splits sum.splits)
  have inv: "nodes_ok s" "links_ok (ent s) (kinds s) (nlinks s)" using assms(1) by (simp_all add: tmp_inv_def)
  note ac = add_child_views [OF t(3) inv(1) assms(2)]
  have lt: "live_node s t" using assms(3) t(1) by simp
  then have lv: "live_node s1 t" "live_node (set_nlink s1 t Suc) t" "nodes_ok s1"
    using ac(6,8) nlink_views(4) [of s1 t] by (auto simp: tree_step_def)
  note nv = nlink_views [OF lv(1), where f = Suc] and cv = ctime_views [OF lv(2)]
  have "links_ok ((ent s)((d, name) \<mapsto> t)) (kinds s) (nlinks s')"
    using ac node_views(1) [OF lt] t(2) by (intro links_link [OF inv(2)]) (auto simp: s' nv cv)
  moreover have "nodes_ok (set_nlink s1 t Suc)" using nv(7) [OF lv(3)] by (simp add: tree_step_def)
  then have "tree_step s s'" unfolding s' by (intro tree_step_trans [OF ac(8)] tree_step_trans [OF nv(7) [OF lv(3)]] cv(7))
  ultimately show ?thesis using tmp_inv_tree [OF assms(1)] ac by (simp add: s' nv cv)
qed
lemma bt_remove_views:
  assumes "nodes_ok s" "live_node s d" "tn_data (tnode s d) = TDir m"
  shows "ent (set_data s d (TDir (bt_remove name m))) = (ent s)((d, name) := None)"
    and "tree_step s (set_data s d (TDir (bt_remove name m)))"
  by (rule dir_update [OF assms]; use dir_node(2) [OF assms] in \<open>simp add: bt_get_remove\<close>)+

lemma unlink_inv:
  assumes "tmp_inv s" "live_node s d" "tmp_unlink s d name = (r, s')"
  shows "tmp_inv s'"
proof (cases r)
  case (Inl e)
  then have "s' = s" using assms(3) by (auto simp: tmp_unlink_def Let_def split: tmp_data.splits option.splits if_splits)
  then show ?thesis using assms(1) by simp
next
  case (Inr u)
  then obtain m c where m: "tn_data (tnode s d) = TDir m" "bt_get m name = Some c" "node_kind s c \<noteq> Directory"
    and s': "s' = touch_mc (set_ctime (set_nlink (set_data s d (TDir (bt_remove name m))) c dec_link) c) d"
    using assms(3) by (auto simp: tmp_unlink_def Let_def split: tmp_data.splits option.splits if_splits)
  have inv: "nodes_ok s" "links_ok (ent s) (kinds s) (nlinks s)" using assms(1) by (simp_all add: tmp_inv_def)
  let ?s1 = "set_data s d (TDir (bt_remove name m))"
  let ?s2 = "set_nlink ?s1 c dec_link"
  let ?s3 = "set_ctime ?s2 c"
  note rv = bt_remove_views [OF inv(1) assms(2) m(1), of name]
  have e: "ent s (d, name) = Some c" using dir_node(3) [OF inv(1) assms(2) m(1)] m(2) by simp
  have lc: "live_node s c" using entry_live [OF assms(1) e] by simp
  have l: "live_node ?s1 c" "live_node ?s1 d" using lc assms(2) by (simp_all add: set_data_views)
  then have l2: "live_node ?s2 c" "live_node ?s2 d" by (simp_all add: nlink_views)
  then have l3: "live_node ?s3 d" by (simp add: ctime_views)
  note nv = nlink_views [OF l(1), where f = dec_link] and cv = ctime_views [OF l2(1)] and tv = touch_views [OF l3]
  have steps: "tree_step ?s1 ?s2" "tree_step ?s2 ?s3" "tree_step ?s3 s'"
    using rv(2) nv(7) cv(7) tv(7) by (simp_all add: tree_step_def s')
  then have "tree_step s s'" using rv(2) by (blast intro: tree_step_trans)
  moreover have "links_ok ((ent s)((d, name) := None)) (kinds s) (nlinks s')"
    using e node_views(1) [OF lc] m(3) by (intro links_unlink [OF inv(2)]) (auto simp: s' tv cv nv set_data_views [OF assms(2)] dec_link_def)
  moreover have "ent s' = (ent s)((d, name) := None)" "kinds s' = kinds s"
    using rv(1) by (simp_all add: s' tv cv nv set_data_views [OF assms(2)])
  ultimately show ?thesis using tmp_inv_tree [OF assms(1)] by simp
qed

lemma empty_dir_entries:
  assumes "nodes_ok s" "live_node s c" "is_empty_dir s c"
  shows "\<forall>nm. ent s (c, nm) = None"
  using assms dir_node(3) [OF assms(1,2)] by (auto simp: is_empty_dir_def split: tmp_data.splits)

lemma rmdir_inv:
  assumes "tmp_inv s" "live_node s d" "tmp_rmdir s d name = (r, s')"
  shows "tmp_inv s'" "r = Inr () \<Longrightarrow> 0 < nlinks s d"
proof -
  have inv: "nodes_ok s" "links_ok (ent s) (kinds s) (nlinks s)" using assms(1) by (simp_all add: tmp_inv_def)
  have "tmp_inv s' \<and> (r = Inr () \<longrightarrow> 0 < nlinks s d)"
  proof (cases r)
    case (Inl e)
    then have "s' = s" using assms(3) by (auto simp: tmp_rmdir_def Let_def split: tmp_data.splits option.splits if_splits)
    then show ?thesis using assms(1) Inl by simp
  next
    case (Inr u)
    then obtain m c where m: "tn_data (tnode s d) = TDir m" "bt_get m name = Some c" "node_kind s c = Directory" "is_empty_dir s c"
      and s': "s' = touch_mc (set_nlink (set_nlink (set_data s d (TDir (bt_remove name m))) c (\<lambda>_. 0)) d dec_link) d"
      using assms(3) by (auto simp: tmp_rmdir_def Let_def split: tmp_data.splits option.splits if_splits)
    let ?s1 = "set_data s d (TDir (bt_remove name m))"
    let ?s2 = "set_nlink ?s1 c (\<lambda>_. 0)"
    let ?s3 = "set_nlink ?s2 d dec_link"
    note rv = bt_remove_views [OF inv(1) assms(2) m(1), of name]
    have e: "ent s (d, name) = Some c" using dir_node(3) [OF inv(1) assms(2) m(1)] m(2) by simp
    have lc: "live_node s c" using entry_live [OF assms(1) e] by simp
    have kc: "kinds s c = Some Directory" using node_views(1) [OF lc] m(3) by simp
    have l: "live_node ?s1 c" "live_node ?s1 d" using lc assms(2) by (simp_all add: set_data_views)
    then have l2: "live_node ?s2 d" by (simp add: nlink_views)
    then have l3: "live_node ?s3 d" by (simp add: nlink_views)
    note nv = nlink_views [OF l(1), where f = "\<lambda>_. 0"] and nv2 = nlink_views [OF l2, where f = dec_link]
      and tv = touch_views [OF l3]
    have steps: "tree_step ?s1 ?s2" "tree_step ?s2 ?s3" "tree_step ?s3 s'"
      using rv(2) nv(7) nv2(7) tv(7) by (simp_all add: tree_step_def s')
    then have step: "tree_step s s'" using rv(2) by (blast intro: tree_step_trans)
    note gone = empty_dir_entries [OF inv(1) lc m(4)]
    have "d \<noteq> c" using gone e by auto
    then have L': "nlinks s' c = 0" "\<And>j. j \<noteq> c \<Longrightarrow> nlinks s' j = nlinks s j - (if j = fst (d, name) then 1 else 0)"
      by (auto simp: s' tv nv nv2 set_data_views [OF assms(2)] dec_link_def)
    have ent': "ent s' = (ent s)((d, name) := None)" "kinds s' = kinds s"
      using rv(1) by (simp_all add: s' tv nv nv2 set_data_views [OF assms(2)])
    show ?thesis
      using tmp_inv_tree [OF assms(1) step] ent' links_rmdir(1,2) [OF inv(2) e kc gone L'] by simp
  qed
  then show "tmp_inv s'" "r = Inr () \<Longrightarrow> 0 < nlinks s d" by simp_all
qed
lemma move_views:
  assumes "nodes_ok s" "live_node s d" "live_node s nd" "tn_data (tnode s d) = TDir m" "tn_data (tnode s nd) = TDir m2"
  shows "ent (move_entry s d old nd new i) = (ent s)((d, old) := None, (nd, new) \<mapsto> i)"
    and "kinds (move_entry s d old nd new i) = kinds s" "nlinks (move_entry s d old nd new i) = nlinks s"
    and "live_node (move_entry s d old nd new i) j = live_node s j"
    and "node_kind (move_entry s d old nd new i) j = node_kind s j"
    and "tree_step s (move_entry s d old nd new i)"
proof -
  let ?sA = "set_data s d (TDir (bt_remove old m))"
  note rv = bt_remove_views [OF assms(1,2,4), of old]
  obtain m' where m': "tn_data (tnode ?sA nd) = TDir m'"
    using assms(2,5) by (cases "nd = d") (auto simp: set_data_views)
  have eq: "move_entry s d old nd new i = set_data ?sA nd (TDir (bt_insert new i m'))"
    using assms(4) m' by (simp add: move_entry_def)
  have A: "nodes_ok ?sA" "live_node ?sA nd" using rv(2) assms(2,3) by (simp_all add: tree_step_def set_data_views)
  have up: "ent (set_data ?sA nd (TDir (bt_insert new i m'))) = (ent ?sA)((nd, new) \<mapsto> i)"
    "tree_step ?sA (set_data ?sA nd (TDir (bt_insert new i m')))"
    by (rule dir_update [OF A m']; use dir_node(2) [OF A m'] in \<open>simp add: bt_get_insert\<close>)+
  show "ent (move_entry s d old nd new i) = (ent s)((d, old) := None, (nd, new) \<mapsto> i)"
    unfolding eq up(1) rv(1) ..
  show "tree_step s (move_entry s d old nd new i)" unfolding eq by (rule tree_step_trans [OF rv(2) up(2)])
  show "kinds (move_entry s d old nd new i) = kinds s" "nlinks (move_entry s d old nd new i) = nlinks s"
    "live_node (move_entry s d old nd new i) j = live_node s j" "node_kind (move_entry s d old nd new i) j = node_kind s j"
    unfolding eq using assms(2) A(2) by (simp_all add: set_data_views)
qed

lemma replaced_views:
  assumes "nodes_ok s" "live_node s nd" "\<And>ex. existing = Some ex \<Longrightarrow> live_node s ex"
  shows "ent (drop_replaced s nd existing) = ent s" "kinds (drop_replaced s nd existing) = kinds s"
    and "nlinks (drop_replaced s nd existing) = (case existing of None \<Rightarrow> nlinks s
      | Some ex \<Rightarrow> if node_kind s ex = Directory then (nlinks s)(ex := 0, nd := dec_link (if nd = ex then 0 else nlinks s nd))
                  else (nlinks s)(ex := dec_link (nlinks s ex)))"
    and "live_node (drop_replaced s nd existing) j = live_node s j"
    and "tree_step s (drop_replaced s nd existing)"
proof -
  have step: "nodes_ok (set_nlink s ex f)" if "live_node s ex" for ex f
    using nlink_views(7) [OF that assms(1)] by (simp add: tree_step_def)
  have refl: "tree_step s s" using assms(1) by (simp add: tree_step_def)
  have two: "tree_step s (set_nlink (set_nlink s ex f) nd g)" if "live_node s ex" for ex f g
    using that assms(1,2) step [OF that, of f] nlink_views(4,7) by (blast intro: tree_step_trans)
  show "tree_step s (drop_replaced s nd existing)"
    using assms two refl nlink_views(7) by (auto simp: drop_replaced_def split: option.split)
  show "ent (drop_replaced s nd existing) = ent s" "kinds (drop_replaced s nd existing) = kinds s"
    "live_node (drop_replaced s nd existing) j = live_node s j"
    using assms by (auto simp: drop_replaced_def nlink_views split: option.split)
  show "nlinks (drop_replaced s nd existing) = (case existing of None \<Rightarrow> nlinks s
      | Some ex \<Rightarrow> if node_kind s ex = Directory then (nlinks s)(ex := 0, nd := dec_link (if nd = ex then 0 else nlinks s nd))
                  else (nlinks s)(ex := dec_link (nlinks s ex)))"
    using assms(2,3) by (auto simp: drop_replaced_def nlink_views split: option.split)
qed

lemma shift_views:
  assumes "nodes_ok s" "live_node s d" "live_node s nd"
  shows "ent (shift_links s b d nd) = ent s" "kinds (shift_links s b d nd) = kinds s"
    and "nlinks (shift_links s b d nd) j =
      (if b \<and> nd \<noteq> d then (if j = d then nlinks s j - 1 else if j = nd then nlinks s j + 1 else nlinks s j) else nlinks s j)"
    and "live_node (shift_links s b d nd) j = live_node s j" "tree_step s (shift_links s b d nd)"
proof -
  have "nodes_ok (set_nlink s d dec_link)" using nlink_views(7) [OF assms(2,1)] by (simp add: tree_step_def)
  then have "tree_step s (set_nlink (set_nlink s d dec_link) nd Suc)"
    using assms nlink_views(4,7) by (blast intro: tree_step_trans)
  then show "tree_step s (shift_links s b d nd)" using assms(1) by (simp add: shift_links_def tree_step_def)
qed (use assms in \<open>auto simp: shift_links_def nlink_views dec_link_def\<close>)

lemma stamp_views:
  assumes "nodes_ok s" "live_node s i" "live_node s d" "live_node s nd"
    and "s' = rename_stamp s i d nd"
  shows "ent s' = ent s" "kinds s' = kinds s" "nlinks s' = nlinks s" "tree_step s s'"
proof -
  note cv = ctime_views [OF assms(2)]
  have 1: "nodes_ok (set_ctime s i)" using cv(7) [OF assms(1)] by (simp add: tree_step_def)
  have l: "live_node (set_ctime s i) d" "live_node (touch_mc (set_ctime s i) d) nd"
    using assms(3,4) cv(4) by (simp_all add: touch_views)
  note tv = touch_views [OF l(1)] and tv2 = touch_views [OF l(2)]
  have 2: "nodes_ok (touch_mc (set_ctime s i) d)" using tv(7) [OF 1] by (simp add: tree_step_def)
  have "tree_step s (touch_mc (set_ctime s i) d)" by (rule tree_step_trans [OF cv(7) [OF assms(1)] tv(7) [OF 1]])
  then show "tree_step s s'" using tree_step_trans [OF _ tv2(7) [OF 2]] by (simp add: assms(5) rename_stamp_def Let_def)
  show "ent s' = ent s" "kinds s' = kinds s" "nlinks s' = nlinks s" by (simp_all add: assms(5) rename_stamp_def Let_def tv tv2 cv)
qed

lemma lookup_ent:
  assumes "nodes_ok s" "live_node s d" "tmp_lookup s d name = Inr i"
  shows "ent s (d, name) = Some i" "\<exists>m. tn_data (tnode s d) = TDir m"
  using assms dir_node(3) [OF assms(1,2)] by (auto simp: tmp_lookup_def split: tmp_data.splits option.splits)

lemma rename_cases:
  assumes "tmp_rename s d old (Some nd) new = (r, s')" "s' \<noteq> s"
  obtains i m where "r = Inr ()" "tmp_lookup s d old = Inr i" "tn_data (tnode s nd) = TDir m" "bt_get m new \<noteq> Some i"
    and "\<And>ex. bt_get m new = Some ex \<Longrightarrow> rename_compatible s i ex = Inr ()"
    and "s' = rename_stamp (shift_links (drop_replaced (move_entry s d old nd new i) nd (bt_get m new))
        (node_kind s i = Directory) d nd) i d nd"
proof -
  obtain i where i: "tmp_lookup s d old = Inr i" using assms by (auto simp: tmp_rename_def split: sum.splits)
  obtain m where m: "tn_data (tnode s nd) = TDir m" using assms i by (auto simp: tmp_rename_def split: tmp_data.splits)
  have ne: "bt_get m new \<noteq> Some i" using assms i m by (auto simp: tmp_rename_def Let_def)
  have c: "(case bt_get m new of None \<Rightarrow> Inr () | Some ex \<Rightarrow> rename_compatible s i ex) = Inr ()"
    using assms i m ne by (auto simp: tmp_rename_def Let_def split: sum.splits)
  have "r = Inr ()" "s' = rename_stamp (shift_links (drop_replaced (move_entry s d old nd new i) nd (bt_get m new))
        (node_kind s i = Directory) d nd) i d nd"
    using assms(1) i m ne c by (simp_all add: tmp_rename_def Let_def)
  moreover have "rename_compatible s i ex = Inr ()" if "bt_get m new = Some ex" for ex using c that by simp
  ultimately show thesis using that i m ne by blast
qed

lemma rename_links:
  assumes ok: "links_ok E K L" and E: "E (d, old) = Some i" "E (nd, new) = existing" "existing \<noteq> Some i" "K nd = Some Directory"
    and K: "K i = Some t"
    and ex: "\<And>ex. existing = Some ex \<Longrightarrow> K ex = Some t' \<and> (t = Directory \<longleftrightarrow> t' = Directory) \<and>
        (t' = Directory \<longrightarrow> (\<forall>nm. E (ex, nm) = None))"
    and L1: "L1 = (case existing of None \<Rightarrow> L | Some ex \<Rightarrow>
        if t' = Directory then L(ex := 0, nd := dec_link (if nd = ex then 0 else L nd)) else L(ex := dec_link (L ex)))"
    and L': "\<And>j. L' j = (if t = Directory \<and> nd \<noteq> d then (if j = d then L1 j - 1 else if j = nd then L1 j + 1 else L1 j) else L1 j)"
  shows "links_ok (E((d, old) := None, (nd, new) \<mapsto> i)) K L'"
proof -
  have ne: "(d, old) \<noteq> (nd, new)" using E by auto
  have 1: "links_ok (E((nd, new) := None)) K L1"
  proof (cases existing)
    case None
    then show ?thesis using ok E(2) L1 by (simp add: fun_upd_idem)
  next
    case (Some x)
    note x = ex [OF Some]
    have e: "E (nd, new) = Some x" using E(2) Some by simp
    show ?thesis
    proof (cases "t' = Directory")
      case True
      then have gone: "\<forall>nm. E (x, nm) = None" and kx: "K x = Some Directory" using x by auto
      then have "nd \<noteq> x" using e by auto
      then show ?thesis
        using True Some L1 by (intro links_rmdir(1) [OF ok e kx gone]) (auto simp: dec_link_def)
    next
      case False
      then show ?thesis using Some x L1 by (intro links_unlink [OF ok e]) (auto simp: dec_link_def)
    qed
  qed
  have "links_ok ((E((nd, new) := None))((d, old) := None, (nd, new) \<mapsto> i)) K L'"
    using ne E(1,4) K L' by (intro links_move [OF 1]) auto
  moreover have "(E((nd, new) := None))((d, old) := None, (nd, new) \<mapsto> i) = E((d, old) := None, (nd, new) \<mapsto> i)"
    by (auto simp: fun_eq_iff)
  ultimately show ?thesis by simp
qed

lemma rename_inv:
  assumes "tmp_inv s" "live_node s d" "\<And>nd. new_dir = Some nd \<Longrightarrow> live_node s nd" "tmp_rename s d old new_dir new = (r, s')"
  shows "tmp_inv s'"
proof (cases "s' = s")
  case False
  then obtain nd where nd: "new_dir = Some nd" using assms(4) by (auto simp: tmp_rename_def split: option.splits)
  obtain i m where lk: "tmp_lookup s d old = Inr i" and m: "tn_data (tnode s nd) = TDir m" "bt_get m new \<noteq> Some i"
    and ex: "\<And>ex. bt_get m new = Some ex \<Longrightarrow> rename_compatible s i ex = Inr ()"
    and s': "s' = rename_stamp (shift_links (drop_replaced (move_entry s d old nd new i) nd (bt_get m new))
        (node_kind s i = Directory) d nd) i d nd"
    using rename_cases [of s d old nd new r s'] assms(4) False nd by metis
  have inv: "nodes_ok s" "links_ok (ent s) (kinds s) (nlinks s)" using assms(1) by (simp_all add: tmp_inv_def)
  have lnd: "live_node s nd" using assms(3) nd by simp
  obtain m0 where m0: "tn_data (tnode s d) = TDir m0" using lookup_ent(2) [OF inv(1) assms(2) lk] by blast
  have e: "ent s (d, old) = Some i" "ent s (nd, new) = bt_get m new"
    using lookup_ent(1) [OF inv(1) assms(2) lk] dir_node(3) [OF inv(1) lnd m(1)] by simp_all
  have li: "live_node s i" and lex: "\<And>x. bt_get m new = Some x \<Longrightarrow> live_node s x"
    using entry_live [OF assms(1)] e by force+
  define s1 where "s1 = move_entry s d old nd new i"
  define s2 where "s2 = drop_replaced s1 nd (bt_get m new)"
  define s3 where "s3 = shift_links s2 (node_kind s i = Directory) d nd"
  note mv = move_views [OF inv(1) assms(2) lnd m0 m(1), of old new i, folded s1_def]
  have n1: "nodes_ok s1" using mv(6) by (simp add: tree_step_def)
  have l1: "live_node s1 nd" "\<And>x. bt_get m new = Some x \<Longrightarrow> live_node s1 x" using mv(4) lnd lex by auto
  note rv = replaced_views [OF n1, where existing = "bt_get m new", OF l1, folded s2_def]
  have l2: "live_node s2 d" "live_node s2 nd" "live_node s2 i" using rv(4) mv(4) assms(2) lnd li by auto
  have n2: "nodes_ok s2" using rv(5) by (simp add: tree_step_def)
  note sv = shift_views [OF n2 l2(1,2), of "node_kind s i = Directory", folded s3_def]
  have n3: "nodes_ok s3" using sv(5) by (simp add: tree_step_def)
  have l3: "live_node s3 i" "live_node s3 d" "live_node s3 nd" using sv(4) l2 by auto
  have "s' = rename_stamp s3 i d nd" by (simp add: s' s1_def s2_def s3_def)
  note st = stamp_views [OF n3 l3 this]
  have step: "tree_step s s'" using mv(6) rv(5) sv(5) st(4) by (blast intro: tree_step_trans)
  have "links_ok ((ent s)((d, old) := None, (nd, new) \<mapsto> i)) (kinds s) (nlinks s')"
  proof (rule rename_links [OF inv(2) e m(2) dir_node(1) [OF inv(1) lnd m(1)] node_views(1) [OF li]])
    fix x assume x: "bt_get m new = Some x"
    then show "kinds s x = Some (node_kind s (the (bt_get m new))) \<and>
        (node_kind s i = Directory \<longleftrightarrow> node_kind s (the (bt_get m new)) = Directory) \<and>
        (node_kind s (the (bt_get m new)) = Directory \<longrightarrow> (\<forall>nm. ent s (x, nm) = None))"
      using ex [OF x] empty_dir_entries [OF inv(1) lex [OF x]] node_views(1) [OF lex [OF x]]
      by (auto simp: rename_compatible_def Let_def split: if_splits)
  next
    show "nlinks s2 = (case bt_get m new of None \<Rightarrow> nlinks s | Some ex \<Rightarrow>
        if node_kind s (the (bt_get m new)) = Directory then (nlinks s)(ex := 0, nd := dec_link (if nd = ex then 0 else nlinks s nd))
        else (nlinks s)(ex := dec_link (nlinks s ex)))"
      using rv(3) mv(3,5) by (cases "bt_get m new") simp_all
  qed (simp add: st(3) sv(3))
  then show ?thesis using tmp_inv_tree [OF assms(1) step] by (simp add: st sv rv mv)
qed (use assms(1) in simp)
lemma sum_upd: "i < n \<Longrightarrow> (\<Sum>j<n. (f(i := x)) j) + f i = (\<Sum>j<n. f j) + x" for f :: "nat \<Rightarrow> nat"
proof -
  assume i: "i < n"
  have "(\<Sum>j<n. (f(i := x)) j) = x + (\<Sum>j\<in>{..<n} - {i}. f j)"
    using i by (subst sum.remove [of _ i]) (auto intro: sum.cong)
  moreover have "(\<Sum>j<n. f j) = f i + (\<Sum>j\<in>{..<n} - {i}. f j)" using i by (intro sum.remove) auto
  ultimately show ?thesis by simp
qed

lemma pages_charged:
  assumes "tmp_inv s" "live_node s i"
  shows "TPAGE * npages s i \<le> tf_used s"
proof -
  have "i < tf_next_ino s" using assms nodes_okD by (simp add: tmp_inv_def)
  then have "npages s i \<le> (\<Sum>j<tf_next_ino s. npages s j)" by (intro member_le_sum) auto
  then show ?thesis using assms(1) by (simp add: tmp_inv_def used_ok_def)
qed

lemma file_data_inv:
  assumes "tmp_inv s" "live_node s i" "tn_data (tnode s i) = TFile pages sz" "pages_ok pages'"
    and "used' + TPAGE * length pages = tf_used s + TPAGE * length pages'"
    and "0 < tf_limit s \<longrightarrow> used' \<le> tf_limit s"
  shows "tmp_inv ((set_data s i (TFile pages' sz'))\<lparr>tf_used := used'\<rparr>)"
proof -
  let ?s1 = "set_data s i (TFile pages' sz')"
  let ?s2 = "?s1\<lparr>tf_used := used'\<rparr>"
  have inv: "nodes_ok s" "links_ok (ent s) (kinds s) (nlinks s)" "used_ok s" using assms(1) by (simp_all add: tmp_inv_def)
  have views: "ent ?s2 = ent ?s1" "kinds ?s2 = kinds ?s1" "nlinks ?s2 = nlinks ?s1" "npages ?s2 = npages ?s1"
    by (simp_all add: fun_eq_iff ent_def kinds_def nlinks_def npages_def)
  note n = nodes_okD [OF inv(1) assms(2)]
  have "node_ok ((tnode s i)\<lparr>tn_data := TFile pages' sz'\<rparr>)" using n assms(3,4) by (simp add: node_ok_def)
  then have "nodes_ok ?s1" by (rule set_data_nodes_ok [OF inv(1) assms(2)])
  then have "nodes_ok ?s2" by (simp add: nodes_ok_def)
  moreover have "ent s (i, nm) = None" for nm using ent_node [OF assms(2)] assms(3) by (simp add: dir_view_def)
  then have "ent ?s1 = ent s" using assms(2) by (auto simp: set_data_views fun_eq_iff dir_view_def)
  then have "links_ok (ent ?s2) (kinds ?s2) (nlinks ?s2)" using inv(2) assms(2) by (simp add: views set_data_views)
  moreover have np: "npages s i = length pages" using assms(2,3) by (simp add: node_views node_pages_def)
  have "used_ok ?s2"
  proof -
    have "npages ?s2 = (npages s)(i := length pages')" using assms(2) by (simp add: views set_data_views)
    then have "(\<Sum>j<tf_next_ino s. npages ?s2 j) + length pages = (\<Sum>j<tf_next_ino s. npages s j) + length pages'"
      using sum_upd [of i "tf_next_ino s" "npages s" "length pages'"] n np by simp
    then have "TPAGE * (\<Sum>j<tf_next_ino s. npages ?s2 j) + TPAGE * length pages = tf_used s + TPAGE * length pages'"
      using inv(3) by (simp add: used_ok_def flip: distrib_left)
    then show ?thesis using assms(2,5,6) by (simp add: used_ok_def set_data_views)
  qed
  ultimately show ?thesis by (simp add: tmp_inv_def)
qed

lemma touch_inv: "tmp_inv s \<Longrightarrow> live_node s i \<Longrightarrow> tmp_inv (touch_mc s i)"
  by (rule tmp_inv_same) (simp_all add: touch_views tmp_inv_def)

lemma write_inv:
  assumes "tmp_inv s" "live_node s i" "tmp_write_at s i off buf = (r, s')"
  shows "tmp_inv s'"
proof (cases "s' = s")
  case False
  then obtain pages sz where f: "tn_data (tnode s i) = TFile pages sz"
    using assms(3) by (auto simp: tmp_write_at_def Let_def split: if_splits tmp_data.splits)
  obtain r1 pages' used' where w: "write_loop (tf_limit s) pages (tf_used s) off buf 0 = (r1, pages', used')"
    by (cases "write_loop (tf_limit s) pages (tf_used s) off buf 0")
  have pk: "pages_ok pages" using nodes_okD [of s i] assms(1,2) f by (simp add: tmp_inv_def node_ok_def)
  have "used_ok s" using assms(1) by (simp add: tmp_inv_def)
  then have inv: "tmp_inv ((set_data s i (TFile pages' sz'))\<lparr>tf_used := used'\<rparr>)" for sz'
    using write_loop_spec [OF w pk] by (intro file_data_inv [OF assms(1,2) f]) (auto simp: used_ok_def)
  moreover have "live_node ((set_data s i (TFile pages' sz'))\<lparr>tf_used := used'\<rparr>) i" for sz'
    by (simp add: live_node_def set_data_def set_node_def)
  ultimately show ?thesis
    using assms(3) f w touch_inv False
    by (auto simp: tmp_write_at_def Let_def split: if_splits sum.splits)
qed (use assms(1) in simp)

lemma truncate_inv:
  assumes "tmp_inv s" "live_node s i" "tmp_truncate s i len = (r, s')"
  shows "tmp_inv s' \<and> live_node s' i"
proof (cases "tn_data (tnode s i)")
  case (TFile pages sz)
  obtain pages' dead where t: "truncate_pages pages sz len = (pages', dead)" by (cases "truncate_pages pages sz len")
  have pk: "pages_ok pages" using nodes_okD [of s i] assms(1,2) TFile by (simp add: tmp_inv_def node_ok_def)
  note spec = truncate_pages_spec(1,2) [OF t pk]
  have "TPAGE * length pages \<le> tf_used s"
    using pages_charged [OF assms(1,2)] assms(2) TFile by (simp add: node_views node_pages_def)
  moreover have "TPAGE * length pages = TPAGE * length pages' + dead * TPAGE"
    using spec(2) by (metis add.commute distrib_left mult.commute)
  ultimately have "tmp_inv ((set_data s i (TFile pages' len))\<lparr>tf_used := tf_used s - dead * TPAGE\<rparr>)"
    using assms(1) spec(1) by (intro file_data_inv [OF assms(1,2) TFile]) (auto simp: tmp_inv_def used_ok_def)
  moreover have "s' = (set_data s i (TFile pages' len))\<lparr>tf_used := tf_used s - dead * TPAGE\<rparr>"
    using assms(2,3) TFile t by (simp add: tmp_truncate_def uncharge_def set_data_views)
  ultimately show ?thesis by (simp add: live_node_def set_data_def set_node_def)
qed (use assms in \<open>simp_all add: tmp_truncate_def\<close>)

lemma set_attr_inv:
  assumes "tmp_inv s" "live_node s i" "tmp_set_attr s i a = (r, s')"
  shows "tmp_inv s'"
proof -
  obtain r1 s1 where t: "(case sa_size a of None \<Rightarrow> (Inr (), s) | Some sz \<Rightarrow> tmp_truncate s i (unat sz)) = (r1, s1)"
    by fastforce
  then have s1: "tmp_inv s1" "live_node s1 i"
    using truncate_inv [OF assms(1,2)] assms(1,2) by (auto split: option.splits)
  have "s' = s1 \<or> (\<exists>f. s' = upd_meta s1 i f \<and> (\<forall>m. tm_kind (f m) = tm_kind m \<and> tm_nlink (f m) = tm_nlink m))"
    using assms(3) t by (auto simp: tmp_set_attr_def split: sum.splits)
  moreover have "tmp_inv (upd_meta s1 i f)" if "\<forall>m. tm_kind (f m) = tm_kind m \<and> tm_nlink (f m) = tm_nlink m" for f
    using s1 that by (intro tmp_inv_same [OF s1(1)] upd_meta_tree)
      (auto simp: tmp_inv_def upd_meta_views fun_upd_idem node_views)
  ultimately show ?thesis using s1(1) by auto
qed
lemma links_drop:
  assumes ok: "links_ok E K L" and i: "i \<noteq> 1" "names_of E i = 0" "\<forall>nm. E (i, nm) = None"
    and L': "\<And>j. j \<noteq> i \<Longrightarrow> L' j = L j"
  shows "links_ok E (K(i := None)) L'"
proof -
  note okD = links_okD [OF ok]
  have no: "E k \<noteq> Some i" for k using names_of_zero [OF okD(1)] i(2) by blast
  have subs: "subdirs E (K(i := None)) j = subdirs E K j" for j
    unfolding subdirs_def using no by (intro arg_cong [where f = card] Collect_cong) (metis fun_upd_other)
  show ?thesis
  proof (rule links_okI, unfold subs)
    fix k j assume "E k = Some j"
    then show "(K(i := None)) j \<noteq> None \<and> (K(i := None)) (fst k) = Some Directory"
      using okD(2) [of k j] no [of k] i(3) by (cases k) auto
  next
    fix j assume "(K(i := None)) j = Some Directory"
    then show "names_of E j \<le> 1 \<and> L' j = 2 * (if j = 1 then 1 else names_of E j) + subdirs E K j"
      using okD(5) [of j] L' [of j] by (auto split: if_splits)
  next
    fix j t assume "(K(i := None)) j = Some t" "t \<noteq> Directory"
    then show "L' j = names_of E j" using okD(6) [of j t] L' [of j] by (auto split: if_splits)
  qed (use okD(1,3,4) i(1) in simp_all)
qed

text \<open>
  A node may be dropped when no name leads to it; that no handle is open either is up to the caller. The
  case of a removed directory into which new entries were made is left out: its entries go with it.
\<close>

definition droppable :: "tmpfs \<Rightarrow> nat \<Rightarrow> bool" where
  "droppable s i \<longleftrightarrow> live_node s i \<and> i \<noteq> 1 \<and> names_of (ent s) i = 0 \<and> (\<forall>m. tn_data (tnode s i) = TDir m \<longrightarrow> m = [])"

lemma drop_inv:
  assumes "tmp_inv s" "droppable s i"
  shows "tmp_inv (drop_node s i)"
proof -
  let ?s = "drop_node s i"
  have inv: "nodes_ok s" "links_ok (ent s) (kinds s) (nlinks s)" "used_ok s" using assms(1) by (simp_all add: tmp_inv_def)
  have i: "live_node s i" "i \<noteq> 1" "names_of (ent s) i = 0" using assms(2) by (simp_all add: droppable_def)
  have e: "\<forall>nm. ent s (i, nm) = None"
    using assms(2) ent_node [OF i(1)] by (auto simp: droppable_def dir_view_def split: tmp_data.split)
  have "ent ?s (j, nm) = ent s (j, nm)" for j nm
    using e by (cases "j = i") (simp_all add: ent_def drop_node_def)
  then have ent: "ent ?s = ent s" by auto
  have views: "kinds ?s = (kinds s)(i := None)" "nlinks ?s = (nlinks s)(i := 0)" "npages ?s = (npages s)(i := 0)"
    by (auto simp: fun_eq_iff kinds_def nlinks_def npages_def drop_node_def)
  have "links_ok (ent ?s) (kinds ?s) (nlinks ?s)"
    unfolding ent views by (rule links_drop [OF inv(2) i(2,3) e]) simp
  moreover have "nodes_ok ?s" using inv(1) by (auto simp: nodes_ok_def drop_node_def split: if_splits)
  moreover have "used_ok ?s"
  proof -
    have "(\<Sum>j<tf_next_ino s. npages ?s j) + npages s i = (\<Sum>j<tf_next_ino s. npages s j)"
      using sum_upd [of i "tf_next_ino s" "npages s" 0] nodes_okD [OF inv(1) i(1)] by (simp add: views)
    then have "TPAGE * (\<Sum>j<tf_next_ino s. npages ?s j) + TPAGE * npages s i = tf_used s"
      using inv(3) by (simp add: used_ok_def flip: distrib_left)
    moreover have "tf_used ?s = tf_used s - TPAGE * npages s i" "tf_next_ino ?s = tf_next_ino s" "tf_limit ?s = tf_limit s"
      using node_views(3) [OF i(1)] by (simp_all add: drop_node_def mult.commute)
    ultimately show ?thesis using inv(3) by (auto simp: used_ok_def)
  qed
  ultimately show ?thesis by (simp add: tmp_inv_def)
qed

text \<open>The states a mounted file system can be in: any sequence of calls on live inodes.\<close>

inductive tmp_reach :: "tmpfs \<Rightarrow> bool" where
  reach_init: "tmp_reach (tmpfs_named dev limit name now)"
| reach_clock: "tmp_reach s \<Longrightarrow> tmp_reach (s\<lparr>tf_now := now\<rparr>)"
| reach_create: "tmp_reach s \<Longrightarrow> live_node s d \<Longrightarrow> tmp_create s d nm kind perm uid gid rdev = (r1, s') \<Longrightarrow> tmp_reach s'"
| reach_symlink: "tmp_reach s \<Longrightarrow> live_node s d \<Longrightarrow> tmp_symlink s d nm target uid gid = (r1, s') \<Longrightarrow> tmp_reach s'"
| reach_link: "tmp_reach s \<Longrightarrow> live_node s d \<Longrightarrow> (\<And>i. t = Some i \<Longrightarrow> live_node s i) \<Longrightarrow> tmp_link s d nm t = (r2, s') \<Longrightarrow> tmp_reach s'"
| reach_unlink: "tmp_reach s \<Longrightarrow> live_node s d \<Longrightarrow> tmp_unlink s d nm = (r2, s') \<Longrightarrow> tmp_reach s'"
| reach_rmdir: "tmp_reach s \<Longrightarrow> live_node s d \<Longrightarrow> tmp_rmdir s d nm = (r2, s') \<Longrightarrow> tmp_reach s'"
| reach_rename: "tmp_reach s \<Longrightarrow> live_node s d \<Longrightarrow> (\<And>i. t = Some i \<Longrightarrow> live_node s i) \<Longrightarrow>
    tmp_rename s d nm t nm' = (r2, s') \<Longrightarrow> tmp_reach s'"
| reach_set_attr: "tmp_reach s \<Longrightarrow> live_node s i \<Longrightarrow> tmp_set_attr s i a = (r2, s') \<Longrightarrow> tmp_reach s'"
| reach_write: "tmp_reach s \<Longrightarrow> live_node s i \<Longrightarrow> tmp_write_at s i off buf = (r3, s') \<Longrightarrow> tmp_reach s'"
| reach_drop: "tmp_reach s \<Longrightarrow> droppable s i \<Longrightarrow> tmp_reach (drop_node s i)"

lemma clock_inv: "tmp_inv s \<Longrightarrow> tmp_inv (s\<lparr>tf_now := now\<rparr>)"
proof -
  let ?s = "s\<lparr>tf_now := now\<rparr>"
  have "ent ?s = ent s" "kinds ?s = kinds s" "nlinks ?s = nlinks s" "npages ?s = npages s"
    by (simp_all add: fun_eq_iff ent_def kinds_def nlinks_def npages_def)
  moreover assume "tmp_inv s"
  ultimately show ?thesis by (auto simp: tmp_inv_def nodes_ok_def used_ok_def)
qed

lemma init_inv: "tmp_inv (tmpfs_named dev limit name now)"
proof -
  let ?s = "tmpfs_named dev limit name now"
  obtain n where nodes: "tf_nodes ?s = [1 \<mapsto> n]" and n: "tn_data n = TDir []" "tm_kind (tn_meta n) = Directory" "tm_nlink (tn_meta n) = 2"
    by (simp add: tmpfs_named_def Let_def set_node_def new_node_def with_nlink_def)
  have rest: "tf_next_ino ?s = 2" "tf_used ?s = 0" by (simp_all add: tmpfs_named_def Let_def set_node_def)
  have ent: "ent ?s = Map.empty" using n by (auto simp: fun_eq_iff ent_def nodes dir_view_def)
  have kinds: "kinds ?s = [1 \<mapsto> Directory]" "nlinks ?s 1 = 2" "npages ?s = (\<lambda>_. 0)"
    using n by (auto simp: fun_eq_iff kinds_def nlinks_def npages_def node_pages_def nodes)
  have "links_ok (ent ?s) (kinds ?s) (nlinks ?s)"
    unfolding ent kinds(1)
    by (rule links_okI) (use kinds in \<open>auto simp: names_of_def subdirs_def split: if_splits\<close>)
  moreover have "nodes_ok ?s" using n by (simp add: nodes_ok_def nodes rest node_ok_def)
  moreover have "used_ok ?s" using kinds(3) rest by (simp add: used_ok_def)
  ultimately show ?thesis by (simp add: tmp_inv_def)
qed

lemma reach_inv: "tmp_reach s \<Longrightarrow> tmp_inv s"
  by (induction rule: tmp_reach.induct)
    (blast intro: init_inv clock_inv create_inv symlink_inv link_inv unlink_inv rmdir_inv(1) rename_inv set_attr_inv write_inv drop_inv)+
section \<open>Theorems\<close>


text \<open>
  C28 (space is accounted for). After any sequence of calls, writes that failed half way and dropped files included, the bytes in
  use are one page for each page some live file holds, and never more than the limit of the mount.
\<close>

theorem tmpfs_space_accounted:
  assumes "tmp_reach s"
  shows "tf_used s = 4096 * (\<Sum>i\<in>dom (tf_nodes s). node_pages (the (tf_nodes s i))) \<and>
    (0 < tf_limit s \<longrightarrow> tf_used s \<le> tf_limit s)"
proof -
  have inv: "used_ok s" "nodes_ok s" using reach_inv [OF assms] by (simp_all add: tmp_inv_def)
  have "dom (tf_nodes s) \<subseteq> {..<tf_next_ino s}" using inv(2) by (auto simp: nodes_ok_def)
  then have "(\<Sum>i\<in>dom (tf_nodes s). node_pages (the (tf_nodes s i))) = (\<Sum>i<tf_next_ino s. npages s i)"
    by (intro sum.mono_neutral_cong_left) (auto simp: npages_def split: option.split)
  then show ?thesis using inv(1) by (auto simp: used_ok_def TPAGE_def)
qed

lemma example_reach: "tmp_reach (example_fs limit)" "live_node (example_fs limit) 1" "live_node (example_fs limit) 2"
proof -
  let ?s = "tmpfs_new 1 limit \<lparr>ts_sec = 0, ts_nsec = 0\<rparr>"
  obtain r s' where c: "tmp_create ?s 1 ''f'' Regular 0x1A4 0 0 0 = (r, s')" by (cases "tmp_create ?s 1 ''f'' Regular 0x1A4 0 0 0")
  then have "tmp_reach s'"
    by (intro reach_create [OF reach_init _ c [unfolded tmpfs_new_def]])
      (simp add: live_node_def tmpfs_named_def Let_def set_node_def)
  then show "tmp_reach (example_fs limit)" using c by (simp add: example_fs_def)
  show "live_node (example_fs limit) 1" "live_node (example_fs limit) 2"
    by (simp_all add: live_node_def example_fs_def tmp_create_def tmpfs_new_def tmpfs_named_def Let_def link_new_def
        alloc_node_def add_child_def store_defs tnode_def new_node_def with_nlink_def)
qed


theorem tmpfs_space_accounted_witness:
  "tf_used (snd (tmp_write_at (example_fs 8192) 2 0 [1, 2, 3])) =
     4096 * (\<Sum>i\<in>dom (tf_nodes (snd (tmp_write_at (example_fs 8192) 2 0 [1, 2, 3]))).
       node_pages (the (tf_nodes (snd (tmp_write_at (example_fs 8192) 2 0 [1, 2, 3])) i)))"
proof -
  obtain r s' where w: "tmp_write_at (example_fs 8192) 2 0 [1, 2, 3] = (r, s')"
    by (cases "tmp_write_at (example_fs 8192) 2 0 [1, 2, 3]")
  have "tmp_reach s'" by (rule reach_write [OF example_reach(1,3) w])
  then show ?thesis using tmpfs_space_accounted [of s'] w by simp
qed

text \<open>
  The counter behind \<^verbatim>\<open>statfs\<close> is lowered each time an entry cannot be made, although the new node was never
  counted: repeated, the counter passes below zero and \<^verbatim>\<open>statfs\<close> hits the overflow trap.
\<close>

lemma failed_create_miscounts:
  assumes "tn_data (tnode s d) = TDir m" "bt_get m name \<noteq> None" "d < tf_next_ino s"
    and "tmp_create s d name Regular perm uid gid rdev = (r, s')"
  shows "r = Inl EEXIST \<and> tf_inodes s' = tf_inodes s - 1 \<and> (tf_inodes s = 0 \<longrightarrow> tmp_statfs free s' = None)"
proof -
  have r: "r = Inl EEXIST \<and> tf_inodes s' = tf_inodes s - 1"
    using assms by (auto simp: tmp_create_def Let_def link_new_def alloc_node_def add_child_def set_node_def tnode_def drop_node_def)
  have "unat (- 1 :: u64) = 2 ^ 64 - 1" by (simp add: unsigned_minus_1_eq_mask mask_eq_exp_minus_1)
  then show ?thesis using r by (simp add: tmp_statfs_def Let_def)
qed

text \<open>So does a file system that holds more than a million files.\<close>

lemma statfs_traps_with_many_files: "2 ^ 20 < unat (tf_inodes s) \<Longrightarrow> tmp_statfs free s = None"
  by (simp add: tmp_statfs_def Let_def)

end
