(* ===== verification/File_Flags.thy ===== *)
theory File_Flags
  imports Perm
begin

unbundle bit_operations_syntax

text \<open>
  The flag words of \<^verbatim>\<open>kernel/src/fs/file.rs\<close>: how a file is opened, and what \<^verbatim>\<open>poll\<close> reports of it.
\<close>

section \<open>Open flags\<close>

definition O_WRONLY :: u32 where "O_WRONLY = 1"
definition O_RDONLY :: u32 where "O_RDONLY = 0"
definition O_RDWR :: u32 where "O_RDWR = 2"
definition O_ACCMODE :: u32 where "O_ACCMODE = 3"
definition O_CREAT :: u32 where "O_CREAT = 0x40"
definition O_EXCL :: u32 where "O_EXCL = 0x80"
definition O_TRUNC :: u32 where "O_TRUNC = 0x200"
definition O_APPEND :: u32 where "O_APPEND = 0x400"
definition O_NONBLOCK :: u32 where "O_NONBLOCK = 0x800"
definition O_DIRECTORY :: u32 where "O_DIRECTORY = 0x10000"
definition O_NOFOLLOW :: u32 where "O_NOFOLLOW = 0x20000"
abbreviation O_CLOEXEC :: u32 where "O_CLOEXEC \<equiv> 0x80000"
definition O_PATH :: u32 where "O_PATH = 0x200000"
definition SETFL_MASK :: u32 where "SETFL_MASK = O_APPEND OR O_NONBLOCK"

text \<open>What \<^verbatim>\<open>fcntl(F_SETFL)\<close> makes of the flags of an open file.\<close>

definition set_flags :: "u32 \<Rightarrow> u32 \<Rightarrow> u32" where
  "set_flags old f = (old AND NOT SETFL_MASK) OR (f AND SETFL_MASK)"

definition readable :: "u32 \<Rightarrow> bool" where
  "readable fl \<longleftrightarrow> fl AND O_ACCMODE \<noteq> O_WRONLY"

definition writable :: "u32 \<Rightarrow> bool" where
  "writable fl \<longleftrightarrow> fl AND O_ACCMODE \<noteq> O_RDONLY"

definition nonblocking :: "u32 \<Rightarrow> bool" where
  "nonblocking fl \<longleftrightarrow> fl AND O_NONBLOCK \<noteq> 0"

lemmas open_flags = O_WRONLY_def O_RDONLY_def O_RDWR_def O_ACCMODE_def O_CREAT_def O_EXCL_def O_TRUNC_def O_APPEND_def O_NONBLOCK_def
  O_DIRECTORY_def O_NOFOLLOW_def O_PATH_def SETFL_MASK_def

text \<open>The access mode an open file was given never changes.\<close>

lemma set_flags_mode: "set_flags old f AND O_ACCMODE = old AND O_ACCMODE"
proof -
  have "SETFL_MASK AND O_ACCMODE = 0" by (simp add: open_flags)
  then have "\<not> (bit SETFL_MASK n \<and> bit O_ACCMODE n)" for n by (metis bit_and_iff bit_0_eq bot_apply bot_bool_def)
  then show ?thesis by (intro bit_word_eqI) (auto simp: set_flags_def bit_simps)
qed

lemma set_flags_access: "readable (set_flags old f) = readable old" "writable (set_flags old f) = writable old"
  by (simp_all add: readable_def writable_def set_flags_mode)

section \<open>Readiness\<close>

type_synonym poll_bits = u16

definition POLL_IN :: poll_bits where "POLL_IN = 1"
abbreviation POLL_PRI :: poll_bits where "POLL_PRI \<equiv> 2"
definition POLL_OUT :: poll_bits where "POLL_OUT = 4"
definition POLL_ERR :: poll_bits where "POLL_ERR = 8"
definition POLL_HUP :: poll_bits where "POLL_HUP = 16"
abbreviation POLL_NVAL :: poll_bits where "POLL_NVAL \<equiv> 32"

definition poll_contains :: "poll_bits \<Rightarrow> poll_bits \<Rightarrow> bool" where
  "poll_contains p q \<longleftrightarrow> p AND q = q"

definition poll_intersects :: "poll_bits \<Rightarrow> poll_bits \<Rightarrow> bool" where
  "poll_intersects p q \<longleftrightarrow> p AND q \<noteq> 0"

lemmas poll_defs = POLL_IN_def POLL_OUT_def POLL_ERR_def POLL_HUP_def poll_contains_def poll_intersects_def

end
