(* ===== verification/Vfs_Ops.thy ===== *)
theory Vfs_Ops
  imports Vfs_Path Tmpfs File_Flags
begin

unbundle bit_operations_syntax

text \<open>
  The file operations every command and system call goes through, \<^verbatim>\<open>kernel/src/fs/ops.rs\<close>, over any file system given by its inode
  operations. A process sees the file system through its context: namespace, root, working directory, umask and
  credentials. Mount flags are looked up by mount id. A call returns its result and the new state; \<open>None\<close> would be
  a resolution that does not end.
\<close>

section \<open>Contexts and flags\<close>

record 'i ctx =
  cx_ns :: "'i namespace"
  cx_root :: "'i path_node"
  cx_cwd :: "'i path_node"
  cx_umask :: u16
  cx_cred :: cred

definition ctx_resolver :: "'i ctx \<Rightarrow> 'i resolver" where
  "ctx_resolver cx = \<lparr>rs_ns = cx_ns cx, rs_root = cx_root cx, rs_cwd = cx_cwd cx, rs_cred = cx_cred cx\<rparr>"

definition ctx_resolve :: "('s, 'i) inode_ops \<Rightarrow> 's \<Rightarrow> 'i ctx \<Rightarrow> string \<Rightarrow> bool \<Rightarrow> 'i path_node KResult option" where
  "ctx_resolve ops s cx path follow = resolve ops s (ctx_resolver cx) path follow"

definition ctx_resolve_parent :: "('s, 'i) inode_ops \<Rightarrow> 's \<Rightarrow> 'i ctx \<Rightarrow> string \<Rightarrow> ('i path_node \<times> string) KResult option" where
  "ctx_resolve_parent ops s cx path = resolve_parent ops s (ctx_resolver cx) path"

type_synonym mflags = "nat \<Rightarrow> mount_flags"

definition check_rw_mount :: "mflags \<Rightarrow> 'i path_node \<Rightarrow> unit KResult" where
  "check_rw_mount fl node = (if mf_read_only (fl (pn_mount node)) then Inl EROFS else Inr ())"

definition is_dot :: "string \<Rightarrow> bool" where
  "is_dot name \<longleftrightarrow> name = ''.'' \<or> name = ''..''"

text \<open>The question mark operator, on a resolution and on a plain result.\<close>

type_synonym ('a, 's) effect = "('a KResult \<times> 's) option"

definition on_path :: "'a KResult option \<Rightarrow> 's \<Rightarrow> ('a \<Rightarrow> ('b, 's) effect) \<Rightarrow> ('b, 's) effect" where
  "on_path r s f = (case r of None \<Rightarrow> None | Some (Inl e) \<Rightarrow> Some (Inl e, s) | Some (Inr x) \<Rightarrow> f x)"

definition on_ok :: "'a KResult \<Rightarrow> 's \<Rightarrow> ('a \<Rightarrow> ('b, 's) effect) \<Rightarrow> ('b, 's) effect" where
  "on_ok r s f = (case r of Inl e \<Rightarrow> Some (Inl e, s) | Inr x \<Rightarrow> f x)"

definition unit_of :: "'a KResult \<times> 's \<Rightarrow> (unit, 's) effect" where
  "unit_of p = Some (case fst p of Inl e \<Rightarrow> Inl e | Inr _ \<Rightarrow> Inr (), snd p)"

section \<open>Opening\<close>

datatype ('i, 'f) opened = InodeFile "'i path_node" u32 | Special 'f

definition new_gid :: "'i ctx \<Rightarrow> metadata \<Rightarrow> u32" where
  "new_gid cx dmeta = (if md_perm dmeta AND 0x400 \<noteq> 0 then md_gid dmeta else cr_egid (cx_cred cx))"

definition new_perm :: "'i ctx \<Rightarrow> u16 \<Rightarrow> u16" where
  "new_perm cx mode = mode AND NOT (cx_umask cx) AND 0xFFF"

definition want_write :: "u32 \<Rightarrow> bool" where
  "want_write flags \<longleftrightarrow> flags AND O_ACCMODE = O_WRONLY \<or> flags AND O_ACCMODE = O_RDWR \<or> flags AND O_TRUNC \<noteq> 0"

definition file_flags :: "u32 \<Rightarrow> u32" where
  "file_flags flags = flags AND NOT (O_CREAT OR O_EXCL OR O_TRUNC)"

definition open_mask :: "u32 \<Rightarrow> u32" where
  "open_mask flags =
     (if flags AND O_ACCMODE = O_RDONLY \<or> flags AND O_ACCMODE = O_RDWR then MAY_READ else 0)
     OR (if want_write flags then MAY_WRITE else 0)"

definition truncate_attr :: "u64 \<Rightarrow> timespec \<Rightarrow> set_attr" where
  "truncate_attr sz now = set_attr_default\<lparr>sa_size := Some sz, sa_mtime := Some now\<rparr>"

text \<open>
  Opening what exists; \<open>spec\<close> is the inode's own way to open (devices, pipes), of which \<open>None\<close> says that there is none.
\<close>

definition open_node :: "('s, 'i) inode_ops \<Rightarrow> ('s \<Rightarrow> 'i \<Rightarrow> u32 \<Rightarrow> 'f option KResult) \<Rightarrow> timespec \<Rightarrow> mflags \<Rightarrow> 's \<Rightarrow> 'i ctx
    \<Rightarrow> 'i path_node \<Rightarrow> u32 \<Rightarrow> (('i, 'f) opened, 's) effect" where
  "open_node ops spec now fl s cx n flags =
     on_ok (io_metadata ops s (pn_inode n)) s (\<lambda>meta.
       if md_kind meta = Symlink then Some (Inl ELOOP, s)
       else if flags AND O_DIRECTORY \<noteq> 0 \<and> md_kind meta \<noteq> Directory then Some (Inl ENOTDIR, s)
       else if md_kind meta = Directory \<and> want_write flags then Some (Inl EISDIR, s)
       else on_ok (if flags AND O_PATH = 0 then perm_check (cx_cred cx) meta (open_mask flags) else Inr ()) s (\<lambda>_.
         on_ok (if want_write flags \<and> md_kind meta = Regular then check_rw_mount fl n else Inr ()) s (\<lambda>_.
           if (md_kind meta = CharDevice \<or> md_kind meta = BlockDevice) \<and> mf_nodev (fl (pn_mount n)) then Some (Inl EACCES, s)
           else on_ok (spec s (pn_inode n) flags) s (\<lambda>f.
             case f of
               Some g \<Rightarrow> Some (Inr (Special g), s)
             | None \<Rightarrow>
                 if flags AND O_TRUNC \<noteq> 0 \<and> md_kind meta = Regular \<and> md_size meta \<noteq> 0 then
                   (case io_set_attr ops s (pn_inode n) (truncate_attr 0 now) of
                      (Inl e, s') \<Rightarrow> Some (Inl e, s')
                    | (Inr _, s') \<Rightarrow> Some (Inr (InodeFile n (file_flags flags)), s'))
                 else Some (Inr (InodeFile n (file_flags flags)), s)))))"

definition open_create :: "('s, 'i) inode_ops \<Rightarrow> mflags \<Rightarrow> 's \<Rightarrow> 'i ctx \<Rightarrow> 'i path_node \<Rightarrow> string \<Rightarrow> u32 \<Rightarrow> u16
    \<Rightarrow> (('i, 'f) opened, 's) effect" where
  "open_create ops fl s cx dir name flags mode =
     (if is_dot name then Some (Inl EISDIR, s)
      else on_ok (io_metadata ops s (pn_inode dir)) s (\<lambda>dmeta.
        on_ok (perm_check (cx_cred cx) dmeta (MAY_WRITE OR MAY_EXEC)) s (\<lambda>_.
          on_ok (check_rw_mount fl dir) s (\<lambda>_.
            case io_create ops s (pn_inode dir) name Regular (new_perm cx mode) (cr_euid (cx_cred cx)) (new_gid cx dmeta) 0 of
              (Inl e, s') \<Rightarrow> Some (Inl e, s')
            | (Inr inode, s') \<Rightarrow> Some (Inr (InodeFile (node_child dir name inode) (file_flags flags)), s')))))"

definition vfs_open :: "('s, 'i) inode_ops \<Rightarrow> ('s \<Rightarrow> 'i \<Rightarrow> u32 \<Rightarrow> 'f option KResult) \<Rightarrow> timespec \<Rightarrow> mflags \<Rightarrow> 's \<Rightarrow> 'i ctx
    \<Rightarrow> string \<Rightarrow> u32 \<Rightarrow> u16 \<Rightarrow> (('i, 'f) opened, 's) effect" where
  "vfs_open ops spec now fl s cx path flags mode =
     (if flags AND O_CREAT \<noteq> 0 then
        on_path (ctx_resolve_parent ops s cx path) s (\<lambda>(dir, name).
          case ctx_resolve ops s cx path (flags AND O_NOFOLLOW = 0) of
            None \<Rightarrow> None
          | Some (Inr n) \<Rightarrow> if flags AND O_EXCL \<noteq> 0 then Some (Inl EEXIST, s) else open_node ops spec now fl s cx n flags
          | Some (Inl e) \<Rightarrow> if e = ENOENT then open_create ops fl s cx dir name flags mode else Some (Inl e, s))
      else on_path (ctx_resolve ops s cx path (flags AND O_NOFOLLOW = 0)) s (\<lambda>n. open_node ops spec now fl s cx n flags))"

section \<open>Queries\<close>

definition vfs_stat :: "('s, 'i) inode_ops \<Rightarrow> 's \<Rightarrow> 'i ctx \<Rightarrow> string \<Rightarrow> bool \<Rightarrow> metadata KResult option" where
  "vfs_stat ops s cx path follow =
     map_option (\<lambda>r. kbind r (\<lambda>n. io_metadata ops s (pn_inode n))) (ctx_resolve ops s cx path follow)"

definition vfs_exists :: "('s, 'i) inode_ops \<Rightarrow> 's \<Rightarrow> 'i ctx \<Rightarrow> string \<Rightarrow> bool option" where
  "vfs_exists ops s cx path = map_option (\<lambda>r. case r of Inl _ \<Rightarrow> False | Inr _ \<Rightarrow> True) (ctx_resolve ops s cx path True)"

definition vfs_access :: "('s, 'i) inode_ops \<Rightarrow> mflags \<Rightarrow> 's \<Rightarrow> 'i ctx \<Rightarrow> string \<Rightarrow> u32 \<Rightarrow> unit KResult option" where
  "vfs_access ops fl s cx path msk =
     map_option (\<lambda>r. kbind r (\<lambda>n.
       kbind (if msk AND MAY_WRITE \<noteq> 0 then check_rw_mount fl n else Inr ()) (\<lambda>_.
         kbind (io_metadata ops s (pn_inode n)) (\<lambda>m. perm_check (cx_cred cx) m msk))))
       (ctx_resolve ops s cx path True)"

definition vfs_readlink :: "('s, 'i) inode_ops \<Rightarrow> 's \<Rightarrow> 'i ctx \<Rightarrow> string \<Rightarrow> string KResult option" where
  "vfs_readlink ops s cx path =
     map_option (\<lambda>r. kbind r (\<lambda>n. kbind (io_metadata ops s (pn_inode n)) (\<lambda>m.
       if md_kind m \<noteq> Symlink then Inl EINVAL else io_readlink ops s (pn_inode n))))
       (ctx_resolve ops s cx path False)"

definition vfs_list_dir :: "('s, 'i) inode_ops \<Rightarrow> 's \<Rightarrow> 'i ctx \<Rightarrow> string \<Rightarrow> dir_entry list KResult option" where
  "vfs_list_dir ops s cx path =
     map_option (\<lambda>r. kbind r (\<lambda>n. kbind (io_metadata ops s (pn_inode n)) (\<lambda>m.
       if md_kind m \<noteq> Directory then Inl ENOTDIR
       else kbind (perm_check (cx_cred cx) m MAY_READ) (\<lambda>_. io_readdir ops s (pn_inode n)))))
       (ctx_resolve ops s cx path True)"

definition vfs_chdir :: "('s, 'i) inode_ops \<Rightarrow> 's \<Rightarrow> 'i ctx \<Rightarrow> string \<Rightarrow> 'i ctx KResult option" where
  "vfs_chdir ops s cx path =
     map_option (\<lambda>r. kbind r (\<lambda>n. kbind (io_metadata ops s (pn_inode n)) (\<lambda>m.
       if md_kind m \<noteq> Directory then Inl ENOTDIR
       else kbind (perm_check (cx_cred cx) m MAY_EXEC) (\<lambda>_. Inr (cx\<lparr>cx_cwd := n\<rparr>)))))
       (ctx_resolve ops s cx path True)"

section \<open>Changing the tree\<close>

definition trim_matches :: "char \<Rightarrow> string \<Rightarrow> string" where
  "trim_matches c s = trim_end_matches c (dropWhile (\<lambda>x. x = c) s)"

definition is_ok :: "'a KResult \<Rightarrow> bool" where
  "is_ok r = (case r of Inl _ \<Rightarrow> False | Inr _ \<Rightarrow> True)"

definition vfs_mkdir :: "('s, 'i) inode_ops \<Rightarrow> mflags \<Rightarrow> 's \<Rightarrow> 'i ctx \<Rightarrow> string \<Rightarrow> u16 \<Rightarrow> (unit, 's) effect" where
  "vfs_mkdir ops fl s cx path mode =
     (if trim_matches (CHR ''/'') path = [] then Some (Inl EEXIST, s)
      else on_path (ctx_resolve_parent ops s cx path) s (\<lambda>(dir, name).
        if is_dot name then Some (Inl EEXIST, s)
        else if is_ok (io_lookup ops s (pn_inode dir) name) then Some (Inl EEXIST, s)
        else on_ok (io_metadata ops s (pn_inode dir)) s (\<lambda>dmeta.
          on_ok (perm_check (cx_cred cx) dmeta (MAY_WRITE OR MAY_EXEC)) s (\<lambda>_.
            on_ok (check_rw_mount fl dir) s (\<lambda>_.
              let perm = (if md_perm dmeta AND 0x400 \<noteq> 0 then new_perm cx mode OR 0x400 else new_perm cx mode)
              in unit_of (io_create ops s (pn_inode dir) name Directory perm (cr_euid (cx_cred cx)) (new_gid cx dmeta) 0))))))"

definition vfs_mknod :: "('s, 'i) inode_ops \<Rightarrow> mflags \<Rightarrow> 's \<Rightarrow> 'i ctx \<Rightarrow> string \<Rightarrow> file_type \<Rightarrow> u16 \<Rightarrow> u64 \<Rightarrow> (unit, 's) effect" where
  "vfs_mknod ops fl s cx path kind mode rdev =
     on_path (ctx_resolve_parent ops s cx path) s (\<lambda>(dir, name).
       if is_ok (io_lookup ops s (pn_inode dir) name) then Some (Inl EEXIST, s)
       else if (kind = CharDevice \<or> kind = BlockDevice) \<and> \<not> is_root (cx_cred cx) then Some (Inl EPERM, s)
       else on_ok (io_metadata ops s (pn_inode dir)) s (\<lambda>dmeta.
         on_ok (perm_check (cx_cred cx) dmeta (MAY_WRITE OR MAY_EXEC)) s (\<lambda>_.
           on_ok (check_rw_mount fl dir) s (\<lambda>_.
             unit_of (io_create ops s (pn_inode dir) name kind (new_perm cx mode) (cr_euid (cx_cred cx)) (cr_egid (cx_cred cx)) rdev)))))"

definition vfs_rmdir :: "('s, 'i) inode_ops \<Rightarrow> mflags \<Rightarrow> 's \<Rightarrow> 'i ctx \<Rightarrow> string \<Rightarrow> (unit, 's) effect" where
  "vfs_rmdir ops fl s cx path =
     on_path (ctx_resolve_parent ops s cx path) s (\<lambda>(dir, name).
       if name = ''.'' then Some (Inl EINVAL, s)
       else if name = ''..'' then Some (Inl ENOTEMPTY, s)
       else on_path (ctx_resolve ops s cx path False) s (\<lambda>victim.
         on_ok (io_metadata ops s (pn_inode victim)) s (\<lambda>vmeta.
           if md_kind vmeta \<noteq> Directory then Some (Inl ENOTDIR, s)
           else if pn_mount victim \<noteq> pn_mount dir then Some (Inl EBUSY, s)
           else on_ok (io_metadata ops s (pn_inode dir)) s (\<lambda>dmeta.
             on_ok (may_delete (cx_cred cx) dmeta vmeta) s (\<lambda>_.
               on_ok (check_rw_mount fl dir) s (\<lambda>_. Some (io_rmdir ops s (pn_inode dir) name)))))))"

definition vfs_unlink :: "('s, 'i) inode_ops \<Rightarrow> mflags \<Rightarrow> 's \<Rightarrow> 'i ctx \<Rightarrow> string \<Rightarrow> (unit, 's) effect" where
  "vfs_unlink ops fl s cx path =
     on_path (ctx_resolve_parent ops s cx path) s (\<lambda>(dir, name).
       if is_dot name then Some (Inl EISDIR, s)
       else on_ok (io_lookup ops s (pn_inode dir) name) s (\<lambda>victim.
         on_ok (io_metadata ops s victim) s (\<lambda>vmeta.
           if md_kind vmeta = Directory then Some (Inl EISDIR, s)
           else on_ok (io_metadata ops s (pn_inode dir)) s (\<lambda>dmeta.
             on_ok (may_delete (cx_cred cx) dmeta vmeta) s (\<lambda>_.
               on_ok (check_rw_mount fl dir) s (\<lambda>_. Some (io_unlink ops s (pn_inode dir) name)))))))"

definition starts_with :: "string \<Rightarrow> string \<Rightarrow> bool" where
  "starts_with s p \<longleftrightarrow> take (length p) s = p"

definition into_own_subtree :: "'i path_node \<Rightarrow> string \<Rightarrow> 'i \<Rightarrow> 'i path_node \<Rightarrow> bool" where
  "into_own_subtree odir oname src ndir \<longleftrightarrow>
     (let src_path = node_path (node_child odir oname src); dst_parent = node_path ndir
      in dst_parent = src_path \<or> starts_with dst_parent (src_path @ ''/''))"

definition vfs_rename :: "('s, 'i) inode_ops \<Rightarrow> mflags \<Rightarrow> 's \<Rightarrow> 'i ctx \<Rightarrow> string \<Rightarrow> string \<Rightarrow> (unit, 's) effect" where
  "vfs_rename ops fl s cx from to =
     on_path (ctx_resolve_parent ops s cx from) s (\<lambda>(odir, oname).
       on_path (ctx_resolve_parent ops s cx to) s (\<lambda>(ndir, nname).
         if is_dot oname \<or> is_dot nname then Some (Inl EBUSY, s)
         else if pn_mount odir \<noteq> pn_mount ndir then Some (Inl EXDEV, s)
         else on_ok (io_lookup ops s (pn_inode odir) oname) s (\<lambda>src.
           on_ok (io_metadata ops s src) s (\<lambda>smeta.
             on_ok (io_metadata ops s (pn_inode odir)) s (\<lambda>ometa.
               on_ok (may_delete (cx_cred cx) ometa smeta) s (\<lambda>_.
                 on_ok (io_metadata ops s (pn_inode ndir)) s (\<lambda>nmeta.
                   on_ok (perm_check (cx_cred cx) nmeta (MAY_WRITE OR MAY_EXEC)) s (\<lambda>_.
                     on_ok (case io_lookup ops s (pn_inode ndir) nname of
                              Inl _ \<Rightarrow> Inr ()
                            | Inr existing \<Rightarrow> kbind (io_metadata ops s existing) (\<lambda>emeta. may_delete (cx_cred cx) nmeta emeta)) s (\<lambda>_.
                       on_ok (check_rw_mount fl odir) s (\<lambda>_.
                         if md_kind smeta = Directory \<and> into_own_subtree odir oname src ndir then Some (Inl EINVAL, s)
                         else Some (io_rename ops s (pn_inode odir) oname (pn_inode ndir) nname)))))))))))"

definition vfs_link :: "('s, 'i) inode_ops \<Rightarrow> mflags \<Rightarrow> 's \<Rightarrow> 'i ctx \<Rightarrow> string \<Rightarrow> string \<Rightarrow> (unit, 's) effect" where
  "vfs_link ops fl s cx target path =
     on_path (ctx_resolve ops s cx target False) s (\<lambda>t.
       on_path (ctx_resolve_parent ops s cx path) s (\<lambda>(dir, name).
         if pn_mount t \<noteq> pn_mount dir then Some (Inl EXDEV, s)
         else on_ok (io_metadata ops s (pn_inode t)) s (\<lambda>tmeta.
           if md_kind tmeta = Directory then Some (Inl EPERM, s)
           else if is_ok (io_lookup ops s (pn_inode dir) name) then Some (Inl EEXIST, s)
           else on_ok (io_metadata ops s (pn_inode dir)) s (\<lambda>dmeta.
             on_ok (perm_check (cx_cred cx) dmeta (MAY_WRITE OR MAY_EXEC)) s (\<lambda>_.
               on_ok (check_rw_mount fl dir) s (\<lambda>_. Some (io_link ops s (pn_inode dir) name (pn_inode t))))))))"

definition vfs_symlink :: "('s, 'i) inode_ops \<Rightarrow> mflags \<Rightarrow> 's \<Rightarrow> 'i ctx \<Rightarrow> string \<Rightarrow> string \<Rightarrow> (unit, 's) effect" where
  "vfs_symlink ops fl s cx target path =
     (if target = [] then Some (Inl ENOENT, s)
      else on_path (ctx_resolve_parent ops s cx path) s (\<lambda>(dir, name).
        if is_ok (io_lookup ops s (pn_inode dir) name) then Some (Inl EEXIST, s)
        else on_ok (io_metadata ops s (pn_inode dir)) s (\<lambda>dmeta.
          on_ok (perm_check (cx_cred cx) dmeta (MAY_WRITE OR MAY_EXEC)) s (\<lambda>_.
            on_ok (check_rw_mount fl dir) s (\<lambda>_.
              unit_of (io_symlink ops s (pn_inode dir) name target (cr_euid (cx_cred cx)) (cr_egid (cx_cred cx))))))))"

section \<open>Changing attributes\<close>

definition vfs_chmod :: "('s, 'i) inode_ops \<Rightarrow> mflags \<Rightarrow> 's \<Rightarrow> 'i ctx \<Rightarrow> string \<Rightarrow> u16 \<Rightarrow> bool \<Rightarrow> (unit, 's) effect" where
  "vfs_chmod ops fl s cx path mode follow =
     on_path (ctx_resolve ops s cx path follow) s (\<lambda>n.
       on_ok (io_metadata ops s (pn_inode n)) s (\<lambda>m.
         if \<not> is_owner (cx_cred cx) m then Some (Inl EPERM, s)
         else on_ok (check_rw_mount fl n) s (\<lambda>_.
           let mode' = mode AND 0xFFF;
               mode'' = (if \<not> is_root (cx_cred cx) \<and> \<not> in_group (cx_cred cx) (md_gid m) then mode' AND NOT 0x400 else mode')
           in Some (io_set_attr ops s (pn_inode n) (set_attr_default\<lparr>sa_perm := Some mode''\<rparr>)))))"

definition may_chown :: "cred \<Rightarrow> metadata \<Rightarrow> u32 option \<Rightarrow> u32 option \<Rightarrow> bool" where
  "may_chown c m uid gid \<longleftrightarrow>
     is_root c \<or>
     \<not> ((case uid of None \<Rightarrow> False | Some u \<Rightarrow> u \<noteq> md_uid m) \<or> cr_euid c \<noteq> md_uid m \<or>
        (case gid of None \<Rightarrow> False | Some g \<Rightarrow> \<not> in_group c g))"

definition vfs_chown :: "('s, 'i) inode_ops \<Rightarrow> mflags \<Rightarrow> 's \<Rightarrow> 'i ctx \<Rightarrow> string \<Rightarrow> u32 option \<Rightarrow> u32 option \<Rightarrow> bool \<Rightarrow> (unit, 's) effect" where
  "vfs_chown ops fl s cx path uid gid follow =
     on_path (ctx_resolve ops s cx path follow) s (\<lambda>n.
       on_ok (io_metadata ops s (pn_inode n)) s (\<lambda>m.
         if \<not> may_chown (cx_cred cx) m uid gid then Some (Inl EPERM, s)
         else on_ok (check_rw_mount fl n) s (\<lambda>_.
           let perm = (if md_kind m = Regular \<and> md_perm m AND 0xC00 \<noteq> 0 \<and> (uid \<noteq> None \<or> gid \<noteq> None)
                       then Some (md_perm m AND NOT 0xC00) else None)
           in Some (io_set_attr ops s (pn_inode n) (set_attr_default\<lparr>sa_uid := uid, sa_gid := gid, sa_perm := perm\<rparr>)))))"

definition vfs_truncate :: "('s, 'i) inode_ops \<Rightarrow> timespec \<Rightarrow> mflags \<Rightarrow> 's \<Rightarrow> 'i ctx \<Rightarrow> string \<Rightarrow> u64 \<Rightarrow> (unit, 's) effect" where
  "vfs_truncate ops now fl s cx path sz =
     on_path (ctx_resolve ops s cx path True) s (\<lambda>n.
       on_ok (io_metadata ops s (pn_inode n)) s (\<lambda>m.
         if md_kind m = Directory then Some (Inl EISDIR, s)
         else on_ok (perm_check (cx_cred cx) m MAY_WRITE) s (\<lambda>_.
           on_ok (check_rw_mount fl n) s (\<lambda>_. Some (io_set_attr ops s (pn_inode n) (truncate_attr sz now))))))"

definition vfs_utimes :: "('s, 'i) inode_ops \<Rightarrow> mflags \<Rightarrow> 's \<Rightarrow> 'i ctx \<Rightarrow> string \<Rightarrow> timespec option \<Rightarrow> timespec option \<Rightarrow> bool
    \<Rightarrow> (unit, 's) effect" where
  "vfs_utimes ops fl s cx path atime mtime follow =
     on_path (ctx_resolve ops s cx path follow) s (\<lambda>n.
       on_ok (io_metadata ops s (pn_inode n)) s (\<lambda>m.
         if \<not> is_owner (cx_cred cx) m \<and> \<not> is_ok (perm_check (cx_cred cx) m MAY_WRITE) then Some (Inl EACCES, s)
         else on_ok (check_rw_mount fl n) s (\<lambda>_.
           Some (io_set_attr ops s (pn_inode n) (set_attr_default\<lparr>sa_atime := atime, sa_mtime := mtime\<rparr>)))))"

section \<open>Whole trees\<close>

fun mkdir_prefixes :: "('s, 'i) inode_ops \<Rightarrow> mflags \<Rightarrow> 's \<Rightarrow> 'i ctx \<Rightarrow> string \<Rightarrow> string list \<Rightarrow> u16 \<Rightarrow> (unit, 's) effect" where
  "mkdir_prefixes ops fl s cx cur [] mode = Some (Inr (), s)"
| "mkdir_prefixes ops fl s cx cur (c # cs) mode =
     (let cur' = (if cur \<noteq> [] \<and> \<not> ends_with_slash cur then cur @ ''/'' else cur) @ c in
      case vfs_mkdir ops fl s cx cur' mode of
        None \<Rightarrow> None
      | Some (Inl e, s') \<Rightarrow> if e = EEXIST then mkdir_prefixes ops fl s' cx cur' cs mode else Some (Inl e, s')
      | Some (Inr _, s') \<Rightarrow> mkdir_prefixes ops fl s' cx cur' cs mode)"

definition vfs_mkdir_all :: "('s, 'i) inode_ops \<Rightarrow> mflags \<Rightarrow> 's \<Rightarrow> 'i ctx \<Rightarrow> string \<Rightarrow> u16 \<Rightarrow> (unit, 's) effect" where
  "vfs_mkdir_all ops fl s cx path mode =
     (case mkdir_prefixes ops fl s cx (if is_absolute path then ''/'' else []) (path_comps path) mode of
        None \<Rightarrow> None
      | Some (Inl e, s') \<Rightarrow> Some (Inl e, s')
      | Some (Inr _, s') \<Rightarrow>
          on_path (vfs_stat ops s' cx path True) s' (\<lambda>m.
            if md_kind m \<noteq> Directory then Some (Inl ENOTDIR, s') else Some (Inr (), s')))"

text \<open>
  \<^verbatim>\<open>remove_tree\<close>, and its loop over the entries of a directory. The recursion descends through ever longer paths; the first
  argument bounds its depth.
\<close>

fun remove_tree :: "nat \<Rightarrow> ('s, 'i) inode_ops \<Rightarrow> mflags \<Rightarrow> 's \<Rightarrow> 'i ctx \<Rightarrow> string \<Rightarrow> (unit, 's) effect"
  and remove_entries :: "nat \<Rightarrow> ('s, 'i) inode_ops \<Rightarrow> mflags \<Rightarrow> 's \<Rightarrow> 'i ctx \<Rightarrow> string \<Rightarrow> 'i path_node \<Rightarrow> string list
    \<Rightarrow> (unit, 's) effect" where
  "remove_tree 0 ops fl s cx path = None"
| "remove_tree (Suc n) ops fl s cx path =
     (case vfs_stat ops s cx path False of
        None \<Rightarrow> None
      | Some (Inl e) \<Rightarrow> Some (if e = ENOENT then Inr () else Inl e, s)
      | Some (Inr meta) \<Rightarrow>
          if md_kind meta \<noteq> Directory then vfs_unlink ops fl s cx path
          else on_path (ctx_resolve ops s cx path False) s (\<lambda>node.
            on_ok (io_readdir ops s (pn_inode node)) s (\<lambda>es.
              case remove_entries n ops fl s cx path node (map de_name es) of
                None \<Rightarrow> None
              | Some (Inl e, s') \<Rightarrow> Some (Inl e, s')
              | Some (Inr _, s') \<Rightarrow> vfs_rmdir ops fl s' cx path)))"
| "remove_entries n ops fl s cx path node [] = Some (Inr (), s)"
| "remove_entries n ops fl s cx path node (nm # nms) =
     (let child = trim_end_matches (CHR ''/'') path @ ''/'' @ nm in
      on_path (ctx_resolve ops s cx child False) s (\<lambda>cn.
        if pn_mount cn \<noteq> pn_mount node then Some (Inl EBUSY, s)
        else case remove_tree n ops fl s cx child of
          None \<Rightarrow> None
        | Some (Inl e, s') \<Rightarrow> Some (Inl e, s')
        | Some (Inr _, s') \<Rightarrow> remove_entries n ops fl s' cx path node nms))"
section \<open>Calls that change the file system\<close>

datatype vfs_call =
    COpen string u32 u16
  | CMkdir string u16
  | CMknod string file_type u16 u64
  | CRmdir string
  | CUnlink string
  | CRename string string
  | CLink string string
  | CSymlink string string
  | CChmod string u16 bool
  | CChown string "u32 option" "u32 option" bool
  | CTruncate string u64
  | CUtimes string "timespec option" "timespec option" bool

text \<open>The state after a call, for any outcome.\<close>

fun after_call :: "('s, 'i) inode_ops \<Rightarrow> ('s \<Rightarrow> 'i \<Rightarrow> u32 \<Rightarrow> 'f option KResult) \<Rightarrow> timespec \<Rightarrow> mflags \<Rightarrow> 's \<Rightarrow> 'i ctx \<Rightarrow> vfs_call \<Rightarrow> 's option" where
  "after_call ops spec now fl s cx (COpen p flags mode) = map_option snd (vfs_open ops spec now fl s cx p flags mode)"
| "after_call ops spec now fl s cx (CMkdir p mode) = map_option snd (vfs_mkdir ops fl s cx p mode)"
| "after_call ops spec now fl s cx (CMknod p k mode rdev) = map_option snd (vfs_mknod ops fl s cx p k mode rdev)"
| "after_call ops spec now fl s cx (CRmdir p) = map_option snd (vfs_rmdir ops fl s cx p)"
| "after_call ops spec now fl s cx (CUnlink p) = map_option snd (vfs_unlink ops fl s cx p)"
| "after_call ops spec now fl s cx (CRename p q) = map_option snd (vfs_rename ops fl s cx p q)"
| "after_call ops spec now fl s cx (CLink p q) = map_option snd (vfs_link ops fl s cx p q)"
| "after_call ops spec now fl s cx (CSymlink p q) = map_option snd (vfs_symlink ops fl s cx p q)"
| "after_call ops spec now fl s cx (CChmod p mode fo) = map_option snd (vfs_chmod ops fl s cx p mode fo)"
| "after_call ops spec now fl s cx (CChown p u g fo) = map_option snd (vfs_chown ops fl s cx p u g fo)"
| "after_call ops spec now fl s cx (CTruncate p sz) = map_option snd (vfs_truncate ops now fl s cx p sz)"
| "after_call ops spec now fl s cx (CUtimes p a m fo) = map_option snd (vfs_utimes ops fl s cx p a m fo)"

text \<open>
  What must hold of the node a call works on: it lies under the caller's root, its mount is writable and its metadata
  grants what the kind of call needs.
\<close>

definition granted :: "('s, 'i) inode_ops \<Rightarrow> mflags \<Rightarrow> 's \<Rightarrow> 'i ctx \<Rightarrow> (metadata \<Rightarrow> bool) \<Rightarrow> 'i path_node \<Rightarrow> bool" where
  "granted ops fl s cx need n \<longleftrightarrow>
     under (cx_root cx) n \<and> \<not> mf_read_only (fl (pn_mount n)) \<and> (\<exists>m. io_metadata ops s (pn_inode n) = Inr m \<and> need m)"

definition may_enter_names :: "'i ctx \<Rightarrow> metadata \<Rightarrow> bool" where
  "may_enter_names cx m \<longleftrightarrow> perm_check (cx_cred cx) m (MAY_WRITE OR MAY_EXEC) = Inr ()"

definition may_remove :: "('s, 'i) inode_ops \<Rightarrow> 's \<Rightarrow> 'i ctx \<Rightarrow> 'i \<Rightarrow> metadata \<Rightarrow> bool" where
  "may_remove ops s cx v m \<longleftrightarrow> (\<exists>vm. io_metadata ops s v = Inr vm \<and> may_delete (cx_cred cx) m vm = Inr ())"

text \<open>New names at a path, a named entry of its directory, the object at a path.\<close>

definition enter_granted :: "('s, 'i) inode_ops \<Rightarrow> mflags \<Rightarrow> 's \<Rightarrow> 'i ctx \<Rightarrow> string \<Rightarrow> bool" where
  "enter_granted ops fl s cx p \<longleftrightarrow>
     (\<exists>dir name. ctx_resolve_parent ops s cx p = Some (Inr (dir, name)) \<and> granted ops fl s cx (may_enter_names cx) dir)"

definition entry_granted :: "('s, 'i) inode_ops \<Rightarrow> mflags \<Rightarrow> 's \<Rightarrow> 'i ctx \<Rightarrow> string \<Rightarrow> bool" where
  "entry_granted ops fl s cx p \<longleftrightarrow>
     (\<exists>dir name v. ctx_resolve_parent ops s cx p = Some (Inr (dir, name)) \<and> io_lookup ops s (pn_inode dir) name = Inr v \<and>
        granted ops fl s cx (may_remove ops s cx v) dir)"

definition node_granted :: "('s, 'i) inode_ops \<Rightarrow> mflags \<Rightarrow> 's \<Rightarrow> 'i ctx \<Rightarrow> string \<Rightarrow> bool \<Rightarrow> (metadata \<Rightarrow> bool) \<Rightarrow> bool" where
  "node_granted ops fl s cx p fo need \<longleftrightarrow> (\<exists>n. ctx_resolve ops s cx p fo = Some (Inr n) \<and> granted ops fl s cx need n)"

definition may_write :: "'i ctx \<Rightarrow> metadata \<Rightarrow> bool" where
  "may_write cx m \<longleftrightarrow> perm_check (cx_cred cx) m MAY_WRITE = Inr ()"

fun authorised :: "('s, 'i) inode_ops \<Rightarrow> mflags \<Rightarrow> 's \<Rightarrow> 'i ctx \<Rightarrow> vfs_call \<Rightarrow> bool" where
  "authorised ops fl s cx (COpen p flags mode) \<longleftrightarrow>
     enter_granted ops fl s cx p \<or> node_granted ops fl s cx p (flags AND O_NOFOLLOW = 0) (may_write cx)"
| "authorised ops fl s cx (CMkdir p mode) \<longleftrightarrow> enter_granted ops fl s cx p"
| "authorised ops fl s cx (CMknod p k mode rdev) \<longleftrightarrow>
     enter_granted ops fl s cx p \<and> (k = CharDevice \<or> k = BlockDevice \<longrightarrow> is_root (cx_cred cx))"
| "authorised ops fl s cx (CRmdir p) \<longleftrightarrow>
     (\<exists>dir name v. ctx_resolve_parent ops s cx p = Some (Inr (dir, name)) \<and> ctx_resolve ops s cx p False = Some (Inr v) \<and>
        pn_mount v = pn_mount dir \<and> granted ops fl s cx (may_remove ops s cx (pn_inode v)) dir)"
| "authorised ops fl s cx (CUnlink p) \<longleftrightarrow> entry_granted ops fl s cx p"
| "authorised ops fl s cx (CRename p q) \<longleftrightarrow>
     entry_granted ops fl s cx p \<and> enter_granted ops fl s cx q \<and>
     (\<forall>dir name v. ctx_resolve_parent ops s cx q = Some (Inr (dir, name)) \<and> io_lookup ops s (pn_inode dir) name = Inr v
        \<longrightarrow> granted ops fl s cx (may_remove ops s cx v) dir)"
| "authorised ops fl s cx (CLink q p) \<longleftrightarrow> enter_granted ops fl s cx p"
| "authorised ops fl s cx (CSymlink q p) \<longleftrightarrow> enter_granted ops fl s cx p"
| "authorised ops fl s cx (CChmod p mode fo) \<longleftrightarrow> node_granted ops fl s cx p fo (is_owner (cx_cred cx))"
| "authorised ops fl s cx (CChown p u g fo) \<longleftrightarrow> node_granted ops fl s cx p fo (\<lambda>m. may_chown (cx_cred cx) m u g)"
| "authorised ops fl s cx (CTruncate p sz) \<longleftrightarrow> node_granted ops fl s cx p True (may_write cx)"
| "authorised ops fl s cx (CUtimes p a m fo) \<longleftrightarrow> node_granted ops fl s cx p fo (\<lambda>m. is_owner (cx_cred cx) m \<or> may_write cx m)"

text \<open>A call that changed the state passed every check on its way.\<close>

lemma changed_ok: "on_ok r s f = Some (x, s') \<Longrightarrow> s' \<noteq> s \<Longrightarrow> \<exists>y. r = Inr y \<and> f y = Some (x, s')"
  by (auto simp: on_ok_def split: sum.splits)

lemma changed_path: "on_path r s f = Some (x, s') \<Longrightarrow> s' \<noteq> s \<Longrightarrow> \<exists>y. r = Some (Inr y) \<and> f y = Some (x, s')"
  by (auto simp: on_path_def split: sum.splits option.splits)

lemma check_rw_ok: "check_rw_mount fl n = Inr u \<longleftrightarrow> \<not> mf_read_only (fl (pn_mount n))"
  by (simp add: check_rw_mount_def)

lemma resolved_under:
  assumes "under (cx_root cx) (cx_cwd cx)"
  shows "ctx_resolve ops s cx p fo = Some (Inr n) \<Longrightarrow> under (cx_root cx) n"
    and "ctx_resolve_parent ops s cx p = Some (Inr (dir, name)) \<Longrightarrow> under (cx_root cx) dir"
  using confined.resolve_keeps [of ops s "ctx_resolver cx"] confined.resolve_parent_keeps [of ops s "ctx_resolver cx"] assms
  by (auto simp: ctx_resolve_def ctx_resolve_parent_def ctx_resolver_def)

lemma is_ok_iff: "is_ok r \<longleftrightarrow> (\<exists>x. r = Inr x)"
  by (auto simp: is_ok_def split: sum.split)
lemma changed_if: "(if b then Some (Inl e, s) else x) = Some (r, s') \<Longrightarrow> s' \<noteq> s \<Longrightarrow> \<not> b \<and> x = Some (r, s')"
  by (auto split: if_splits)

lemmas changed = changed_ok changed_path changed_if

lemmas granted_defs = granted_def may_enter_names_def may_remove_def check_rw_ok enter_granted_def entry_granted_def node_granted_def
  may_write_def

lemma creating_granted:
  assumes "under (cx_root cx) (cx_cwd cx)" "s' \<noteq> s"
  shows "vfs_mkdir ops fl s cx p mode = Some (r, s') \<Longrightarrow> authorised ops fl s cx (CMkdir p mode)"
    and "vfs_mknod ops fl s cx p k mode rdev = Some (r, s') \<Longrightarrow> authorised ops fl s cx (CMknod p k mode rdev)"
    and "vfs_link ops fl s cx q p = Some (r, s') \<Longrightarrow> authorised ops fl s cx (CLink q p)"
    and "vfs_symlink ops fl s cx q p = Some (r, s') \<Longrightarrow> authorised ops fl s cx (CSymlink q p)"
  using assms(2) resolved_under(2) [OF assms(1)]
  unfolding vfs_mkdir_def vfs_mknod_def vfs_link_def vfs_symlink_def
  by (fastforce simp: granted_defs dest!: changed split: prod.splits)+

lemma removing_granted:
  assumes "under (cx_root cx) (cx_cwd cx)" "s' \<noteq> s"
  shows "vfs_rmdir ops fl s cx p = Some (r, s') \<Longrightarrow> authorised ops fl s cx (CRmdir p)"
    and "vfs_unlink ops fl s cx p = Some (r, s') \<Longrightarrow> authorised ops fl s cx (CUnlink p)"
  using assms(2) resolved_under(2) [OF assms(1)]
  unfolding vfs_rmdir_def vfs_unlink_def
  by (fastforce simp: granted_defs dest!: changed split: prod.splits)+

lemma rename_granted:
  assumes "under (cx_root cx) (cx_cwd cx)" "s' \<noteq> s" "vfs_rename ops fl s cx p q = Some (r, s')"
  shows "authorised ops fl s cx (CRename p q)"
  using assms(2,3) resolved_under(2) [OF assms(1)] unfolding vfs_rename_def
  by (fastforce simp: granted_defs kbind_Inr dest!: changed split: prod.splits sum.splits)

lemma attribute_granted:
  assumes "under (cx_root cx) (cx_cwd cx)" "s' \<noteq> s"
  shows "vfs_chmod ops fl s cx p mode fo = Some (r, s') \<Longrightarrow> authorised ops fl s cx (CChmod p mode fo)"
    and "vfs_chown ops fl s cx p u g fo = Some (r, s') \<Longrightarrow> authorised ops fl s cx (CChown p u g fo)"
    and "vfs_truncate ops now fl s cx p sz = Some (r, s') \<Longrightarrow> authorised ops fl s cx (CTruncate p sz)"
    and "vfs_utimes ops fl s cx p a t fo = Some (r, s') \<Longrightarrow> authorised ops fl s cx (CUtimes p a t fo)"
  using assms(2) resolved_under(1) [OF assms(1)]
  unfolding vfs_chmod_def vfs_chown_def vfs_truncate_def vfs_utimes_def
  by (fastforce simp: granted_defs is_ok_iff dest!: changed)+
lemma open_node_granted:
  assumes "under (cx_root cx) n" "flags AND O_PATH = 0" "s' \<noteq> s" "open_node ops spec now fl s cx n flags = Some (r, s')"
  shows "granted ops fl s cx (may_write cx) n"
proof -
  obtain meta f where m: "io_metadata ops s (pn_inode n) = Inr meta" "md_kind meta \<noteq> Symlink"
      "perm_check (cx_cred cx) meta (open_mask flags) = Inr ()"
      "(if want_write flags \<and> md_kind meta = Regular then check_rw_mount fl n else Inr ()) = Inr ()"
    and f: "(case f of Some g \<Rightarrow> Some (Inr (Special g), s)
             | None \<Rightarrow>
                 if flags AND O_TRUNC \<noteq> 0 \<and> md_kind meta = Regular \<and> md_size meta \<noteq> 0 then
                   (case io_set_attr ops s (pn_inode n) (truncate_attr 0 now) of
                      (Inl e, s') \<Rightarrow> Some (Inl e, s')
                    | (Inr _, s') \<Rightarrow> Some (Inr (InodeFile n (file_flags flags)), s'))
                 else Some (Inr (InodeFile n (file_flags flags)), s)) = Some (r, s')"
    using assms(2-4) unfolding open_node_def by (fastforce dest!: changed)
  have t: "flags AND O_TRUNC \<noteq> 0 \<and> md_kind meta = Regular"
    using f assms(3) by (auto split: option.splits if_splits)
  then have w: "want_write flags" by (simp add: want_write_def)
  then have "perm_check (cx_cred cx) meta MAY_WRITE = Inr ()"
    using m(3) perm_check_mono [of "cx_cred cx" meta MAY_WRITE] by (simp add: open_mask_def or.commute [of _ MAY_WRITE])
  then show ?thesis using assms(1) m(1,4) w t by (auto simp: granted_def check_rw_ok may_write_def)
qed

lemma open_granted:
  assumes "under (cx_root cx) (cx_cwd cx)" "flags AND O_PATH = 0" "s' \<noteq> s" "vfs_open ops spec now fl s cx p flags mode = Some (r, s')"
  shows "authorised ops fl s cx (COpen p flags mode)"
proof -
  consider (node) n where "ctx_resolve ops s cx p (flags AND O_NOFOLLOW = 0) = Some (Inr n)" "open_node ops spec now fl s cx n flags = Some (r, s')"
    | (create) dir name where "ctx_resolve_parent ops s cx p = Some (Inr (dir, name))"
        "open_create ops fl s cx dir name flags mode = Some (r, s')"
    using assms(3,4) unfolding vfs_open_def
    by (fastforce dest!: changed_path split: if_splits option.splits sum.splits)
  then show ?thesis
  proof cases
    case node
    then have "granted ops fl s cx (may_write cx) n"
      using resolved_under(1) [OF assms(1)] assms(2,3) by (intro open_node_granted)
    then show ?thesis using node(1) by (auto simp: node_granted_def)
  next
    case create
    then show ?thesis
      using resolved_under(2) [OF assms(1)] assms(3) unfolding open_create_def
      by (fastforce simp: granted_defs dest!: changed)
  qed
qed

section \<open>Theorems\<close>

text \<open>The example of \<open>Tmpfs\<close> seen by a process: the root directory holds one file \<^verbatim>\<open>f\<close>, owned by root, mode 644.\<close>

definition example_ctx :: "cred \<Rightarrow> nat ctx" where
  "example_ctx c = \<lparr>cx_ns = ns_new 1 1 ''tmpfs'', cx_root = PathNode 1 1 [] None, cx_cwd = PathNode 1 1 [] None,
     cx_umask = 0, cx_cred = c\<rparr>"

definition writable_mounts :: mflags where
  "writable_mounts m = MF_RW"

definition no_special :: "'s \<Rightarrow> 'i \<Rightarrow> u32 \<Rightarrow> unit option KResult" where
  "no_special s i flags = Inr None"

definition epoch :: timespec where "epoch = \<lparr>ts_sec = 0, ts_nsec = 0\<rparr>"

lemmas example_eval = example_ctx_def writable_mounts_def MF_RW_def no_special_def epoch_def example_fs_def tmpfs_ops_def tmpfs_new_def
  tmpfs_named_def link_new_def alloc_node_def add_child_def store_defs tnode_def new_node_def with_nlink_def Let_def
  tmp_create_def tmp_metadata_def tmp_lookup_def node_kind_def
  ctx_resolve_def ctx_resolve_parent_def ctx_resolver_def resolve_parent_def resolve_def walk.simps example_defs
  inode_is_dir_def on_path_def on_ok_def unit_of_def is_dot_def check_rw_mount_def new_perm_def new_gid_def
  trim_matches_def is_ok_def trim_end_matches_def rsplit_slash_def bt_get_def


text \<open>
  With \<^verbatim>\<open>O_PATH\<close> the permission check is skipped but the truncation is not: a user who may not write \<^verbatim>\<open>/f\<close>, three bytes
  long and owned by root, empties it.
\<close>

lemma opath_truncates_unchecked:
  fixes s :: tmpfs and cx :: "nat ctx"
  defines "s \<equiv> snd (tmp_truncate (example_fs 0) 2 3)" and "cx \<equiv> example_ctx (cred_user 1000 1000 [])"
  shows "vfs_access tmpfs_ops writable_mounts s cx ''/f'' MAY_WRITE = Some (Inl EACCES)"
    and "map_option (\<lambda>(r, s'). (is_ok r, length (tmp_content s' 2)))
           (vfs_open tmpfs_ops no_special epoch writable_mounts s cx ''/f'' (O_PATH OR O_TRUNC) 0) = Some (True, 0)"
    and "length (tmp_content s 2) = 3"
  by (simp_all add: s_def cx_def vfs_access_def vfs_open_def open_node_def want_write_def O_PATH_def O_TRUNC_def O_CREAT_def O_NOFOLLOW_def O_DIRECTORY_def O_ACCMODE_def O_WRONLY_def O_RDWR_def truncate_attr_def example_eval
      tmp_truncate_def truncate_pages_def tmp_set_attr_def set_attr_default_def tmp_content_def content_def cred_user_def MAY_WRITE_def)

text \<open>
  Making a link whose path ends in \<^verbatim>\<open>..\<close> enters that name in the directory. No call removes it again: unlinking answers
  \<^verbatim>\<open>EISDIR\<close>, and the directory stays nonempty for good.
\<close>

lemma symlink_named_dotdot:
  fixes s1 s2 :: tmpfs
  defines "s1 \<equiv> snd (the (vfs_mkdir tmpfs_ops writable_mounts (tmpfs_new 1 0 epoch) (example_ctx cred_root) ''/d'' 0x1ED))"
    and "s2 \<equiv> snd (the (vfs_symlink tmpfs_ops writable_mounts s1 (example_ctx cred_root) ''x'' ''/d/..''))"
  shows "tmp_lookup s2 2 ''..'' = Inr 3"
    and "vfs_unlink tmpfs_ops writable_mounts s2 (example_ctx cred_root) ''/d/..'' = Some (Inl EISDIR, s2)"
    and "vfs_rmdir tmpfs_ops writable_mounts s2 (example_ctx cred_root) ''/d'' = Some (Inl ENOTEMPTY, s2)"
  by (simp_all add: s1_def s2_def vfs_mkdir_def vfs_symlink_def vfs_unlink_def vfs_rmdir_def tmp_symlink_def tmp_rmdir_def is_empty_dir_def
      may_delete_def example_eval)

end
