(* ===== verification/Vfs_Tmpfs.thy ===== *)
theory Vfs_Tmpfs
  imports Vfs_Ops Tmpfs_Tree
begin

unbundle bit_operations_syntax

text \<open>
  The operations of \<open>Vfs_Ops\<close> composed with the tmpfs of \<open>Tmpfs\<close>: what the operations need of a file system in order
  to end and to keep its invariant is the locale \<open>vfs_store\<close>, and tmpfs provides it.
\<close>

section \<open>Processes whose directories exist\<close>

fun chain_valid :: "('i \<Rightarrow> bool) \<Rightarrow> 'i path_node \<Rightarrow> bool" where
  "chain_valid V (PathNode m i nm None) = V i"
| "chain_valid V (PathNode m i nm (Some p)) = (V i \<and> chain_valid V p)"

definition ctx_valid :: "('i \<Rightarrow> bool) \<Rightarrow> 'i ctx \<Rightarrow> bool" where
  "ctx_valid V cx \<longleftrightarrow> chain_valid V (cx_root cx) \<and> chain_valid V (cx_cwd cx) \<and> (\<forall>m\<in>set (ns_mounts (cx_ns cx)). V (mt_root m))"

definition keeps :: "('s \<Rightarrow> bool) \<Rightarrow> ('s \<Rightarrow> 'i \<Rightarrow> bool) \<Rightarrow> 's \<Rightarrow> 's \<Rightarrow> bool" where
  "keeps I V s s' \<longleftrightarrow> I s' \<and> (\<forall>j. V s j \<longrightarrow> V s' j)"

definition entry_name :: "string \<Rightarrow> bool" where
  "entry_name nm \<longleftrightarrow> nm \<noteq> [] \<and> CHR ''/'' \<notin> set nm"

lemma keeps_refl: "I s \<Longrightarrow> keeps I V s s"
  by (simp add: keeps_def)

lemma keeps_trans: "keeps I V s s1 \<Longrightarrow> keeps I V s1 s2 \<Longrightarrow> keeps I V s s2"
  by (simp add: keeps_def)

lemma chain_valid_mono: "chain_valid V n \<Longrightarrow> (\<And>i. V i \<Longrightarrow> W i) \<Longrightarrow> chain_valid W n"
  by (induction V n rule: chain_valid.induct) auto

lemma ctx_valid_mono: "ctx_valid (V s) cx \<Longrightarrow> keeps I V s s' \<Longrightarrow> ctx_valid (V s') cx"
  by (auto simp: ctx_valid_def keeps_def intro: chain_valid_mono)

lemma chain_valid_child: "chain_valid V p \<Longrightarrow> V i \<Longrightarrow> chain_valid V (node_child p nm i)"
  by (simp add: node_child_def)

lemma chain_valid_inode: "chain_valid V n \<Longrightarrow> V (pn_inode n)"
  by (cases "(V, n)" rule: chain_valid.cases) auto

lemma chain_valid_parent: "chain_valid V n \<Longrightarrow> pn_parent n = Some p \<Longrightarrow> chain_valid V p"
  by (cases "(V, n)" rule: chain_valid.cases) auto

lemma chain_valid_replace: "chain_valid V n \<Longrightarrow> V j \<Longrightarrow> chain_valid V (PathNode m j nm (pn_parent n))"
  by (cases "(V, n)" rule: chain_valid.cases) auto

lemma cross_mounts_valid:
  assumes "\<forall>m\<in>set (ns_mounts ns). V (mt_root m)"
  shows "cross_mounts k ops s ns node = Some node' \<Longrightarrow> chain_valid V node \<Longrightarrow> chain_valid V node'"
proof (induction k arbitrary: node)
  case (Suc k)
  show ?case
  proof (cases "mounted_on ns (pn_mount node) (inode_id ops s (pn_inode node))")
    case (Some m)
    then have "m \<in> set (ns_mounts ns)" by (auto simp: mounted_on_def find_Some_iff) (metis length_rev nth_mem set_rev)
    then show ?thesis using Suc Some assms by (auto intro: chain_valid_replace)
  qed (use Suc in simp)
qed simp

lemma parent_name:
  assumes "ctx_resolve_parent ops s cx p = Some (Inr (dir, nm))"
  shows "entry_name nm"
proof -
  have "entry_name (rev (takeWhile (\<lambda>c. c \<noteq> CHR ''/'') (rev (trim_end_matches (CHR ''/'') p))))"
    if "trim_end_matches (CHR ''/'') p \<noteq> []"
    using that hd_dropWhile [of "\<lambda>x. x = CHR ''/''" "rev p"]
    by (auto simp: entry_name_def trim_end_matches_def takeWhile_eq_Nil_iff dest: set_takeWhileD)
  then show ?thesis using assms
    by (auto simp: ctx_resolve_parent_def resolve_parent_def rsplit_slash_def entry_name_def Let_def
        split: if_splits option.splits sum.splits)
qed
section \<open>The one operation a call performs\<close>

lemma creating_final:
  assumes "s' \<noteq> s"
  shows "vfs_mkdir ops fl s cx p mode = Some (r, s') \<Longrightarrow> \<exists>dir nm perm uid gid. ctx_resolve_parent ops s cx p = Some (Inr (dir, nm)) \<and>
      s' = snd (io_create ops s (pn_inode dir) nm Directory perm uid gid 0)"
    and "vfs_mknod ops fl s cx p k mode rdev = Some (r, s') \<Longrightarrow> \<exists>dir nm perm uid gid.
      ctx_resolve_parent ops s cx p = Some (Inr (dir, nm)) \<and> s' = snd (io_create ops s (pn_inode dir) nm k perm uid gid rdev)"
    and "vfs_link ops fl s cx q p = Some (r, s') \<Longrightarrow> \<exists>dir nm t. ctx_resolve_parent ops s cx p = Some (Inr (dir, nm)) \<and>
      ctx_resolve ops s cx q False = Some (Inr t) \<and> s' = snd (io_link ops s (pn_inode dir) nm (pn_inode t))"
    and "vfs_symlink ops fl s cx q p = Some (r, s') \<Longrightarrow> \<exists>dir nm uid gid. ctx_resolve_parent ops s cx p = Some (Inr (dir, nm)) \<and>
      s' = snd (io_symlink ops s (pn_inode dir) nm q uid gid)"
  using assms unfolding vfs_mkdir_def vfs_mknod_def vfs_link_def vfs_symlink_def unit_of_def Let_def
  by (auto dest!: changed split: prod.splits; metis snd_conv)+

lemma removing_final:
  assumes "s' \<noteq> s"
  shows "vfs_rmdir ops fl s cx p = Some (r, s') \<Longrightarrow> \<exists>dir nm. ctx_resolve_parent ops s cx p = Some (Inr (dir, nm)) \<and>
      s' = snd (io_rmdir ops s (pn_inode dir) nm)"
    and "vfs_unlink ops fl s cx p = Some (r, s') \<Longrightarrow> \<exists>dir nm. ctx_resolve_parent ops s cx p = Some (Inr (dir, nm)) \<and>
      s' = snd (io_unlink ops s (pn_inode dir) nm)"
    and "vfs_rename ops fl s cx p q = Some (r, s') \<Longrightarrow> \<exists>dir nm dir' nm'. ctx_resolve_parent ops s cx p = Some (Inr (dir, nm)) \<and>
      ctx_resolve_parent ops s cx q = Some (Inr (dir', nm')) \<and> s' = snd (io_rename ops s (pn_inode dir) nm (pn_inode dir') nm')"
  using assms unfolding vfs_rmdir_def vfs_unlink_def vfs_rename_def
  by (auto dest!: changed split: prod.splits; metis snd_conv)+

lemma attributes_final:
  assumes "s' \<noteq> s"
  shows "vfs_chmod ops fl s cx p mode fo = Some (r, s') \<Longrightarrow> \<exists>n a. ctx_resolve ops s cx p fo = Some (Inr n) \<and>
      s' = snd (io_set_attr ops s (pn_inode n) a)"
    and "vfs_chown ops fl s cx p u g fo = Some (r, s') \<Longrightarrow> \<exists>n a. ctx_resolve ops s cx p fo = Some (Inr n) \<and>
      s' = snd (io_set_attr ops s (pn_inode n) a)"
    and "vfs_truncate ops now fl s cx p sz = Some (r, s') \<Longrightarrow> \<exists>n a. ctx_resolve ops s cx p True = Some (Inr n) \<and>
      s' = snd (io_set_attr ops s (pn_inode n) a)"
    and "vfs_utimes ops fl s cx p at t fo = Some (r, s') \<Longrightarrow> \<exists>n a. ctx_resolve ops s cx p fo = Some (Inr n) \<and>
      s' = snd (io_set_attr ops s (pn_inode n) a)"
  using assms unfolding vfs_chmod_def vfs_chown_def vfs_truncate_def vfs_utimes_def Let_def
  by (auto dest!: changed; metis snd_conv)+

lemma open_final:
  assumes "s' \<noteq> s" "vfs_open ops spec now fl s cx p flags mode = Some (r, s')"
  shows "(\<exists>dir nm perm uid gid. ctx_resolve_parent ops s cx p = Some (Inr (dir, nm)) \<and>
      s' = snd (io_create ops s (pn_inode dir) nm Regular perm uid gid 0)) \<or>
    (\<exists>n fo a. ctx_resolve ops s cx p fo = Some (Inr n) \<and> s' = snd (io_set_attr ops s (pn_inode n) a))"
proof -
  consider (node) n fo where "ctx_resolve ops s cx p fo = Some (Inr n)" "open_node ops spec now fl s cx n flags = Some (r, s')"
    | (create) dir name where "ctx_resolve_parent ops s cx p = Some (Inr (dir, name))"
        "open_create ops fl s cx dir name flags mode = Some (r, s')"
    using assms unfolding vfs_open_def
    by (fastforce dest!: changed_path split: if_splits option.splits sum.splits)
  then show ?thesis
  proof cases
    case node
    have "\<exists>a. s' = snd (io_set_attr ops s (pn_inode n) a)"
      using node(2) assms(1) unfolding open_node_def
      by (auto dest!: changed split: option.splits if_splits prod.splits sum.splits; metis snd_conv)
    then show ?thesis using node(1) by blast
  next
    case create
    have "\<exists>perm uid gid. s' = snd (io_create ops s (pn_inode dir) name Regular perm uid gid 0)"
      using create(2) assms(1) unfolding open_create_def
      by (auto dest!: changed split: option.splits if_splits prod.splits sum.splits; metis snd_conv)
    then show ?thesis using create(1) by blast
  qed
qed

inductive effect_on :: "('s, 'i) inode_ops \<Rightarrow> 's \<Rightarrow> 'i ctx \<Rightarrow> 's \<Rightarrow> bool"
  for ops :: "('s, 'i) inode_ops" and s :: 's and cx :: "'i ctx" where
  "ctx_resolve_parent ops s cx p = Some (Inr (dir, nm)) \<Longrightarrow> effect_on ops s cx (snd (io_create ops s (pn_inode dir) nm k perm uid gid rdev))"
| "ctx_resolve_parent ops s cx p = Some (Inr (dir, nm)) \<Longrightarrow> effect_on ops s cx (snd (io_symlink ops s (pn_inode dir) nm target uid gid))"
| "ctx_resolve_parent ops s cx p = Some (Inr (dir, nm)) \<Longrightarrow> ctx_resolve ops s cx q fo = Some (Inr t) \<Longrightarrow>
     effect_on ops s cx (snd (io_link ops s (pn_inode dir) nm (pn_inode t)))"
| "ctx_resolve_parent ops s cx p = Some (Inr (dir, nm)) \<Longrightarrow> effect_on ops s cx (snd (io_rmdir ops s (pn_inode dir) nm))"
| "ctx_resolve_parent ops s cx p = Some (Inr (dir, nm)) \<Longrightarrow> effect_on ops s cx (snd (io_unlink ops s (pn_inode dir) nm))"
| "ctx_resolve_parent ops s cx p = Some (Inr (dir, nm)) \<Longrightarrow> ctx_resolve_parent ops s cx q = Some (Inr (dir', nm')) \<Longrightarrow>
     effect_on ops s cx (snd (io_rename ops s (pn_inode dir) nm (pn_inode dir') nm'))"
| "ctx_resolve ops s cx p fo = Some (Inr n) \<Longrightarrow> effect_on ops s cx (snd (io_set_attr ops s (pn_inode n) a))"

lemma call_effect:
  assumes "after_call ops spec now fl s cx call = Some s'" "s' \<noteq> s"
  shows "effect_on ops s cx s'"
proof (cases call)
  case (COpen p flags mode)
  then obtain r where "vfs_open ops spec now fl s cx p flags mode = Some (r, s')" using assms(1) by auto
  from open_final [OF assms(2) this] show ?thesis by (blast intro: effect_on.intros)
qed (use assms(1) in \<open>auto dest!: creating_final [OF assms(2)] removing_final [OF assms(2)] attributes_final [OF assms(2)] intro: effect_on.intros\<close>)

text \<open>Where mounts are well formed, every call returns.\<close>

lemma on_path_total: "r \<noteq> None \<Longrightarrow> (\<And>y. r = Some (Inr y) \<Longrightarrow> f y \<noteq> None) \<Longrightarrow> on_path r s f \<noteq> None"
  by (auto simp: on_path_def split: sum.split)

lemma on_ok_total: "(\<And>y. r = Inr y \<Longrightarrow> f y \<noteq> None) \<Longrightarrow> on_ok r s f \<noteq> None"
  by (auto simp: on_ok_def split: sum.split)

lemma if_total: "(b \<Longrightarrow> x \<noteq> None) \<Longrightarrow> (\<not> b \<Longrightarrow> y \<noteq> None) \<Longrightarrow> (if b then x else y) \<noteq> None"
  by simp

lemma ctx_resolve_total: "mounts_ok k (cx_ns cx) \<Longrightarrow> ctx_resolve ops s cx p fo \<noteq> None"
  unfolding ctx_resolve_def by (rule resolve_total) (simp add: ctx_resolver_def)

lemma ctx_resolve_parent_total: "mounts_ok k (cx_ns cx) \<Longrightarrow> ctx_resolve_parent ops s cx p \<noteq> None"
  using resolve_total [of k "ctx_resolver cx" ops s] unfolding ctx_resolve_parent_def resolve_parent_def
  by (auto simp: ctx_resolver_def Let_def simp del: not_None_eq split: option.split sum.split prod.split)

lemma calls_total:
  assumes "mounts_ok k (cx_ns cx)"
  shows "after_call ops spec now fl s cx call \<noteq> None"
proof -
  note total = ctx_resolve_total [OF assms, of ops s] ctx_resolve_parent_total [OF assms, of ops s] on_path_total on_ok_total if_total
  have others: "vfs_mkdir ops fl s cx p mode \<noteq> None" "vfs_mknod ops fl s cx p k mode rdev \<noteq> None" "vfs_link ops fl s cx p q \<noteq> None"
    "vfs_symlink ops fl s cx p q \<noteq> None" "vfs_rmdir ops fl s cx p \<noteq> None" "vfs_unlink ops fl s cx p \<noteq> None"
    "vfs_rename ops fl s cx p q \<noteq> None" "vfs_chmod ops fl s cx p mode fo \<noteq> None" "vfs_chown ops fl s cx p u g fo \<noteq> None"
    "vfs_truncate ops now fl s cx p sz \<noteq> None" "vfs_utimes ops fl s cx p a t fo \<noteq> None" for p q mode k rdev fo u g sz a t
    unfolding vfs_mkdir_def vfs_mknod_def vfs_link_def vfs_symlink_def vfs_rmdir_def vfs_unlink_def vfs_rename_def vfs_chmod_def
      vfs_chown_def vfs_truncate_def vfs_utimes_def unit_of_def Let_def case_prod_beta
    by (intro total; simp)+
  show ?thesis
  proof (cases call)
    case (COpen p flags mode)
    have "open_node ops spec now fl s cx n flags \<noteq> None" for n
      unfolding open_node_def by (intro total) (auto split: option.split prod.split sum.split)
    moreover have "open_create ops fl s cx dir nm flags mode \<noteq> None" for dir nm
      unfolding open_create_def by (intro total) (auto split: prod.split sum.split)
    ultimately have "vfs_open ops spec now fl s cx p flags mode \<noteq> None"
      unfolding vfs_open_def using total(1)
      by (intro total) (auto simp del: not_None_eq split: option.split prod.split sum.split)
    then show ?thesis by (simp add: COpen)
  qed (simp_all add: others del: not_None_eq)
qed

section \<open>What the operations rely on\<close>

text \<open>
  \<open>I\<close> is the invariant of the file system and \<open>V s\<close> says which inodes exist. Entries lead to inodes that exist, every operation on
  existing inodes keeps the invariant and removes none, and listed names are proper.
\<close>

locale vfs_store =
  fixes ops :: "('s, 'i) inode_ops" and I :: "'s \<Rightarrow> bool" and V :: "'s \<Rightarrow> 'i \<Rightarrow> bool"
  assumes lookup_valid: "I s \<Longrightarrow> V s i \<Longrightarrow> io_lookup ops s i nm = Inr j \<Longrightarrow> V s j"
    and create_keeps: "I s \<Longrightarrow> V s i \<Longrightarrow> entry_name nm \<Longrightarrow> keeps I V s (snd (io_create ops s i nm k perm uid gid rdev))"
    and symlink_keeps: "I s \<Longrightarrow> V s i \<Longrightarrow> entry_name nm \<Longrightarrow> keeps I V s (snd (io_symlink ops s i nm t uid gid))"
    and link_keeps: "I s \<Longrightarrow> V s i \<Longrightarrow> V s j \<Longrightarrow> entry_name nm \<Longrightarrow> keeps I V s (snd (io_link ops s i nm j))"
    and unlink_keeps: "I s \<Longrightarrow> V s i \<Longrightarrow> keeps I V s (snd (io_unlink ops s i nm))"
    and rmdir_keeps: "I s \<Longrightarrow> V s i \<Longrightarrow> keeps I V s (snd (io_rmdir ops s i nm))"
    and rename_keeps: "I s \<Longrightarrow> V s i \<Longrightarrow> V s j \<Longrightarrow> entry_name nm' \<Longrightarrow> keeps I V s (snd (io_rename ops s i nm j nm'))"
    and set_attr_keeps: "I s \<Longrightarrow> V s i \<Longrightarrow> keeps I V s (snd (io_set_attr ops s i a))"
    and names: "I s \<Longrightarrow> V s i \<Longrightarrow> io_readdir ops s i = Inr es \<Longrightarrow> e \<in> set es \<Longrightarrow> entry_name (de_name e)"
begin

lemma valid_walk: "I s \<Longrightarrow> ctx_valid (V s) cx \<Longrightarrow> walk_inv ops s (ctx_resolver cx) (chain_valid (V s))"
proof
  fix cur c node
  assume a: "I s" "ctx_valid (V s) cx" "chain_valid (V s) cur" "enter ops s (ctx_resolver cx) cur c = Some node"
  then obtain j k where "io_lookup ops s (pn_inode cur) c = Inr j" "cross_mounts k ops s (cx_ns cx) (node_child cur c j) = Some node"
    by (auto simp: enter_def ctx_resolver_def simp del: cross_mounts.simps split: sum.splits)
  moreover have "\<forall>m\<in>set (ns_mounts (cx_ns cx)). V s (mt_root m)" using a(2) by (simp add: ctx_valid_def)
  ultimately show "chain_valid (V s) node"
    using a(1,3) cross_mounts_valid chain_valid_child lookup_valid chain_valid_inode by metis
next
  fix cur assume "chain_valid (V s) cur"
  then show "chain_valid (V s) (dotdot ops s (ctx_resolver cx) cur)"
    by (auto simp: dotdot_def split: option.split intro: chain_valid_parent)
qed (simp add: ctx_valid_def ctx_resolver_def)

lemma resolved_valid:
  assumes "I s" "ctx_valid (V s) cx"
  shows "ctx_resolve ops s cx p fo = Some (Inr n) \<Longrightarrow> V s (pn_inode n)"
    and "ctx_resolve_parent ops s cx p = Some (Inr (dir, nm)) \<Longrightarrow> V s (pn_inode dir)"
  using walk_inv.resolve_keeps [OF valid_walk [OF assms]] walk_inv.resolve_parent_keeps [OF valid_walk [OF assms]] assms(2)
  by (auto simp: ctx_resolve_def ctx_resolve_parent_def ctx_valid_def ctx_resolver_def intro: chain_valid_inode)

lemma effect_keeps:
  assumes "effect_on ops s cx s'" "I s" "ctx_valid (V s) cx"
  shows "keeps I V s s'"
  using assms(1)
  by cases (auto intro!: create_keeps symlink_keeps link_keeps rmdir_keeps unlink_keeps rename_keeps set_attr_keeps
      intro: assms(2) resolved_valid [OF assms(2,3)] parent_name)

lemma call_keeps:
  "I s \<Longrightarrow> ctx_valid (V s) cx \<Longrightarrow> after_call ops spec now fl s cx call = Some s' \<Longrightarrow> keeps I V s s'"
  using call_effect effect_keeps keeps_refl by metis

end
section \<open>Sequences of calls, and the removal of trees\<close>

text \<open>Calls of any processes, one after the other, each at its own time.\<close>

fun run_calls :: "('s, 'i) inode_ops \<Rightarrow> ('s \<Rightarrow> 'i \<Rightarrow> u32 \<Rightarrow> 'f option KResult) \<Rightarrow> mflags \<Rightarrow> 's \<Rightarrow> ('i ctx \<times> timespec \<times> vfs_call) list
    \<Rightarrow> 's option" where
  "run_calls ops spec fl s [] = Some s"
| "run_calls ops spec fl s ((cx, now, call) # cs) =
     (case after_call ops spec now fl s cx call of None \<Rightarrow> None | Some s' \<Rightarrow> run_calls ops spec fl s' cs)"

text \<open>Depths at which the recursion of \<^verbatim>\<open>remove_tree\<close> ends: each level makes the path longer.\<close>

definition deep_enough :: "nat \<Rightarrow> string \<Rightarrow> bool" where
  "deep_enough n p \<longleftrightarrow> 0 < n \<and> PATH_MAX + 2 \<le> n + length (trim_end_matches (CHR ''/'') p)"

lemma too_long: "PATH_MAX < length (trim_end_matches (CHR ''/'') p) \<Longrightarrow> ctx_resolve ops s cx p fo = Some (Inl ENAMETOOLONG)"
  using length_dropWhile_le [of "\<lambda>x. x = CHR ''/''" "rev p"]
  by (auto simp: ctx_resolve_def resolve_def trim_end_matches_def)

lemma trim_child: "entry_name nm \<Longrightarrow> trim_end_matches (CHR ''/'') (p @ ''/'' @ nm) = p @ ''/'' @ nm"
  by (cases nm rule: rev_cases) (auto simp: trim_end_matches_def entry_name_def)

lemma deep_enough_child:
  "\<lbrakk>deep_enough (Suc n) p; length (trim_end_matches (CHR ''/'') p) \<le> PATH_MAX; entry_name nm\<rbrakk>
     \<Longrightarrow> deep_enough n (trim_end_matches (CHR ''/'') p @ ''/'' @ nm)"
  by (cases nm) (auto simp: deep_enough_def trim_child entry_name_def simp del: append_Cons)

context vfs_store
begin

lemma run_keeps:
  assumes "list_all (\<lambda>(cx, _). ctx_valid (V s) cx \<and> (\<exists>k. mounts_ok k (cx_ns cx))) cs" "I s"
  shows "\<exists>s'. run_calls ops spec fl s cs = Some s' \<and> keeps I V s s'"
  using assms
proof (induction cs arbitrary: s)
  case (Cons c cs)
  obtain cx now call where c: "c = (cx, now, call)" by (cases c)
  obtain s1 where s1: "after_call ops spec now fl s cx call = Some s1"
    using Cons.prems(1) calls_total [of _ cx ops spec now fl s call] by (auto simp: c)
  then have k: "keeps I V s s1" using Cons.prems by (auto simp: c intro: call_keeps)
  then have "\<exists>s'. run_calls ops spec fl s1 cs = Some s' \<and> keeps I V s1 s'"
    using Cons.prems by (intro Cons.IH) (auto simp: list_all_iff keeps_def intro: ctx_valid_mono [OF _ k])
  then show ?case using k s1 by (auto simp: c intro: keeps_trans)
qed (simp add: keeps_refl)

lemma removed_total:
  assumes "mounts_ok k (cx_ns cx)" "I s" "ctx_valid (V s) cx"
  shows "\<exists>r s'. vfs_unlink ops fl s cx p = Some (r, s') \<and> keeps I V s s'"
    and "\<exists>r s'. vfs_rmdir ops fl s cx p = Some (r, s') \<and> keeps I V s s'"
  using calls_total [OF assms(1), of ops "\<lambda>_ _ _. Inl EPERM" undefined fl s "CUnlink p"]
    calls_total [OF assms(1), of ops "\<lambda>_ _ _. Inl EPERM" undefined fl s "CRmdir p"]
    call_keeps [OF assms(2,3), of "\<lambda>_ _ _. Inl EPERM" undefined fl "CUnlink p"]
    call_keeps [OF assms(2,3), of "\<lambda>_ _ _. Inl EPERM" undefined fl "CRmdir p"] by auto

lemma remove_entries_total:
  assumes "mounts_ok k (cx_ns cx)" "I s" "ctx_valid (V s) cx"
    and "deep_enough (Suc n) p" "length (trim_end_matches (CHR ''/'') p) \<le> PATH_MAX" "list_all entry_name nms"
    and "\<And>s p. \<lbrakk>I s; ctx_valid (V s) cx; deep_enough n p\<rbrakk> \<Longrightarrow> \<exists>r s'. remove_tree n ops fl s cx p = Some (r, s') \<and> keeps I V s s'"
  shows "\<exists>r s'. remove_entries n ops fl s cx p d nms = Some (r, s') \<and> keeps I V s s'"
  using assms(2,3,6)
proof (induction nms arbitrary: s)
  case (Cons nm nms)
  let ?c = "trim_end_matches (CHR ''/'') p @ ''/'' @ nm"
  have "deep_enough n ?c" using Cons.prems(3) assms(4,5) by (auto intro!: deep_enough_child simp del: append_Cons)
  then obtain r s1 where s1: "remove_tree n ops fl s cx ?c = Some (r, s1)" "keeps I V s s1"
    using assms(7) Cons.prems(1,2) by blast
  obtain q where "ctx_resolve ops s cx ?c False = Some q" using ctx_resolve_total [OF assms(1), of ops s ?c False] by blast
  moreover obtain r2 s2 where "remove_entries n ops fl s1 cx p d nms = Some (r2, s2)" "keeps I V s1 s2"
    using Cons.IH [of s1] Cons.prems s1(2) ctx_valid_mono [of V s cx I s1] by (auto simp: keeps_def)
  ultimately show ?case using s1 keeps_trans [OF s1(2)] keeps_refl [of I, OF Cons.prems(1)]
    by (auto simp: Let_def on_path_def simp del: append_Cons split: sum.split)
qed (simp add: keeps_refl)

lemma remove_tree_total:
  assumes "mounts_ok k (cx_ns cx)"
  shows "\<lbrakk>I s; ctx_valid (V s) cx; deep_enough n p\<rbrakk> \<Longrightarrow> \<exists>r s'. remove_tree n ops fl s cx p = Some (r, s') \<and> keeps I V s s'"
proof (induction n arbitrary: s p)
  case (Suc n)
  show ?case
  proof (cases "PATH_MAX < length (trim_end_matches (CHR ''/'') p)")
    case True
    then show ?thesis using Suc.prems(1) by (simp add: vfs_stat_def too_long keeps_refl)
  next
    case False
    obtain q where q: "ctx_resolve ops s cx p False = Some q" using ctx_resolve_total [OF assms, of ops s p False] by blast
    have e: "\<exists>r s'. remove_entries n ops fl s cx p nd (map de_name es) = Some (r, s') \<and> keeps I V s s' \<and>
        (\<exists>r2 s2. vfs_rmdir ops fl s' cx p = Some (r2, s2) \<and> keeps I V s s2)"
      if "io_readdir ops s (pn_inode nd) = Inr es" "q = Inr nd" for nd es
    proof -
      have "list_all entry_name (map de_name es)"
        using that q names [OF Suc.prems(1) resolved_valid(1) [OF Suc.prems(1,2)]] by (auto simp: list_all_iff)
      then obtain r s1 where r: "remove_entries n ops fl s cx p nd (map de_name es) = Some (r, s1)" "keeps I V s s1"
        using remove_entries_total [OF assms Suc.prems _ _ Suc.IH, of _ nd] False by fastforce
      then have "I s1" "ctx_valid (V s1) cx" using Suc.prems(2) ctx_valid_mono [OF _ r(2)] by (auto simp: keeps_def)
      then show ?thesis using r removed_total(2) [OF assms, of s1 fl p] keeps_trans [OF r(2)] by blast
    qed
    show ?thesis
    proof (cases q)
      case (Inr nd)
      then show ?thesis using e [of nd] q removed_total(1) [OF assms Suc.prems(1,2), of fl p] keeps_refl [of I, OF Suc.prems(1)]
        by (auto simp: vfs_stat_def on_path_def on_ok_def split: sum.split)
    qed (use q Suc.prems(1) in \<open>simp add: vfs_stat_def keeps_refl\<close>)
  qed
qed (simp add: deep_enough_def)

end
section \<open>tmpfs as such a file system\<close>

definition tmp_names_ok :: "tmpfs \<Rightarrow> bool" where
  "tmp_names_ok s \<longleftrightarrow> (\<forall>d nm i. ent s (d, nm) = Some i \<longrightarrow> entry_name nm)"

definition tmp_sound :: "tmpfs \<Rightarrow> bool" where
  "tmp_sound s \<longleftrightarrow> tmp_reach s \<and> tmp_names_ok s"

text \<open>A step from \<open>s\<close> that enters at most one new name and lets no node go.\<close>

definition entry_names :: "tmpfs \<Rightarrow> string set" where
  "entry_names s = snd ` dom (ent s)"

definition grows :: "string \<Rightarrow> tmpfs \<Rightarrow> tmpfs \<Rightarrow> bool" where
  "grows nm s s' \<longleftrightarrow> (\<forall>j. live_node s j \<longrightarrow> live_node s' j) \<and> entry_names s' \<subseteq> insert nm (entry_names s)"

lemma in_entry_names: "x \<in> entry_names s \<longleftrightarrow> (\<exists>d. ent s (d, x) \<noteq> None)"
  by (force simp: entry_names_def dom_def)

lemma grows_refl: "grows nm s s"
  by (auto simp: grows_def)

lemma grows_live: "grows nm s s' \<Longrightarrow> live_node s j \<Longrightarrow> live_node s' j"
  by (simp add: grows_def)

lemma grows_trans: "grows nm s s1 \<Longrightarrow> grows nm s1 s2 \<Longrightarrow> grows nm s s2"
  by (auto simp: grows_def)

lemma grows_update:
  assumes "grows nm s s1" "live_node s i" "tf_nodes s2 = (tf_nodes s1)(i \<mapsto> n)"
    and "\<And>x j. dir_view (tn_data n) x = Some j \<Longrightarrow> x = nm \<or> dir_view (tn_data (tnode s1 i)) x \<noteq> None"
  shows "grows nm s s2"
proof -
  have live: "live_node s1 i" by (rule grows_live [OF assms(1,2)])
  have e: "ent s2 (d, x) = (if d = i then dir_view (tn_data n) x else ent s1 (d, x))" for d x
    by (simp add: ent_def assms(3))
  have "ent s1 (i, x) = dir_view (tn_data (tnode s1 i)) x" for x
    using live by (auto simp: ent_def tnode_def live_node_def)
  then have "entry_names s2 \<subseteq> insert nm (entry_names s1)"
    using assms(4) by (auto simp: in_entry_names e split: if_splits) (metis option.distinct(1))
  then have "grows nm s1 s2" using assms(3) by (simp add: grows_def live_node_def)
  then show ?thesis by (rule grows_trans [OF assms(1)])
qed

lemma grows_meta: "grows nm s s1 \<Longrightarrow> live_node s i \<Longrightarrow> grows nm s (upd_meta s1 i f)"
  by (erule (1) grows_update [where i = i]) (auto simp: upd_meta_def set_node_def)

lemma grows_stamps:
  "grows nm s s1 \<Longrightarrow> live_node s i \<Longrightarrow> grows nm s (set_nlink s1 i f)"
  "grows nm s s1 \<Longrightarrow> live_node s i \<Longrightarrow> grows nm s (set_ctime s1 i)"
  "grows nm s s1 \<Longrightarrow> live_node s i \<Longrightarrow> grows nm s (touch_mc s1 i)"
  by (simp_all add: set_nlink_def set_ctime_def touch_mc_def grows_meta)

lemma grows_remove:
  "grows nm s s1 \<Longrightarrow> live_node s i \<Longrightarrow> tn_data (tnode s1 i) = TDir m \<Longrightarrow> grows nm s (set_data s1 i (TDir (bt_remove x m)))"
  by (erule (1) grows_update [where i = i]) (auto simp: set_data_def set_node_def dir_view_def bt_get_remove split: if_splits)

lemma grows_insert:
  "grows nm s s1 \<Longrightarrow> live_node s i \<Longrightarrow> tn_data (tnode s1 i) = TDir m \<Longrightarrow> grows nm s (set_data s1 i (TDir (bt_insert nm j m)))"
  by (erule (1) grows_update [where i = i]) (auto simp: set_data_def set_node_def dir_view_def bt_get_insert split: if_splits)

lemma grows_file: "grows nm s s1 \<Longrightarrow> live_node s i \<Longrightarrow> grows nm s (set_data s1 i (TFile pages sz))"
  by (erule (1) grows_update [where i = i]) (auto simp: set_data_def set_node_def dir_view_def)

lemma grows_counters: "grows nm s s1 \<Longrightarrow> tf_nodes s2 = tf_nodes s1 \<Longrightarrow> grows nm s s2"
  by (simp add: grows_def live_node_def entry_names_def ent_def dom_def)

lemmas grows_intros = grows_refl grows_stamps grows_remove grows_insert grows_file

lemma link_new_grows:
  assumes "nodes_ok s" "live_node s d" "dir_view (tn_data n) = (\<lambda>_. None)"
  shows "grows nm s (snd (link_new s d nm n))"
proof -
  have fresh: "tf_nodes s (tf_next_ino s) = None" using assms(1) by (cases "tf_nodes s (tf_next_ino s)") (auto simp: nodes_ok_def)
  let ?s1 = "snd (alloc_node s n)"
  have "ent ?s1 = ent s" using assms(3) fresh by (auto simp: fun_eq_iff alloc_node_def set_node_def ent_def split: option.split)
  then have g: "grows nm s ?s1"
    using fresh by (auto simp: grows_def alloc_node_def set_node_def live_node_def entry_names_def)
  have ac: "grows nm s (snd (add_child ?s1 d nm i))" for i
    using g assms(2) by (auto simp: add_child_def split: tmp_data.split intro!: grows_stamps grows_insert)
  have "grows nm s (drop_node s2 (tf_next_ino s))" if "grows nm s s2" for s2
  proof -
    have "entry_names (drop_node s2 i) \<subseteq> entry_names s2" for i
    proof -
      have "ent (drop_node s2 i) (d, x) = (if d = i then None else ent s2 (d, x))" for d x by (simp add: drop_node_def ent_def)
      then show ?thesis by (auto simp: in_entry_names split: if_splits; blast)
    qed
    then have "entry_names (drop_node s2 (tf_next_ino s)) \<subseteq> insert nm (entry_names s)" using that by (auto simp: grows_def)
    moreover have "live_node (drop_node s2 (tf_next_ino s)) j" if "live_node s j" for j
      using that \<open>grows nm s s2\<close> fresh by (cases "j = tf_next_ino s") (auto simp: grows_def live_node_def drop_node_def)
    ultimately show ?thesis by (simp add: grows_def)
  qed
  then show ?thesis using ac [of "tf_next_ino s"]
    by (auto simp: link_new_def Let_def alloc_node_def split: prod.splits sum.splits intro: grows_counters)
qed

lemma creating_grows:
  assumes "nodes_ok s" "live_node s d"
  shows "grows nm s (snd (tmp_create s d nm k perm uid gid rdev))"
    and "grows nm s (snd (tmp_symlink s d nm t uid gid))"
    and "live_node s j \<Longrightarrow> grows nm s (snd (tmp_link s d nm (Some j)))"
proof -
  show "grows nm s (snd (tmp_create s d nm k perm uid gid rdev))"
  proof (cases "create_data k")
    case (Some data)
    then have v: "dir_view data = (\<lambda>_. None)" by (cases k) (auto simp: dir_view_def fun_eq_iff)
    have "grows nm s (snd (link_new s d nm n))" if "tn_data n = data" for n
      using link_new_grows [OF assms] that v by blast
    then show ?thesis using Some assms(2)
      by (auto simp: tmp_create_def Let_def new_node_def with_nlink_def split: prod.split sum.split intro!: grows_stamps)
        (metis (no_types, lifting) snd_conv tmp_node.select_convs(2))+
  qed (simp add: tmp_create_def grows_refl)
  show "grows nm s (snd (tmp_symlink s d nm t uid gid))"
    unfolding tmp_symlink_def by (rule link_new_grows [OF assms]) (simp add: new_node_def dir_view_def fun_eq_iff)
  have "grows nm s (snd (add_child s d nm j))"
    using assms(2) by (auto simp: add_child_def split: tmp_data.split intro!: grows_stamps grows_insert grows_refl)
  then show "grows nm s (snd (tmp_link s d nm (Some j)))" if "live_node s j"
    using that by (auto simp: tmp_link_def grows_refl split: prod.split sum.split intro!: grows_stamps)
qed

lemma child_live:
  assumes "tmp_inv s" "live_node s d" "tn_data (tnode s d) = TDir m" "bt_get m x = Some c"
  shows "live_node s c"
proof -
  have "tmp_lookup s d x = Inr c" using assms(3,4) by (simp add: tmp_lookup_def)
  then show ?thesis using lookup_ent(1) [OF _ assms(2)] entry_live [OF assms(1)] assms(1) by (metis tmp_inv_def)
qed

lemma removing_grows:
  assumes "tmp_inv s" "live_node s d"
  shows "grows nm s (snd (tmp_unlink s d x))" and "grows nm s (snd (tmp_rmdir s d x))"
  using assms(2) child_live [OF assms]
  by (auto simp: tmp_unlink_def tmp_rmdir_def Let_def split: tmp_data.split option.split
      intro!: grows_stamps grows_remove grows_refl)

lemma set_attr_grows:
  assumes "live_node s i"
  shows "grows nm s (snd (tmp_set_attr s i a))"
proof -
  have "grows nm s (snd (tmp_truncate s i n))" for n
    using assms by (auto simp: tmp_truncate_def uncharge_def split: tmp_data.split prod.split
        intro!: grows_refl intro: grows_counters [OF grows_file [OF grows_refl]])
  then show ?thesis using assms
    by (auto simp: tmp_set_attr_def grows_refl split: option.split prod.split sum.split intro!: grows_meta)
      (metis snd_conv)+
qed

lemma rename_grows:
  assumes "tmp_inv s" "live_node s d" "live_node s nd"
  shows "grows nm s (snd (tmp_rename s d old (Some nd) nm))"
proof (cases "snd (tmp_rename s d old (Some nd) nm) = s")
  case False
  obtain r s' where r: "tmp_rename s d old (Some nd) nm = (r, s')" by fastforce
  then have "s' \<noteq> s" using False by simp
  then obtain i m where i: "tmp_lookup s d old = Inr i" "tn_data (tnode s nd) = TDir m"
    and s': "s' = rename_stamp (shift_links (drop_replaced (move_entry s d old nd nm i) nd (bt_get m nm))
        (node_kind s i = Directory) d nd) i d nd"
    using rename_cases [OF r] by metis
  have li: "live_node s i" using lookup_ent(1) [OF _ assms(2) i(1)] entry_live [OF assms(1)] assms(1) by (metis tmp_inv_def)
  have 1: "grows nm s (move_entry s d old nd nm i)"
    using assms(2,3) by (auto simp: move_entry_def Let_def split: tmp_data.split intro!: grows_insert grows_remove grows_refl)
  have 2: "grows nm s (drop_replaced (move_entry s d old nd nm i) nd (bt_get m nm))"
    using child_live [OF assms(1,3) i(2)] assms(3) 1 by (auto simp: drop_replaced_def split: option.split intro!: grows_stamps)
  then have "grows nm s s'"
    using assms(2,3) li by (auto simp: s' rename_stamp_def shift_links_def Let_def intro!: grows_stamps)
  then show ?thesis by (simp add: r)
qed (simp add: grows_refl)

lemma names_ok_iff: "tmp_names_ok s \<longleftrightarrow> (\<forall>nm\<in>entry_names s. entry_name nm)"
  unfolding tmp_names_ok_def Ball_def in_entry_names not_None_eq by blast

lemma sound_step: "tmp_sound s \<Longrightarrow> tmp_reach s' \<Longrightarrow> grows nm s s' \<Longrightarrow> entry_name nm \<Longrightarrow> keeps tmp_sound live_node s s'"
  unfolding tmp_sound_def names_ok_iff keeps_def grows_def by blast

lemma sound_inv: "tmp_sound s \<Longrightarrow> tmp_inv s \<and> nodes_ok s"
  using reach_inv by (auto simp: tmp_sound_def tmp_inv_def)

lemma shrink_name: "\<exists>nm. entry_name nm"
  by (rule exI [of _ "''x''"]) (simp add: entry_name_def)

lemma reach_ops:
  assumes "tmp_reach s" "live_node s i"
  shows "tmp_reach (snd (tmp_create s i nm k perm uid gid rdev))" "tmp_reach (snd (tmp_symlink s i nm t uid gid))"
    and "tmp_reach (snd (tmp_unlink s i nm))" "tmp_reach (snd (tmp_rmdir s i nm))" "tmp_reach (snd (tmp_set_attr s i a))"
    and "live_node s j \<Longrightarrow> tmp_reach (snd (tmp_link s i nm (Some j)))"
    and "live_node s j \<Longrightarrow> tmp_reach (snd (tmp_rename s i nm (Some j) nm'))"
  by (rule reach_create [OF assms prod.collapse [symmetric]] reach_symlink [OF assms prod.collapse [symmetric]]
      reach_unlink [OF assms prod.collapse [symmetric]] reach_rmdir [OF assms prod.collapse [symmetric]]
      reach_set_attr [OF assms prod.collapse [symmetric]] reach_link [OF assms _ prod.collapse [symmetric]]
      reach_rename [OF assms _ prod.collapse [symmetric]]; simp)+

interpretation tmp_store: vfs_store tmpfs_ops tmp_sound live_node
proof
  fix s :: tmpfs and i j :: nat and nm nm' t :: string and k perm uid gid rdev a
  assume s: "tmp_sound s" and i: "live_node s i"
  have r: "tmp_reach s" and inv: "tmp_inv s" "nodes_ok s" using s sound_inv by (simp_all add: tmp_sound_def)
  obtain x where x: "entry_name x" using shrink_name by blast
  note reach = reach_ops [OF r i]
  show "keeps tmp_sound live_node s (snd (io_unlink tmpfs_ops s i nm))"
    using sound_step [OF s reach(3) removing_grows(1) [OF inv(1) i] x] by (simp add: tmpfs_ops_def)
  show "keeps tmp_sound live_node s (snd (io_rmdir tmpfs_ops s i nm))"
    using sound_step [OF s reach(4) removing_grows(2) [OF inv(1) i] x] by (simp add: tmpfs_ops_def)
  show "keeps tmp_sound live_node s (snd (io_set_attr tmpfs_ops s i a))"
    using sound_step [OF s reach(5) set_attr_grows [OF i] x] by (simp add: tmpfs_ops_def)
  show "live_node s j" if "io_lookup tmpfs_ops s i nm = Inr j"
    using that lookup_ent(1) [OF inv(2) i, of nm j] entry_live [OF inv(1), of "(i, nm)" j] by (simp add: tmpfs_ops_def)
  show "keeps tmp_sound live_node s (snd (io_create tmpfs_ops s i nm k perm uid gid rdev))" if "entry_name nm"
    using sound_step [OF s reach(1) creating_grows(1) [OF inv(2) i] that] by (simp add: tmpfs_ops_def)
  show "keeps tmp_sound live_node s (snd (io_symlink tmpfs_ops s i nm t uid gid))" if "entry_name nm"
    using sound_step [OF s reach(2) creating_grows(2) [OF inv(2) i] that] by (simp add: tmpfs_ops_def)
  show "keeps tmp_sound live_node s (snd (io_link tmpfs_ops s i nm j))" if "live_node s j" "entry_name nm"
    using sound_step [OF s reach(6) [OF that(1)] creating_grows(3) [OF inv(2) i that(1)] that(2)] by (simp add: tmpfs_ops_def)
  show "keeps tmp_sound live_node s (snd (io_rename tmpfs_ops s i nm j nm'))" if "live_node s j" "entry_name nm'"
    using sound_step [OF s reach(7) [OF that(1)] rename_grows [OF inv(1) i that(1)] that(2)] by (simp add: tmpfs_ops_def)
next
  fix s :: tmpfs and i :: nat and es :: "dir_entry list" and e :: dir_entry
  assume s: "tmp_sound s" and i: "live_node s i" and es: "io_readdir tmpfs_ops s i = Inr es" "e \<in> set es"
  then obtain m j where m: "tn_data (tnode s i) = TDir m" "(de_name e, j) \<in> set m"
    by (auto simp: tmpfs_ops_def tmp_readdir_def split: tmp_data.splits)
  obtain j' where "bt_get m (de_name e) = Some j'" using m(2) by (metis bt_get_def weak_map_of_SomeI)
  then have "ent s (i, de_name e) = Some j'" using m(1) i by (auto simp: ent_def tnode_def dir_view_def live_node_def)
  then show "entry_name (de_name e)" using s by (auto simp: tmp_sound_def tmp_names_ok_def)
qed

section \<open>Theorems\<close>

text \<open>A process whose root, working directory and mounts exist, in a mount namespace that mounting can produce.\<close>

definition process_ok :: "tmpfs \<Rightarrow> nat ctx \<Rightarrow> bool" where
  "process_ok s cx \<longleftrightarrow> ctx_valid (live_node s) cx \<and> (\<exists>k. ns_reach tmpfs_ops k (cx_ns cx))"

lemma process_ok_keeps: "process_ok s cx \<Longrightarrow> keeps tmp_sound live_node s s' \<Longrightarrow> process_ok s' cx"
  using ctx_valid_mono by (fastforce simp: process_ok_def)


text \<open>
  C31 (removing a tree ends). On tmpfs \<^verbatim>\<open>remove_tree\<close> returns whatever the tree looks like, within a recursion depth of the path
  limit plus two: each level lengthens the path by the name of an entry, and a path over the limit is refused. The tmpfs stays sound.
\<close>

theorem remove_tree_returns:
  assumes "tmp_sound s" "process_ok s cx" "PATH_MAX + 2 \<le> n"
  shows "\<exists>r s'. remove_tree n tmpfs_ops fl s cx path = Some (r, s') \<and> tmp_sound s'"
proof -
  obtain k where k: "ns_reach tmpfs_ops k (cx_ns cx)" and v: "ctx_valid (live_node s) cx" using assms(2) by (auto simp: process_ok_def)
  have "deep_enough n path" using assms(3) by (simp add: deep_enough_def)
  from tmp_store.remove_tree_total [OF ns_reach_ok [OF k] assms(1) v this, of fl] show ?thesis by (auto simp: keeps_def)
qed

section \<open>Witnesses\<close>

lemma example_sound: "tmp_sound (example_fs limit)"
proof -
  have "ent (example_fs limit) (d, nm) = Some i \<Longrightarrow> nm = ''f''" for d nm i
    by (auto simp: ent_def dir_view_def example_eval split: if_splits option.splits)
  then show ?thesis using example_reach(1) by (fastforce simp: tmp_sound_def tmp_names_ok_def entry_name_def)
qed

lemma example_process: "process_ok (example_fs limit) (example_ctx c)"
  using example_reach(2) [of limit] ns_reach.reach_new [of tmpfs_ops 1 1 "''tmpfs''"]
  by (auto simp: process_ok_def ctx_valid_def example_ctx_def ns_new_def)


theorem remove_tree_returns_witness:
  "\<exists>r s'. remove_tree 4098 tmpfs_ops writable_mounts (example_fs 0) (example_ctx cred_root) ''/'' = Some (r, s') \<and> tmp_sound s'"
  by (rule remove_tree_returns [OF example_sound example_process]) (simp add: PATH_MAX_def)

end
