(* ===== verification/Pipe.thy ===== *)
theory Pipe
  imports File_Flags Ordered_Map "HOL-Library.Product_Lexorder"
begin

unbundle bit_operations_syntax

text \<open>
  Pipes, fifos and stream pairs, \<^verbatim>\<open>kernel/src/fs/pipe.rs\<close>. The kernel runs on one processor and is not preempted, so what a
  thread does between two points where it may sleep is one indivisible section: \<open>read_section\<close> and
  \<open>write_section\<close> run a call until it ends or sleeps, and running them again from the state a wake-up finds continues it.
  A section takes whether a signal is pending and says whether it woke the waiting threads.
\<close>

section \<open>The pipe\<close>

definition PIPE_CAPACITY :: nat where "PIPE_CAPACITY = 65536"
definition PIPE_BUF :: nat where "PIPE_BUF = 4096"

record pipe =
  pp_data :: "u8 list"
  pp_readers :: nat
  pp_writers :: nat

definition pipe_new :: pipe where
  "pipe_new = \<lparr>pp_data = [], pp_readers = 0, pp_writers = 0\<rparr>"

definition pipe_open :: "pipe \<Rightarrow> bool \<Rightarrow> pipe" where
  "pipe_open p wr = (if wr then p\<lparr>pp_writers := pp_writers p + 1\<rparr> else p\<lparr>pp_readers := pp_readers p + 1\<rparr>)"

text \<open>Dropping an end; with no such end left the subtraction would trap.\<close>

definition pipe_drop :: "pipe \<Rightarrow> bool \<Rightarrow> pipe option" where
  "pipe_drop p wr =
     (if wr then if pp_writers p = 0 then None else Some (p\<lparr>pp_writers := pp_writers p - 1\<rparr>)
      else if pp_readers p = 0 then None else Some (p\<lparr>pp_readers := pp_readers p - 1\<rparr>))"

definition has_readers :: "pipe \<Rightarrow> bool" where "has_readers p \<longleftrightarrow> 0 < pp_readers p"
definition has_writers :: "pipe \<Rightarrow> bool" where "has_writers p \<longleftrightarrow> 0 < pp_writers p"

section \<open>Reading and writing\<close>

datatype 'a stop = Ends 'a | Sleeps

definition read_section :: "bool \<Rightarrow> bool \<Rightarrow> pipe \<Rightarrow> nat \<Rightarrow> u8 list KResult stop \<times> bool \<times> pipe" where
  "read_section nonblock sig p len =
     (if len = 0 then (Ends (Inr []), False, p)
      else if pp_data p \<noteq> [] then
        let n = min len (length (pp_data p))
        in (Ends (Inr (take n (pp_data p))), True, p\<lparr>pp_data := drop n (pp_data p)\<rparr>)
      else if pp_writers p = 0 then (Ends (Inr []), False, p)
      else if nonblock then (Ends (Inl EAGAIN), False, p)
      else if sig then (Ends (Inl EINTR), False, p)
      else (Sleeps, False, p))"

text \<open>How a write stops: with a result and whether it raised \<^verbatim>\<open>SIGPIPE\<close>, or asleep with so many bytes written.\<close>

datatype write_stop = WEnds "nat KResult" bool | WSleeps nat

definition write_need :: "nat \<Rightarrow> nat" where
  "write_need rest = (if rest \<le> PIPE_BUF then rest else 1)"

definition short_write :: "nat \<Rightarrow> Errno \<Rightarrow> nat KResult" where
  "short_write written e = (if 0 < written then Inr written else Inl e)"

definition space :: "pipe \<Rightarrow> nat" where
  "space p = PIPE_CAPACITY - length (pp_data p)"

function write_section :: "bool \<Rightarrow> bool \<Rightarrow> pipe \<Rightarrow> u8 list \<Rightarrow> nat \<Rightarrow> write_stop \<times> bool \<times> pipe" where
  "write_section nonblock sig p buf written =
     (if length buf \<le> written then (WEnds (Inr written) False, False, p)
      else
        let rest = drop written buf in
        if pp_readers p = 0 \<or> write_need (length rest) \<le> space p then
          if pp_readers p = 0 then (WEnds (short_write written EPIPE) True, False, p)
          else
            let n = min (length rest) (space p) in
            case write_section nonblock sig (p\<lparr>pp_data := pp_data p @ take n rest\<rparr>) buf (written + n) of
              (stop, _, p') \<Rightarrow> (stop, True, p')
        else if sig then (WEnds (short_write written EINTR) False, False, p)
        else if nonblock then (WEnds (short_write written EAGAIN) False, False, p)
        else (WSleeps written, False, p))"
  by pat_completeness auto
termination
  by (relation "measure (\<lambda>(nonblock, sig, p, buf, written). length buf - written)")
    (auto simp: write_need_def split: if_splits)

declare write_section.simps [simp del]

definition pipe_poll :: "bool \<Rightarrow> pipe \<Rightarrow> poll_bits" where
  "pipe_poll wr p =
     (if wr then
        if pp_readers p = 0 then POLL_ERR OR POLL_OUT
        else if PIPE_BUF \<le> space p then POLL_OUT
        else 0
      else
        (if pp_data p \<noteq> [] then POLL_IN else 0) OR (if pp_writers p = 0 then POLL_HUP else 0))"

section \<open>Ends\<close>

text \<open>The pipes there are, with the inode number the next one gets, and the named ones of disk file systems.\<close>

record pipes =
  ps_pipe :: "nat \<Rightarrow> pipe"
  ps_next :: nat
  ps_named :: "(u64 \<times> u64, nat) btree"

record pipe_end =
  pe_pipe :: nat
  pe_write :: bool
  pe_flags :: u32

definition new_pipe :: "pipes \<Rightarrow> nat \<times> pipes" where
  "new_pipe s = (ps_next s, s\<lparr>ps_pipe := (ps_pipe s)(ps_next s := pipe_new), ps_next := ps_next s + 1\<rparr>)"

definition set_pipe :: "pipes \<Rightarrow> nat \<Rightarrow> pipe \<Rightarrow> pipes" where
  "set_pipe s i p = s\<lparr>ps_pipe := (ps_pipe s)(i := p)\<rparr>"

definition end_open :: "pipes \<Rightarrow> nat \<Rightarrow> bool \<Rightarrow> bool \<Rightarrow> pipe_end \<times> pipes" where
  "end_open s i wr nonblock =
     (\<lparr>pe_pipe = i, pe_write = wr, pe_flags = (if wr then O_WRONLY else O_RDONLY) OR (if nonblock then O_NONBLOCK else 0)\<rparr>,
      set_pipe s i (pipe_open (ps_pipe s i) wr))"

definition end_drop :: "pipes \<Rightarrow> pipe_end \<Rightarrow> pipes option" where
  "end_drop s e = map_option (set_pipe s (pe_pipe e)) (pipe_drop (ps_pipe s (pe_pipe e)) (pe_write e))"

definition end_read :: "bool \<Rightarrow> pipes \<Rightarrow> pipe_end \<Rightarrow> nat \<Rightarrow> u8 list KResult stop \<times> bool \<times> pipes" where
  "end_read sig s e len =
     (if pe_write e then (Ends (Inl EBADF), False, s)
      else case read_section (nonblocking (pe_flags e)) sig (ps_pipe s (pe_pipe e)) len of
        (r, woke, p) \<Rightarrow> (r, woke, set_pipe s (pe_pipe e) p))"

definition end_write :: "bool \<Rightarrow> pipes \<Rightarrow> pipe_end \<Rightarrow> u8 list \<Rightarrow> nat \<Rightarrow> write_stop \<times> bool \<times> pipes" where
  "end_write sig s e buf written =
     (if \<not> pe_write e then (WEnds (Inl EBADF) False, False, s)
      else case write_section (nonblocking (pe_flags e)) sig (ps_pipe s (pe_pipe e)) buf written of
        (r, woke, p) \<Rightarrow> (r, woke, set_pipe s (pe_pipe e) p))"

definition pipe_metadata :: "timespec \<Rightarrow> file_type \<Rightarrow> nat \<Rightarrow> metadata" where
  "pipe_metadata now kind ino = \<lparr>md_dev = 0, md_ino = of_nat ino, md_kind = kind, md_perm = 0x180, md_nlink = 1, md_uid = 0, md_gid = 0,
     md_size = 0, md_blocks = 0, md_blksize = of_nat PIPE_BUF, md_rdev = 0, md_atime = now, md_mtime = now, md_ctime = now\<rparr>"

definition end_stat :: "timespec \<Rightarrow> pipe_end \<Rightarrow> metadata KResult" where
  "end_stat now e = Inr (pipe_metadata now Fifo (pe_pipe e))"

definition end_poll :: "pipes \<Rightarrow> pipe_end \<Rightarrow> poll_bits" where
  "end_poll s e = pipe_poll (pe_write e) (ps_pipe s (pe_pipe e))"

abbreviation FIONREAD :: u32 where "FIONREAD \<equiv> 0x541B"
abbreviation FIONBIO :: u32 where "FIONBIO \<equiv> 0x5421"
abbreviation FIOASYNC :: u32 where "FIOASYNC \<equiv> 0x5452"

definition fionbio :: "u32 \<Rightarrow> u32 \<Rightarrow> u32" where
  "fionbio old on = (if on \<noteq> 0 then old OR O_NONBLOCK else old AND NOT O_NONBLOCK)"

text \<open>
  An ioctl reads or writes one word of user memory: \<open>rd\<close> is what reading it gives, \<open>wr\<close> the outcome of writing. The
  result has the value written, if any, and the end with its flags.
\<close>

definition end_ioctl :: "pipes \<Rightarrow> pipe_end \<Rightarrow> u32 \<Rightarrow> u32 KResult \<Rightarrow> (u32 \<Rightarrow> unit KResult) \<Rightarrow> nat KResult \<times> pipe_end" where
  "end_ioctl s e req rd wr =
     (if req = FIONREAD then
        (kbind (wr (of_nat (length (pp_data (ps_pipe s (pe_pipe e)))))) (\<lambda>_. Inr 0), e)
      else if req = FIONBIO then
        (case rd of Inl er \<Rightarrow> (Inl er, e) | Inr on \<Rightarrow> (Inr 0, e\<lparr>pe_flags := fionbio (pe_flags e) on\<rparr>))
      else if req = FIOASYNC then (Inr 0, e)
      else (Inl ENOTTY, e))"

definition end_set_flags :: "pipe_end \<Rightarrow> u32 \<Rightarrow> pipe_end" where
  "end_set_flags e f = e\<lparr>pe_flags := set_flags (pe_flags e) f\<rparr>"

text \<open>\<^verbatim>\<open>pipe(2)\<close>: the read end and the write end.\<close>

definition pipe_pair :: "pipes \<Rightarrow> (pipe_end \<times> pipe_end) \<times> pipes" where
  "pipe_pair s =
     (let (i, s1) = new_pipe s; (r, s2) = end_open s1 i False False; (w, s3) = end_open s2 i True False in ((r, w), s3))"

section \<open>Fifos\<close>

text \<open>
  Opening a fifo, up to the point where it sleeps: refused, open, or asleep holding the end that is
  already counted. A woken thread looks again with \<open>fifo_wait\<close>; a signal gives the end back.
\<close>

datatype fifo_stop = FRefused Errno | FOpen pipe_end | FSleeps pipe_end

definition fifo_wait :: "bool \<Rightarrow> pipes \<Rightarrow> pipe_end \<Rightarrow> (fifo_stop \<times> pipes) option" where
  "fifo_wait sig s e =
     (let p = ps_pipe s (pe_pipe e) in
      if (if pe_write e then has_readers p else has_writers p) then Some (FOpen e, s)
      else if sig then map_option (\<lambda>s'. (FRefused EINTR, s')) (end_drop s e)
      else Some (FSleeps e, s))"

definition open_fifo :: "bool \<Rightarrow> pipes \<Rightarrow> nat \<Rightarrow> u32 \<Rightarrow> (fifo_stop \<times> pipes) option" where
  "open_fifo sig s i fl =
     (let wr = (fl AND O_ACCMODE \<noteq> O_RDONLY); nonblock = nonblocking fl in
      if nonblock \<and> wr \<and> \<not> has_readers (ps_pipe s i) then Some (FRefused ENXIO, s)
      else
        let (e, s1) = end_open s i wr nonblock
        in if nonblock then Some (FOpen e, s1) else fifo_wait sig s1 e)"

text \<open>A pipe in the table of names lives while an end of it is open.\<close>

definition pipe_alive :: "pipe \<Rightarrow> bool" where
  "pipe_alive p \<longleftrightarrow> 0 < pp_readers p + pp_writers p"

definition named_pipe :: "pipes \<Rightarrow> u64 \<Rightarrow> u64 \<Rightarrow> nat \<times> pipes" where
  "named_pipe s dev ino =
     (let named = bt_retain (\<lambda>_ i. pipe_alive (ps_pipe s i)) (ps_named s) in
      case bt_get named (dev, ino) of
        Some i \<Rightarrow> (i, s\<lparr>ps_named := named\<rparr>)
      | None \<Rightarrow> let (i, s1) = new_pipe s in (i, s1\<lparr>ps_named := bt_insert (dev, ino) i named\<rparr>))"

definition open_named :: "bool \<Rightarrow> pipes \<Rightarrow> u64 \<Rightarrow> u64 \<Rightarrow> u32 \<Rightarrow> (fifo_stop \<times> pipes) option" where
  "open_named sig s dev ino fl = (let (i, s1) = named_pipe s dev ino in open_fifo sig s1 i fl)"

section \<open>Stream pairs\<close>

record duplex =
  dx_rx :: pipe_end
  dx_tx :: pipe_end
  dx_flags :: u32
  dx_ino :: nat

definition socketpair :: "pipes \<Rightarrow> (duplex \<times> duplex) \<times> pipes" where
  "socketpair s =
     (let (a, s1) = new_pipe s; (b, s2) = new_pipe s1;
          (rx0, s3) = end_open s2 a False False; (tx0, s4) = end_open s3 b True False;
          (rx1, s5) = end_open (s4\<lparr>ps_next := ps_next s4 + 1\<rparr>) b False False; (tx1, s6) = end_open s5 a True False
      in ((\<lparr>dx_rx = rx0, dx_tx = tx0, dx_flags = O_RDWR, dx_ino = ps_next s4\<rparr>,
           \<lparr>dx_rx = rx1, dx_tx = tx1, dx_flags = O_RDWR, dx_ino = ps_next s6\<rparr>), s6\<lparr>ps_next := ps_next s6 + 1\<rparr>))"

definition duplex_read :: "bool \<Rightarrow> pipes \<Rightarrow> duplex \<Rightarrow> nat \<Rightarrow> (u8 list KResult stop \<times> bool \<times> pipes) \<times> duplex" where
  "duplex_read sig s d len =
     (let rx = end_set_flags (dx_rx d) (dx_flags d) in (end_read sig s rx len, d\<lparr>dx_rx := rx\<rparr>))"

definition duplex_write :: "bool \<Rightarrow> pipes \<Rightarrow> duplex \<Rightarrow> u8 list \<Rightarrow> nat \<Rightarrow> (write_stop \<times> bool \<times> pipes) \<times> duplex" where
  "duplex_write sig s d buf written =
     (let tx = end_set_flags (dx_tx d) (dx_flags d) in (end_write sig s tx buf written, d\<lparr>dx_tx := tx\<rparr>))"

definition duplex_stat :: "timespec \<Rightarrow> duplex \<Rightarrow> metadata KResult" where
  "duplex_stat now d = Inr (pipe_metadata now Socket (dx_ino d))"

definition duplex_poll :: "pipes \<Rightarrow> duplex \<Rightarrow> poll_bits" where
  "duplex_poll s d =
     (let r = end_poll s (dx_rx d); w = end_poll s (dx_tx d) in
      (if poll_contains r POLL_IN then POLL_IN else 0) OR (if poll_contains r POLL_HUP then POLL_HUP else 0) OR
      (if poll_contains w POLL_OUT then POLL_OUT else 0))"

definition duplex_ioctl :: "pipes \<Rightarrow> duplex \<Rightarrow> u32 \<Rightarrow> u32 KResult \<Rightarrow> (u32 \<Rightarrow> unit KResult) \<Rightarrow> nat KResult \<times> duplex" where
  "duplex_ioctl s d req rd wr =
     (if req = FIONBIO then
        (case rd of Inl er \<Rightarrow> (Inl er, d) | Inr on \<Rightarrow> (Inr 0, d\<lparr>dx_flags := fionbio (dx_flags d) on\<rparr>))
      else case end_ioctl s (dx_rx d) req rd wr of (r, rx) \<Rightarrow> (r, d\<lparr>dx_rx := rx\<rparr>))"

definition duplex_set_flags :: "duplex \<Rightarrow> u32 \<Rightarrow> duplex" where
  "duplex_set_flags d f = d\<lparr>dx_flags := set_flags (dx_flags d) f\<rparr>"
section \<open>What a section does\<close>

definition pipe_ok :: "pipe \<Rightarrow> bool" where
  "pipe_ok p \<longleftrightarrow> length (pp_data p) \<le> PIPE_CAPACITY"

definition stopped_at :: "write_stop \<Rightarrow> nat \<Rightarrow> bool" where
  "stopped_at stop n = (case stop of WEnds (Inr k) _ \<Rightarrow> k = n | WEnds (Inl e) _ \<Rightarrow> n = 0 | WSleeps k \<Rightarrow> k = n)"

lemma write_section_effect:
  assumes "write_section nonblock sig p buf written = (stop, woke, p')" "pipe_ok p" "written \<le> length buf"
  shows "\<exists>k. p' = p\<lparr>pp_data := pp_data p @ take k (drop written buf)\<rparr> \<and> written + k \<le> length buf \<and>
      (woke \<longleftrightarrow> 0 < k) \<and> pipe_ok p' \<and> stopped_at stop (written + k)"
  using assms
proof (induction nonblock sig p buf written arbitrary: stop woke p' rule: write_section.induct)
  case (1 nonblock sig p buf written)
  let ?rest = "drop written buf"
  define n where "n = min (length ?rest) (space p)"
  let ?q = "p\<lparr>pp_data := pp_data p @ take n ?rest\<rparr>"
  show ?case
  proof (cases "written < length buf \<and> 0 < pp_readers p \<and> write_need (length ?rest) \<le> space p")
    case True
    obtain stop1 woke1 p1 where s1: "write_section nonblock sig ?q buf (written + n) = (stop1, woke1, p1)"
      by (cases "write_section nonblock sig ?q buf (written + n)")
    have eq: "stop = stop1" "woke" "p' = p1"
      using "1.prems"(1) True s1 by (auto simp: write_section.simps [of nonblock sig p] Let_def n_def)
    have n: "0 < n" "written + n \<le> length buf" using True by (auto simp: n_def write_need_def split: if_splits)
    have ok: "pipe_ok ?q" using "1.prems"(2) by (auto simp: pipe_ok_def n_def space_def)
    obtain k where k: "p1 = ?q\<lparr>pp_data := pp_data ?q @ take k (drop (written + n) buf)\<rparr>" "written + n + k \<le> length buf"
        "pipe_ok p1" "stopped_at stop1 (written + n + k)"
      using "1.IH" [OF _ refl _ _ n_def s1 ok n(2)] True by auto
    have "take n ?rest @ take k (drop (written + n) buf) = take (n + k) ?rest"
      by (simp add: take_add add.commute [of written n])
    then show ?thesis using k n(1) eq by (intro exI [of _ "n + k"]) (simp add: add.assoc)
  next
    case False
    then have "p' = p" "\<not> woke" "stopped_at stop written"
      using "1.prems" by (auto simp: write_section.simps [of nonblock sig p] Let_def stopped_at_def short_write_def split: if_splits)
    then show ?thesis using "1.prems"(2,3) by (intro exI [of _ 0]) simp
  qed
qed

text \<open>A write sleeps only if its next bytes do not fit, and with a reader and no signal it ends only when all is written.\<close>

lemma write_section_stop:
  assumes "write_section nonblock sig p buf written = (stop, woke, p')" "pipe_ok p" "written \<le> length buf"
  shows "stop = WSleeps n \<Longrightarrow> n < length buf \<and> 0 < pp_readers p \<and> space p' < write_need (length buf - n)"
    and "\<lbrakk>stop = WEnds r sp; \<not> nonblock; \<not> sig; 0 < pp_readers p\<rbrakk> \<Longrightarrow> r = Inr (length buf) \<and> \<not> sp"
proof -
  have "(stop = WSleeps n \<longrightarrow> n < length buf \<and> 0 < pp_readers p \<and> space p' < write_need (length buf - n)) \<and>
    (stop = WEnds r sp \<and> \<not> nonblock \<and> \<not> sig \<and> 0 < pp_readers p \<longrightarrow> r = Inr (length buf) \<and> \<not> sp)"
    using assms
  proof (induction nonblock sig p buf written arbitrary: stop woke p' rule: write_section.induct)
    case (1 nonblock sig p buf written)
    let ?rest = "drop written buf"
    define n' where "n' = min (length ?rest) (space p)"
    let ?q = "p\<lparr>pp_data := pp_data p @ take n' ?rest\<rparr>"
    show ?case
    proof (cases "written < length buf \<and> 0 < pp_readers p \<and> write_need (length ?rest) \<le> space p")
      case True
      obtain stop1 woke1 p1 where s1: "write_section nonblock sig ?q buf (written + n') = (stop1, woke1, p1)"
        by (cases "write_section nonblock sig ?q buf (written + n')")
      have eq: "stop = stop1" "woke" "p' = p1"
        using "1.prems"(1) True s1 by (auto simp: write_section.simps [of nonblock sig p] Let_def n'_def)
      have ok: "pipe_ok ?q" "written + n' \<le> length buf" using "1.prems"(2) True by (auto simp: pipe_ok_def n'_def space_def)
      show ?thesis using "1.IH" [OF _ refl _ _ n'_def s1 ok] True eq by auto
    next
      case False
      then show ?thesis
        using "1.prems" by (auto simp: write_section.simps [of nonblock sig p] Let_def split: if_splits)
    qed
  qed
  then show "stop = WSleeps n \<Longrightarrow> n < length buf \<and> 0 < pp_readers p \<and> space p' < write_need (length buf - n)"
    "\<lbrakk>stop = WEnds r sp; \<not> nonblock; \<not> sig; 0 < pp_readers p\<rbrakk> \<Longrightarrow> r = Inr (length buf) \<and> \<not> sp" by auto
qed

text \<open>A write of at most \<^verbatim>\<open>PIPE_BUF\<close> bytes enters whole or not at all.\<close>

lemma write_section_atomic:
  assumes "write_section nonblock sig p buf 0 = (stop, woke, p')" "pipe_ok p" "length buf \<le> PIPE_BUF"
  shows "p' = p \<or> p' = p\<lparr>pp_data := pp_data p @ buf\<rparr>"
proof (cases "buf \<noteq> [] \<and> 0 < pp_readers p \<and> length buf \<le> space p")
  case True
  then have "min (length buf) (space p) = length buf" by simp
  then show ?thesis
    using assms True by (auto simp: write_section.simps [of nonblock sig p] write_section.simps [of _ _ _ _ "length buf"] Let_def write_need_def)
next
  case False
  then show ?thesis using assms by (auto simp: write_section.simps [of nonblock sig p] Let_def write_need_def split: if_splits)
qed

section \<open>Theorems\<close>

text \<open>
  C33 (poll tells the truth). The read end of a pipe is reported readable or hung up exactly when a blocking read would return at once, and the
  write end is reported writable exactly when every write of at most \<^verbatim>\<open>PIPE_BUF\<close> bytes would.
\<close>

theorem pipe_poll_truthful:
  "(poll_intersects (pipe_poll False p) (POLL_IN OR POLL_HUP) \<longleftrightarrow> fst (read_section False False p (Suc len)) \<noteq> Sleeps) \<and>
   (poll_intersects (pipe_poll True p) POLL_OUT \<longleftrightarrow>
     (\<forall>buf. length buf \<le> PIPE_BUF \<longrightarrow> (\<exists>r sp. fst (write_section False False p buf 0) = WEnds r sp)))"
proof (intro conjI iffI allI impI)
  show "fst (read_section False False p (Suc len)) \<noteq> Sleeps" if "poll_intersects (pipe_poll False p) (POLL_IN OR POLL_HUP)"
    using that by (auto simp: pipe_poll_def read_section_def poll_defs Let_def split: if_splits)
  show "poll_intersects (pipe_poll False p) (POLL_IN OR POLL_HUP)" if "fst (read_section False False p (Suc len)) \<noteq> Sleeps"
    using that by (auto simp: pipe_poll_def read_section_def poll_defs Let_def split: if_splits)
  show "\<exists>r sp. fst (write_section False False p buf 0) = WEnds r sp"
    if "poll_intersects (pipe_poll True p) POLL_OUT" "length buf \<le> PIPE_BUF" for buf
  proof -
    have "pp_readers p = 0 \<or> PIPE_BUF \<le> space p" using that(1) by (auto simp: pipe_poll_def poll_defs split: if_splits)
    then show ?thesis using that(2)
      by (auto simp: write_section.simps [of _ _ p] write_section.simps [of _ _ _ _ "length buf"] Let_def write_need_def min_def
          split: prod.splits)
  qed
  show "poll_intersects (pipe_poll True p) POLL_OUT"
    if w: "\<forall>buf. length buf \<le> PIPE_BUF \<longrightarrow> (\<exists>r sp. fst (write_section False False p buf 0) = WEnds r sp)"
  proof -
    have "\<exists>r sp. fst (write_section False False p (replicate PIPE_BUF 0) 0) = WEnds r sp" by (rule w [rule_format]) simp
    then have "pp_readers p = 0 \<or> PIPE_BUF \<le> space p"
      by (auto simp: write_section.simps [of _ _ p] Let_def write_need_def PIPE_BUF_def split: if_splits)
    then show ?thesis by (auto simp: pipe_poll_def poll_defs)
  qed
qed

theorem pipe_poll_truthful_witness:
  "poll_intersects (pipe_poll False (pipe_open pipe_new True)) (POLL_IN OR POLL_HUP) = False \<and>
   fst (read_section False False (pipe_open pipe_new True) 1) = Sleeps"
  using pipe_poll_truthful [of "pipe_open pipe_new True" 0]
  by (simp add: pipe_open_def pipe_new_def pipe_poll_def poll_intersects_def)

end
