(* ===== verification/Pipe_System.thy ===== *)
theory Pipe_System
  imports Pipe
begin

text \<open>
  Threads that share a pipe. Each writer writes one buffer and closes its end, each reader reads until the end of the
  stream; the scheduler picks any thread that is awake and runs it for one section. A section that wakes the waiting
  threads (\<^verbatim>\<open>wake_all\<close>) makes all of them runnable. The logs of what went in and came out, tagged with the thread, only record.
\<close>

section \<open>Threads\<close>

datatype proc =
    Writing "u8 list" nat
  | Closing "nat KResult"
  | Closed "nat KResult"
  | Reading nat "u8 list"
  | Finished "u8 list"

record psys =
  sy_pipe :: pipe
  sy_procs :: "(proc \<times> bool) list"
  sy_in :: "(nat \<times> u8 list) list"
  sy_out :: "(nat \<times> u8 list) list"

text \<open>One section of a thread: what it is then, whether it sleeps, whether it woke the others.\<close>

fun run_section :: "pipe \<Rightarrow> proc \<Rightarrow> (proc \<times> bool \<times> bool \<times> pipe) option" where
  "run_section p (Writing buf n) =
     (case write_section False False p buf n of
        (WEnds r _, woke, p') \<Rightarrow> Some (Closing r, False, woke, p')
      | (WSleeps k, woke, p') \<Rightarrow> Some (Writing buf k, True, woke, p'))"
| "run_section p (Closing r) = map_option (\<lambda>p'. (Closed r, False, True, p')) (pipe_drop p True)"
| "run_section p (Reading len got) =
     (case read_section False False p len of
        (Ends (Inr bs), woke, p') \<Rightarrow> Some (if bs = [] then Finished got else Reading len (got @ bs), False, woke, p')
      | (Ends (Inl e), woke, p') \<Rightarrow> Some (Finished got, False, woke, p')
      | (Sleeps, woke, p') \<Rightarrow> Some (Reading len got, True, woke, p'))"
| "run_section p (Closed r) = None"
| "run_section p (Finished got) = None"

definition log_entry :: "nat \<Rightarrow> u8 list \<Rightarrow> (nat \<times> u8 list) list" where
  "log_entry i bs = (if bs = [] then [] else [(i, bs)])"

definition wake_procs :: "bool \<Rightarrow> (proc \<times> bool) list \<Rightarrow> (proc \<times> bool) list" where
  "wake_procs woke ps = (if woke then map (\<lambda>(q, _). (q, False)) ps else ps)"

definition run_proc :: "psys \<Rightarrow> nat \<Rightarrow> psys option" where
  "run_proc s i =
     (if i < length (sy_procs s) \<and> \<not> snd (sy_procs s ! i) then
        case run_section (sy_pipe s) (fst (sy_procs s ! i)) of
          None \<Rightarrow> None
        | Some (q, asleep, woke, p') \<Rightarrow>
            let old = pp_data (sy_pipe s); new = pp_data p' in
            Some \<lparr>sy_pipe = p', sy_procs = (wake_procs woke (sy_procs s))[i := (q, asleep)],
              sy_in = sy_in s @ log_entry i (drop (length old) new),
              sy_out = sy_out s @ log_entry i (take (length old - length new) old)\<rparr>
      else None)"

inductive sys_step :: "psys \<Rightarrow> psys \<Rightarrow> bool" where
  "run_proc s i = Some s' \<Longrightarrow> sys_step s s'"

inductive_cases sys_stepE: "sys_step s s'"

definition sys_start :: "u8 list list \<Rightarrow> nat list \<Rightarrow> psys" where
  "sys_start ws rs =
     \<lparr>sy_pipe = foldl pipe_open pipe_new (replicate (length ws) True @ replicate (length rs) False),
      sy_procs = map (\<lambda>b. (Writing b 0, False)) ws @ map (\<lambda>n. (Reading n [], False)) rs, sy_in = [], sy_out = []\<rparr>"

section \<open>The invariant\<close>

definition sent :: "nat \<Rightarrow> (nat \<times> u8 list) list \<Rightarrow> u8 list" where
  "sent i lg = concat (map snd (filter (\<lambda>e. fst e = i) lg))"

fun is_open :: "proc \<Rightarrow> bool" where
  "is_open (Writing b n) = True"
| "is_open (Closing r) = True"
| "is_open _ = False"

text \<open>The thread could not go on.\<close>

fun waiting :: "pipe \<Rightarrow> proc \<Rightarrow> bool" where
  "waiting p (Writing b n) \<longleftrightarrow> n < length b \<and> 0 < pp_readers p \<and> space p < write_need (length b - n)"
| "waiting p (Reading n got) \<longleftrightarrow> pp_data p = [] \<and> 0 < pp_writers p"
| "waiting p _ \<longleftrightarrow> False"

fun writer_ok :: "u8 list \<Rightarrow> u8 list \<Rightarrow> proc \<Rightarrow> bool" where
  "writer_ok buf done (Writing b n) \<longleftrightarrow> b = buf \<and> n \<le> length b \<and> done = take n b"
| "writer_ok buf done (Closing r) \<longleftrightarrow> r = Inr (length buf) \<and> done = buf"
| "writer_ok buf done (Closed r) \<longleftrightarrow> r = Inr (length buf) \<and> done = buf"
| "writer_ok buf done _ \<longleftrightarrow> False"

fun reader_ok :: "nat \<Rightarrow> pipe \<Rightarrow> u8 list \<Rightarrow> proc \<Rightarrow> bool" where
  "reader_ok len p done (Reading n got) \<longleftrightarrow> n = len \<and> got = done"
| "reader_ok len p done (Finished got) \<longleftrightarrow> got = done \<and> pp_writers p = 0 \<and> pp_data p = []"
| "reader_ok len p done _ \<longleftrightarrow> False"

definition proc_ok :: "u8 list list \<Rightarrow> nat list \<Rightarrow> psys \<Rightarrow> nat \<Rightarrow> bool" where
  "proc_ok ws rs s i \<longleftrightarrow>
     (if i < length ws then writer_ok (ws ! i) (sent i (sy_in s)) (fst (sy_procs s ! i))
      else reader_ok (rs ! (i - length ws)) (sy_pipe s) (sent i (sy_out s)) (fst (sy_procs s ! i))) \<and>
     (snd (sy_procs s ! i) \<longrightarrow> waiting (sy_pipe s) (fst (sy_procs s ! i)))"

definition sys_inv :: "u8 list list \<Rightarrow> nat list \<Rightarrow> psys \<Rightarrow> bool" where
  "sys_inv ws rs s \<longleftrightarrow>
     length (sy_procs s) = length ws + length rs \<and> pipe_ok (sy_pipe s) \<and> pp_readers (sy_pipe s) = length rs \<and>
     pp_writers (sy_pipe s) = length (filter (\<lambda>(q, _). is_open q) (sy_procs s)) \<and>
     concat (map snd (sy_out s)) @ pp_data (sy_pipe s) = concat (map snd (sy_in s)) \<and>
     (\<forall>i < length (sy_procs s). proc_ok ws rs s i)"

lemma sent_append [simp]: "sent i (lg @ lg') = sent i lg @ sent i lg'"
  by (simp add: sent_def)

lemma sent_log_entry [simp]: "sent i (log_entry j bs) = (if i = j then bs else [])"
  by (simp add: sent_def log_entry_def)

lemma concat_log_entry [simp]: "concat (map snd (log_entry j bs)) = bs"
  by (simp add: log_entry_def)

lemma wake_procs_simps [simp]:
  "length (wake_procs woke ps) = length ps"
  "filter (\<lambda>(q, _). is_open q) (wake_procs woke ps) = wake_procs woke (filter (\<lambda>(q, _). is_open q) ps)"
  by (induction ps) (auto simp: wake_procs_def)

lemma wake_procs_nth: "j < length ps \<Longrightarrow> wake_procs woke ps ! j = (fst (ps ! j), snd (ps ! j) \<and> \<not> woke)"
  by (auto simp: wake_procs_def case_prod_beta prod_eq_iff)

lemma filter_update:
  "i < length xs \<Longrightarrow> length (filter P (xs[i := y])) + (if P (xs ! i) then 1 else 0) = length (filter P xs) + (if P y then 1 else 0)"
proof (induction xs arbitrary: i)
  case (Cons x xs)
  then show ?case by (cases i) auto
qed simp
text \<open>What one section does to the pipe, by the kind of thread.\<close>

lemma section_writing:
  assumes "run_section p (Writing buf n) = Some (q, asleep, woke, p')" "pipe_ok p" "n \<le> length buf" "0 < pp_readers p"
  obtains k where "p' = p\<lparr>pp_data := pp_data p @ take k (drop n buf)\<rparr>" "n + k \<le> length buf" "pipe_ok p'" "woke \<longleftrightarrow> 0 < k"
    and "if asleep then q = Writing buf (n + k) \<and> waiting p' q else q = Closing (Inr (length buf)) \<and> n + k = length buf"
proof -
  obtain stop p1 where st: "write_section False False p buf n = (stop, woke, p')"
    and q: "(q, asleep) = (case stop of WEnds r _ \<Rightarrow> (Closing r, False) | WSleeps k \<Rightarrow> (Writing buf k, True))"
    using assms(1) by (auto split: prod.splits write_stop.splits)
  obtain k where k: "p' = p\<lparr>pp_data := pp_data p @ take k (drop n buf)\<rparr>" "n + k \<le> length buf" "woke \<longleftrightarrow> 0 < k" "pipe_ok p'"
      "stopped_at stop (n + k)"
    using write_section_effect [OF st assms(2,3)] by blast
  have "if asleep then q = Writing buf (n + k) \<and> waiting p' q else q = Closing (Inr (length buf)) \<and> n + k = length buf"
    using q k write_section_stop [OF st assms(2,3)] assms(4)
    by (cases stop) (auto simp: stopped_at_def)
  then show thesis using that k by blast
qed

lemma section_reading:
  assumes "run_section p (Reading len got) = Some (q, asleep, woke, p')" "0 < len"
  obtains (take) bs where "bs \<noteq> []" "pp_data p = bs @ pp_data p'" "pp_readers p' = pp_readers p" "pp_writers p' = pp_writers p" "q = Reading len (got @ bs)" "\<not> asleep" "woke"
  | (finish) "pp_data p = []" "pp_writers p = 0" "p' = p" "q = Finished got" "\<not> asleep" "\<not> woke"
  | (sleep) "pp_data p = []" "0 < pp_writers p" "p' = p" "q = Reading len got" "asleep" "\<not> woke"
proof (cases "pp_data p = []")
  case True
  then show thesis using assms finish sleep by (auto simp: read_section_def split: if_splits)
next
  case False
  let ?n = "min len (length (pp_data p))"
  have "take ?n (pp_data p) \<noteq> []" using False assms(2) by (simp add: min_def)
  then show thesis using assms False take [of "take ?n (pp_data p)"] by (auto simp: read_section_def Let_def simp del: take_eq_Nil)
qed

lemma inv_update:
  assumes inv: "sys_inv ws rs s" and i: "i < length (sy_procs s)" and old: "pp_data (sy_pipe s) @ add = taken @ pp_data p'"
    and p': "pipe_ok p'" "pp_readers p' = pp_readers (sy_pipe s)" "\<not> woke \<longrightarrow> p' = sy_pipe s"
    and w: "pp_writers p' + (if is_open (fst (sy_procs s ! i)) then 1 else 0) = pp_writers (sy_pipe s) + (if is_open q then 1 else 0)"
    and fin: "pp_writers (sy_pipe s) = 0 \<and> pp_data (sy_pipe s) = [] \<longrightarrow> pp_writers p' = 0 \<and> pp_data p' = []"
    and s': "s' = \<lparr>sy_pipe = p', sy_procs = (wake_procs woke (sy_procs s))[i := (q, asleep)],
        sy_in = sy_in s @ log_entry i add, sy_out = sy_out s @ log_entry i taken\<rparr>"
    and me: "proc_ok ws rs s' i"
  shows "sys_inv ws rs s'"
proof -
  have "length (filter (\<lambda>(q, _). is_open q) (wake_procs woke (sy_procs s))) = length (filter (\<lambda>(q, _). is_open q) (sy_procs s))"
    by simp
  then have "length (filter (\<lambda>(q, _). is_open q) (sy_procs s')) = pp_writers p'"
    using filter_update [of i "wake_procs woke (sy_procs s)" "\<lambda>(q, _). is_open q" "(q, asleep)"] i inv w
    by (simp add: s' sys_inv_def wake_procs_nth split: if_splits)
  moreover have "proc_ok ws rs s' j" if j: "j < length (sy_procs s)" for j
  proof (cases "j = i")
    case False
    have "proc_ok ws rs s j" using inv j by (simp add: sys_inv_def)
    then show ?thesis using False j p'(3) fin
      by (cases "fst (sy_procs s ! j)") (auto simp: proc_ok_def s' wake_procs_nth split: if_splits)
  qed (use me in simp)
  moreover have "concat (map snd (sy_out s')) @ pp_data p' = concat (map snd (sy_in s'))"
  proof -
    have "concat (map snd (sy_out s)) @ taken @ pp_data p' = concat (map snd (sy_out s)) @ pp_data (sy_pipe s) @ add"
      by (simp only: old)
    also have "\<dots> = concat (map snd (sy_in s)) @ add" using inv by (simp add: sys_inv_def flip: append_assoc)
    finally show ?thesis by (simp add: s')
  qed
  ultimately show ?thesis using inv p' i by (simp add: sys_inv_def s')
qed

text \<open>Progress: bytes still to be written, bytes in the pipe and open ends; then the threads that are awake.\<close>

fun proc_work :: "proc \<Rightarrow> nat" where
  "proc_work (Writing b n) = 2 * (length b - n) + 2"
| "proc_work (Closing r) = 1"
| "proc_work (Closed r) = 0"
| "proc_work (Reading n got) = 1"
| "proc_work (Finished got) = 0"

definition sys_work :: "psys \<Rightarrow> nat" where
  "sys_work s = sum_list (map (\<lambda>e. proc_work (fst e)) (sy_procs s)) + length (pp_data (sy_pipe s))"

definition sys_awake :: "psys \<Rightarrow> nat" where
  "sys_awake s = length (filter (\<lambda>(_, a). \<not> a) (sy_procs s))"

lemma sum_list_update_nat:
  "i < length xs \<Longrightarrow> sum_list (map f (xs[i := y])) + f (xs ! i) = sum_list (map f xs) + (f y :: nat)"
proof (induction xs arbitrary: i)
  case (Cons x xs)
  then show ?case by (cases i) auto
qed simp

lemma wake_procs_work [simp]: "sum_list (map (\<lambda>e. proc_work (fst e)) (wake_procs woke ps)) = sum_list (map (\<lambda>e. proc_work (fst e)) ps)"
  by (simp add: wake_procs_def comp_def case_prod_beta)

fun proc_fits :: "pipe \<Rightarrow> proc \<Rightarrow> bool" where
  "proc_fits p (Writing b n) \<longleftrightarrow> n \<le> length b \<and> 0 < pp_writers p"
| "proc_fits p (Closing r) \<longleftrightarrow> 0 < pp_writers p"
| "proc_fits p (Reading n got) \<longleftrightarrow> 0 < n"
| "proc_fits p _ \<longleftrightarrow> True"

lemma section_effect:
  assumes "run_section p q0 = Some (q, asleep, woke, p')" "pipe_ok p" "0 < pp_readers p" "proc_fits p q0"
  obtains add taken where "pp_data p @ add = taken @ pp_data p'" "add = [] \<or> taken = []" "pipe_ok p'" "pp_readers p' = pp_readers p"
    and "\<not> woke \<longrightarrow> p' = p" "pp_writers p' + (if is_open q0 then 1 else 0) = pp_writers p + (if is_open q then 1 else 0)"
    and "pp_writers p = 0 \<and> pp_data p = [] \<longrightarrow> pp_writers p' = 0 \<and> pp_data p' = []" "asleep \<longrightarrow> waiting p' q"
    and "proc_work q + length (pp_data p') < proc_work q0 + length (pp_data p) \<or> asleep \<and> \<not> woke \<and> q = q0 \<and> p' = p"
    and "\<forall>buf d. writer_ok buf d q0 \<longrightarrow> writer_ok buf (d @ add) q" "\<forall>len d. reader_ok len p d q0 \<longrightarrow> reader_ok len p' (d @ taken) q"
proof (cases q0)
  case (Writing b n)
  then have "n \<le> length b" using assms(4) by simp
  from section_writing [OF assms(1) [unfolded Writing] assms(2) this assms(3)]
  obtain k where k: "p' = p\<lparr>pp_data := pp_data p @ take k (drop n b)\<rparr>" "n + k \<le> length b" "pipe_ok p'" "woke \<longleftrightarrow> 0 < k"
    and q: "if asleep then q = Writing b (n + k) \<and> waiting p' q else q = Closing (Inr (length b)) \<and> n + k = length b" .
  show thesis
  proof (rule that [of "take k (drop n b)" "[]"])
    show "\<forall>buf d. writer_ok buf d q0 \<longrightarrow> writer_ok buf (d @ take k (drop n b)) q" using q k(2) by (auto simp: Writing take_add split: if_splits)
  qed (use q k assms(4) Writing in \<open>auto split: if_splits\<close>)
next
  case (Closing r)
  show thesis
    by (rule that [of "[]" "[]"]) (use assms Closing in \<open>auto simp: pipe_drop_def pipe_ok_def split: if_splits\<close>)
next
  case (Reading len got)
  then have "0 < len" using assms(4) by simp
  with assms(1) [unfolded Reading] show thesis
  proof (cases rule: section_reading)
    case (take bs)
    show thesis
      by (rule that [of "[]" bs]) (use take assms(2) Reading in \<open>auto simp: pipe_ok_def\<close>)
  next
    case finish
    show thesis by (rule that [of "[]" "[]"]) (use finish assms(2) Reading in auto)
  next
    case sleep
    show thesis by (rule that [of "[]" "[]"]) (use sleep assms(2) Reading in auto)
  qed
qed (use assms(1) in auto)

lemma proc_fits_inv:
  assumes "sys_inv ws rs s" "0 \<notin> set rs" "i < length (sy_procs s)"
  shows "proc_fits (sy_pipe s) (fst (sy_procs s ! i))"
proof -
  have "is_open (fst (sy_procs s ! i)) \<Longrightarrow> 0 < pp_writers (sy_pipe s)"
    using assms(1,3) by (auto simp: sys_inv_def filter_empty_conv case_prod_beta)
  moreover have "rs ! (i - length ws) \<noteq> 0" if "\<not> i < length ws"
  proof -
    have "i - length ws < length rs" using assms(1,3) that by (auto simp: sys_inv_def)
    then have "rs ! (i - length ws) \<in> set rs" by simp
    then show ?thesis using assms(2) by metis
  qed
  moreover have "proc_ok ws rs s i" using assms(1,3) by (simp add: sys_inv_def)
  ultimately show ?thesis by (cases "fst (sy_procs s ! i)") (auto simp: proc_ok_def split: if_splits)
qed

lemma step_effect:
  assumes "sys_inv ws rs s" "rs \<noteq> []" "0 \<notin> set rs" "run_proc s i = Some s'"
  shows "sys_inv ws rs s' \<and> (sys_work s' < sys_work s \<or> sys_work s' = sys_work s \<and> sys_awake s' < sys_awake s)"
proof -
  let ?p = "sy_pipe s" and ?q0 = "fst (sy_procs s ! i)"
  obtain q asleep woke p' where i: "i < length (sy_procs s)" "\<not> snd (sy_procs s ! i)"
    and rs: "run_section ?p ?q0 = Some (q, asleep, woke, p')"
    and s0: "s' = \<lparr>sy_pipe = p', sy_procs = (wake_procs woke (sy_procs s))[i := (q, asleep)],
        sy_in = sy_in s @ log_entry i (drop (length (pp_data ?p)) (pp_data p')),
        sy_out = sy_out s @ log_entry i (take (length (pp_data ?p) - length (pp_data p')) (pp_data ?p))\<rparr>"
    using assms(4) by (auto simp: run_proc_def Let_def split: if_splits option.splits)
  have p: "pipe_ok ?p" "0 < pp_readers ?p" using assms(1,2) by (auto simp: sys_inv_def)
  from section_effect [OF rs p proc_fits_inv [OF assms(1,3) i(1)]]
  obtain add taken where e: "pp_data ?p @ add = taken @ pp_data p'" "add = [] \<or> taken = []" "pipe_ok p'" "pp_readers p' = pp_readers ?p"
      "\<not> woke \<longrightarrow> p' = ?p" "pp_writers p' + (if is_open ?q0 then 1 else 0) = pp_writers ?p + (if is_open q then 1 else 0)"
      "pp_writers ?p = 0 \<and> pp_data ?p = [] \<longrightarrow> pp_writers p' = 0 \<and> pp_data p' = []" "asleep \<longrightarrow> waiting p' q"
    and work: "proc_work q + length (pp_data p') < proc_work ?q0 + length (pp_data ?p) \<or> asleep \<and> \<not> woke \<and> q = ?q0 \<and> p' = ?p"
    and ok: "\<forall>buf d. writer_ok buf d ?q0 \<longrightarrow> writer_ok buf (d @ add) q" "\<forall>len d. reader_ok len ?p d ?q0 \<longrightarrow> reader_ok len p' (d @ taken) q" .
  have "drop (length (pp_data ?p)) (pp_data p') = add" "take (length (pp_data ?p) - length (pp_data p')) (pp_data ?p) = taken"
  proof -
    from e(2) consider "taken = []" "pp_data p' = pp_data ?p @ add" | "add = []" "pp_data ?p = taken @ pp_data p'" using e(1) by auto
    then show "drop (length (pp_data ?p)) (pp_data p') = add"
      "take (length (pp_data ?p) - length (pp_data p')) (pp_data ?p) = taken" by (cases; simp)+
  qed
  then have s': "s' = \<lparr>sy_pipe = p', sy_procs = (wake_procs woke (sy_procs s))[i := (q, asleep)],
        sy_in = sy_in s @ log_entry i add, sy_out = sy_out s @ log_entry i taken\<rparr>" using s0 by simp
  have "proc_ok ws rs s i" using assms(1) i(1) by (simp add: sys_inv_def)
  then have "proc_ok ws rs s' i" using ok e(8) i(1) by (auto simp: proc_ok_def s' split: if_splits)
  then have "sys_inv ws rs s'" by (rule inv_update [OF assms(1) i(1) e(1,3-7) s'])
  moreover have "sys_work s' + proc_work ?q0 + length (pp_data ?p) = sys_work s + proc_work q + length (pp_data p')"
    using sum_list_update_nat [of i "wake_procs woke (sy_procs s)" "\<lambda>e. proc_work (fst e)" "(q, asleep)"] i(1)
    by (simp add: sys_work_def s' wake_procs_nth)
  moreover have "sys_awake s' < sys_awake s" if "asleep" "\<not> woke"
    using filter_update [of i "sy_procs s" "\<lambda>(_, a). \<not> a" "(q, asleep)"] i that
    by (auto simp: sys_awake_def s' wake_procs_def case_prod_beta)
  ultimately show ?thesis using work by auto
qed

section \<open>Theorems\<close>

lemma start_counts:
  "pp_writers (foldl pipe_open p (replicate m True @ replicate n False)) = pp_writers p + m"
  "pp_readers (foldl pipe_open p (replicate m True @ replicate n False)) = pp_readers p + n"
  "pp_data (foldl pipe_open p (replicate m True @ replicate n False)) = pp_data p"
proof -
  have t: "pp_writers (foldl pipe_open p (replicate m True)) = pp_writers p + m \<and>
      pp_readers (foldl pipe_open p (replicate m True)) = pp_readers p \<and> pp_data (foldl pipe_open p (replicate m True)) = pp_data p" for p
    by (induction m arbitrary: p) (auto simp: pipe_open_def)
  have f: "pp_writers (foldl pipe_open p (replicate n False)) = pp_writers p \<and>
      pp_readers (foldl pipe_open p (replicate n False)) = pp_readers p + n \<and> pp_data (foldl pipe_open p (replicate n False)) = pp_data p" for p
    by (induction n arbitrary: p) (auto simp: pipe_open_def)
  show "pp_writers (foldl pipe_open p (replicate m True @ replicate n False)) = pp_writers p + m"
    "pp_readers (foldl pipe_open p (replicate m True @ replicate n False)) = pp_readers p + n"
    "pp_data (foldl pipe_open p (replicate m True @ replicate n False)) = pp_data p" by (simp_all add: t f)
qed

lemma start_inv: "sys_inv ws rs (sys_start ws rs)"
  by (auto simp: sys_inv_def sys_start_def start_counts pipe_new_def pipe_ok_def proc_ok_def sent_def nth_append filter_map comp_def
      simp del: foldl_append)

lemma reach_sys_inv:
  assumes "sys_step\<^sup>*\<^sup>* (sys_start ws rs) s" "rs \<noteq> []" "0 \<notin> set rs"
  shows "sys_inv ws rs s"
  using assms(1)
proof (induction rule: rtranclp_induct)
  case (step s s')
  then show ?case using step_effect [OF step.IH assms(2,3)] by (auto elim: sys_stepE)
qed (rule start_inv)

text \<open>No thread is left asleep by mistake: where nothing can run, every thread is through.\<close>

lemma need_fits: "pp_data p = [] \<Longrightarrow> \<not> space p < write_need n"
  by (simp add: space_def write_need_def PIPE_CAPACITY_def PIPE_BUF_def)

lemma stuck_proc:
  assumes "sys_inv ws rs s" "0 \<notin> set rs" "\<nexists>s'. sys_step s s'" "k < length (sy_procs s)"
  shows "waiting (sy_pipe s) (fst (sy_procs s ! k)) \<or> (\<exists>r. fst (sy_procs s ! k) = Closed r) \<or> (\<exists>got. fst (sy_procs s ! k) = Finished got)"
proof (cases "snd (sy_procs s ! k)")
  case True
  then show ?thesis using assms(1,4) by (auto simp: sys_inv_def proc_ok_def)
next
  case False
  have "run_proc s k = None" using assms(3) by (cases "run_proc s k") (auto intro: sys_step.intros)
  then have "run_section (sy_pipe s) (fst (sy_procs s ! k)) = None"
    using False assms(4) by (auto simp: run_proc_def Let_def split: option.splits)
  then show ?thesis using proc_fits_inv [OF assms(1,2,4)]
    by (cases "fst (sy_procs s ! k)") (auto simp: pipe_drop_def split: prod.splits write_stop.splits stop.splits sum.splits)
qed

lemma stuck_done:
  assumes inv: "sys_inv ws rs s" and rs: "rs \<noteq> []" "0 \<notin> set rs" and stuck: "\<nexists>s'. sys_step s s'"
  shows "j < length rs \<Longrightarrow> \<exists>got. fst (sy_procs s ! (length ws + j)) = Finished got"
    and "i < length ws \<Longrightarrow> fst (sy_procs s ! i) = Closed (Inr (length (ws ! i)))"
proof -
  have len: "length (sy_procs s) = length ws + length rs" and ok: "\<And>k. k < length (sy_procs s) \<Longrightarrow> proc_ok ws rs s k"
    and w: "pp_writers (sy_pipe s) = length (filter (\<lambda>(q, _). is_open q) (sy_procs s))"
    using inv by (auto simp: sys_inv_def)
  note sp = stuck_proc [OF inv rs(2) stuck]
  have fin: "\<exists>got. fst (sy_procs s ! (length ws + j)) = Finished got" if j: "j < length rs" for j
  proof (rule ccontr)
    assume n: "\<nexists>got. fst (sy_procs s ! (length ws + j)) = Finished got"
    have "\<not> (\<exists>r. fst (sy_procs s ! (length ws + j)) = Closed r)" using ok [of "length ws + j"] j len by (auto simp: proc_ok_def)
    with n have "waiting (sy_pipe s) (fst (sy_procs s ! (length ws + j)))" using sp [of "length ws + j"] j len by auto
    moreover have "\<nexists>b m. fst (sy_procs s ! (length ws + j)) = Writing b m" using ok [of "length ws + j"] j len by (auto simp: proc_ok_def)
    ultimately have d: "pp_data (sy_pipe s) = []" "0 < pp_writers (sy_pipe s)"
      by (cases "fst (sy_procs s ! (length ws + j))"; auto)+
    then obtain k where k: "k < length (sy_procs s)" "is_open (fst (sy_procs s ! k))"
      using w by (auto simp: filter_empty_conv in_set_conv_nth)
    then show False using sp [OF k(1)] need_fits [OF d(1)] by (cases "fst (sy_procs s ! k)") auto
  qed
  then show "j < length rs \<Longrightarrow> \<exists>got. fst (sy_procs s ! (length ws + j)) = Finished got" .
  have "proc_ok ws rs s (length ws)" "\<exists>got. fst (sy_procs s ! length ws) = Finished got"
    using ok [of "length ws"] fin [of 0] rs(1) len by auto
  then have "pp_writers (sy_pipe s) = 0" by (auto simp: proc_ok_def)
  then have cl: "\<not> is_open (fst (sy_procs s ! i))" if "i < length ws" for i
    using w that len nth_mem [of i "sy_procs s"] by (auto simp: filter_empty_conv case_prod_beta)
  show "fst (sy_procs s ! i) = Closed (Inr (length (ws ! i)))" if "i < length ws"
    using ok [of i] cl [OF that] that len by (cases "fst (sy_procs s ! i)") (auto simp: proc_ok_def)
qed

lemma no_infinite_run:
  assumes "sys_inv ws rs (f 0)" "rs \<noteq> []" "0 \<notin> set rs" "\<And>k. sys_step (f k) (f (Suc k))"
  shows False
proof -
  have inv: "sys_inv ws rs (f k)" for k
    using assms(1) step_effect [OF _ assms(2,3)] assms(4) by (induction k) (blast elim: sys_stepE)+
  let ?r = "inv_image (less_than <*lex*> less_than) (\<lambda>s. (sys_work s, sys_awake s))"
  have "(f (Suc k), f k) \<in> ?r" for k
    using step_effect [OF inv assms(2,3)] assms(4) [of k] by (fastforce elim: sys_stepE)
  then have "\<exists>f. \<forall>k. (f (Suc k), f k) \<in> ?r" by blast
  moreover have "wf ?r" by (intro wf_inv_image wf_lex_prod wf_less_than)
  ultimately show False by (simp add: wf_iff_no_infinite_down_chain)
qed

text \<open>Small writes enter the pipe in one piece.\<close>

definition small_ok :: "u8 list list \<Rightarrow> psys \<Rightarrow> nat \<Rightarrow> bool" where
  "small_ok ws s i \<longleftrightarrow>
     (case fst (sy_procs s ! i) of
        Writing b n \<Rightarrow> n = 0 \<and> filter (\<lambda>e. fst e = i) (sy_in s) = []
      | _ \<Rightarrow> filter (\<lambda>e. fst e = i) (sy_in s) = log_entry i (ws ! i))"

lemma filter_log_entry: "filter (\<lambda>e. fst e = i) (log_entry j bs) = (if i = j then log_entry i bs else [])"
  by (simp add: log_entry_def)

lemma small_step:
  assumes inv: "sys_inv ws rs s" and rs: "rs \<noteq> []" and step: "run_proc s j = Some s'"
    and i: "i < length ws" "length (ws ! i) \<le> PIPE_BUF" and ok: "small_ok ws s i"
  shows "small_ok ws s' i"
proof -
  let ?p = "sy_pipe s" and ?q0 = "fst (sy_procs s ! j)"
  obtain q asleep woke p' where j: "j < length (sy_procs s)"
    and sec: "run_section ?p ?q0 = Some (q, asleep, woke, p')"
    and s': "sy_procs s' = (wake_procs woke (sy_procs s))[j := (q, asleep)]"
      "sy_in s' = sy_in s @ log_entry j (drop (length (pp_data ?p)) (pp_data p'))"
    using step by (auto simp: run_proc_def Let_def split: if_splits option.splits)
  have len: "i < length (sy_procs s)" using inv i by (simp add: sys_inv_def)
  show ?thesis
  proof (cases "i = j")
    case False
    then show ?thesis using ok len by (simp add: small_ok_def s' filter_log_entry wake_procs_nth split: proc.splits)
  next
    case True
    have p: "pipe_ok ?p" "0 < pp_readers ?p" and w: "writer_ok (ws ! i) (sent i (sy_in s)) ?q0"
      using inv rs i len by (auto simp: sys_inv_def proc_ok_def True)
    show ?thesis
    proof (cases ?q0)
      case (Writing b n)
      then have b: "b = ws ! i" "n = 0" "filter (\<lambda>e. fst e = i) (sy_in s) = []" using w ok by (simp_all add: small_ok_def True)
      obtain stop where st: "write_section False False ?p b 0 = (stop, woke, p')"
        using sec b(2) by (auto simp: Writing split: prod.splits write_stop.splits)
      have p': "p' = ?p \<or> p' = ?p\<lparr>pp_data := pp_data ?p @ b\<rparr>"
        by (rule write_section_atomic [OF st p(1)]) (use i b in simp)
      obtain k where "p' = ?p\<lparr>pp_data := pp_data ?p @ take k (drop 0 b)\<rparr>" "0 + k \<le> length b"
        "if asleep then q = Writing b (0 + k) \<and> waiting p' q else q = Closing (Inr (length b)) \<and> 0 + k = length b"
        by (rule section_writing [OF sec [unfolded Writing b(2)] p(1) _ p(2)]) simp_all
      then have k: "p' = ?p\<lparr>pp_data := pp_data ?p @ take k b\<rparr>" "k \<le> length b"
        "if asleep then q = Writing b k \<and> waiting p' q else q = Closing (Inr (length b)) \<and> k = length b" by (simp_all only: drop_0 add_0)
      have "pp_data p' = pp_data ?p @ take k b" by (simp add: k(1))
      then have "take k b = [] \<or> take k b = b"
        using p' by (metis append_Nil2 append_eq_append_conv pipe.select_convs(1) pipe.surjective pipe.update_convs(1))
      then have "k = 0 \<or> k = length b" using k(2) by (auto dest: arg_cong [where f = length])
      then show ?thesis using k b(1,3) len
        by (auto simp: small_ok_def s' filter_log_entry True log_entry_def split: if_splits)
    qed (use sec ok w len in \<open>auto simp: small_ok_def s' True pipe_drop_def log_entry_def split: if_splits\<close>)
  qed
qed

lemma reach_small:
  assumes "sys_step\<^sup>*\<^sup>* (sys_start ws rs) s" "rs \<noteq> []" "0 \<notin> set rs" "i < length ws" "length (ws ! i) \<le> PIPE_BUF"
  shows "small_ok ws s i"
  using assms(1)
proof (induction rule: rtranclp_induct)
  case base
  then show ?case using assms(4) by (simp add: small_ok_def sys_start_def nth_append)
next
  case (step s s')
  then show ?case using small_step [OF reach_sys_inv [OF step.hyps(1) assms(2,3)] assms(2) _ assms(4,5) step.IH]
    by (auto elim: sys_stepE)
qed

text \<open>
  C24 (a pipe is a queue). However threads that read and write one pipe are scheduled, what readers took followed by what the
  pipe holds is what writers put in, byte for byte in order, never more than the capacity in between. What a writer has put in is the
  beginning of its buffer, a buffer of at most \<^verbatim>\<open>PIPE_BUF\<close> bytes enters in one piece, and a thread is asleep only while its
  condition is false, so no wake-up is lost.
\<close>

theorem pipe_is_queue:
  assumes "rs \<noteq> []" "0 \<notin> set rs" "sys_step\<^sup>*\<^sup>* (sys_start ws rs) s"
  shows "concat (map snd (sy_out s)) @ pp_data (sy_pipe s) = concat (map snd (sy_in s)) \<and> length (pp_data (sy_pipe s)) \<le> PIPE_CAPACITY \<and>
    (i < length ws \<longrightarrow> (\<exists>n. sent i (sy_in s) = take n (ws ! i))) \<and>
    (i < length ws \<and> length (ws ! i) \<le> PIPE_BUF \<longrightarrow> length (filter (\<lambda>e. fst e = i) (sy_in s)) \<le> 1) \<and>
    (i < length (sy_procs s) \<and> snd (sy_procs s ! i) \<longrightarrow> waiting (sy_pipe s) (fst (sy_procs s ! i)))"
proof (intro conjI impI)
  have inv: "sys_inv ws rs s" by (rule reach_sys_inv [OF assms(3,1,2)])
  then show "concat (map snd (sy_out s)) @ pp_data (sy_pipe s) = concat (map snd (sy_in s))" "length (pp_data (sy_pipe s)) \<le> PIPE_CAPACITY"
    by (simp_all add: sys_inv_def pipe_ok_def)
  show "\<exists>n. sent i (sy_in s) = take n (ws ! i)" if "i < length ws"
  proof -
    have "writer_ok (ws ! i) (sent i (sy_in s)) (fst (sy_procs s ! i))" using inv that by (auto simp: sys_inv_def proc_ok_def)
    then show ?thesis by (cases "fst (sy_procs s ! i)") (auto intro: exI [of _ "length (ws ! i)"])
  qed
  show "length (filter (\<lambda>e. fst e = i) (sy_in s)) \<le> 1" if "i < length ws \<and> length (ws ! i) \<le> PIPE_BUF"
    using reach_small [OF assms(3,1,2), of i] that by (cases "fst (sy_procs s ! i)") (auto simp: small_ok_def log_entry_def)
  show "waiting (sy_pipe s) (fst (sy_procs s ! i))" if "i < length (sy_procs s) \<and> snd (sy_procs s ! i)"
    using inv that by (auto simp: sys_inv_def proc_ok_def)
qed

text \<open>
  C7 (transfers complete). Any number of writers and at least one reader with a buffer that is not empty, scheduled in any way, get through: no run goes on
  for ever, and a state in which no thread can run is one in which every write returned its whole length, every reader saw the end of
  the stream, and the bytes read are the bytes written.
\<close>

theorem pipe_transfer_completes:
  assumes "rs \<noteq> []" "0 \<notin> set rs" "sys_step\<^sup>*\<^sup>* (sys_start ws rs) s"
  shows "(\<nexists>f. f 0 = s \<and> (\<forall>k. sys_step (f k) (f (Suc k)))) \<and>
    ((\<nexists>s'. sys_step s s') \<longrightarrow>
      map fst (sy_procs s) = map (\<lambda>b. Closed (Inr (length b))) ws @ map (\<lambda>j. Finished (sent j (sy_out s))) [length ws..<length ws + length rs] \<and>
      map (\<lambda>i. sent i (sy_in s)) [0..<length ws] = ws \<and>
      concat (map snd (sy_out s)) = concat (map snd (sy_in s)))"
proof (intro conjI impI)
  have inv: "sys_inv ws rs s" by (rule reach_sys_inv [OF assms(3,1,2)])
  show "\<nexists>f. f 0 = s \<and> (\<forall>k. sys_step (f k) (f (Suc k)))" using no_infinite_run [OF _ assms(1,2)] inv by blast
  assume stuck: "\<nexists>s'. sys_step s s'"
  note d = stuck_done [OF inv assms(1,2) stuck]
  have len: "length (sy_procs s) = length ws + length rs" and ok: "\<And>k. k < length (sy_procs s) \<Longrightarrow> proc_ok ws rs s k"
    using inv by (auto simp: sys_inv_def)
  have r: "fst (sy_procs s ! (length ws + j)) = Finished (sent (length ws + j) (sy_out s)) \<and> pp_data (sy_pipe s) = []"
    if "j < length rs" for j
    using d(1) [OF that] ok [of "length ws + j"] that len by (auto simp: proc_ok_def)
  show "map fst (sy_procs s) =
      map (\<lambda>b. Closed (Inr (length b))) ws @ map (\<lambda>j. Finished (sent j (sy_out s))) [length ws..<length ws + length rs]"
  proof (rule nth_equalityI)
    fix k
    assume "k < length (map fst (sy_procs s))"
    then show "map fst (sy_procs s) ! k =
        (map (\<lambda>b. Closed (Inr (length b))) ws @ map (\<lambda>j. Finished (sent j (sy_out s))) [length ws..<length ws + length rs]) ! k"
      using d(2) [of k] r [of "k - length ws"] len by (cases "k < length ws") (auto simp: nth_append)
  qed (simp add: len)
  show "map (\<lambda>i. sent i (sy_in s)) [0..<length ws] = ws"
  proof (rule nth_equalityI)
    fix i
    assume "i < length (map (\<lambda>i. sent i (sy_in s)) [0..<length ws])"
    then show "map (\<lambda>i. sent i (sy_in s)) [0..<length ws] ! i = ws ! i"
      using d(2) [of i] ok [of i] len by (simp add: proc_ok_def)
  qed simp
  show "concat (map snd (sy_out s)) = concat (map snd (sy_in s))"
    using inv r [of 0] assms(1) by (simp add: sys_inv_def)
qed

section \<open>Witnesses\<close>

text \<open>A writer of five bytes and a reader with a buffer of three, scheduled by a list of thread numbers.\<close>

fun run_list :: "psys \<Rightarrow> nat list \<Rightarrow> psys option" where
  "run_list s [] = Some s"
| "run_list s (i # is) = (case run_proc s i of None \<Rightarrow> None | Some s' \<Rightarrow> run_list s' is)"

lemma run_list_steps: "run_list s is = Some s' \<Longrightarrow> sys_step\<^sup>*\<^sup>* s s'"
proof (induction "is" arbitrary: s)
  case (Cons i "is")
  then show ?case by (auto split: option.splits intro: converse_rtranclp_into_rtranclp sys_step.intros)
qed simp

lemmas sys_eval = sys_start_def run_proc_def pipe_open_def pipe_new_def pipe_drop_def read_section_def write_section.simps
  write_need_def space_def PIPE_BUF_def PIPE_CAPACITY_def wake_procs_def log_entry_def Let_def

definition example_sys :: psys where
  "example_sys = the (run_list (sys_start [[1, 2, 3, 4, 5]] [3]) [1, 0, 1, 0, 1, 1])"

lemma example_eq:
  "run_list (sys_start [[1, 2, 3, 4, 5]] [3]) [1, 0, 1, 0, 1, 1] = Some example_sys"
  "example_sys = \<lparr>sy_pipe = \<lparr>pp_data = [], pp_readers = 1, pp_writers = 0\<rparr>,
     sy_procs = [(Closed (Inr 5), False), (Finished [1, 2, 3, 4, 5], False)],
     sy_in = [(0, [1, 2, 3, 4, 5])], sy_out = [(1, [1, 2, 3]), (1, [4, 5])]\<rparr>"
  by (simp_all add: example_sys_def sys_eval)

lemma example_stuck: "\<nexists>s'. sys_step example_sys s'"
  by (auto elim!: sys_stepE simp: example_eq(2) run_proc_def less_Suc_eq split: if_splits)

theorem pipe_is_queue_witness:
  "concat (map snd (sy_out example_sys)) = concat (map snd (sy_in example_sys)) \<and> length (filter (\<lambda>e. fst e = 0) (sy_in example_sys)) \<le> 1"
  using pipe_is_queue [of "[3]" "[[1, 2, 3, 4, 5]]" example_sys 0] run_list_steps [OF example_eq(1)]
  by (simp add: example_eq(2) PIPE_BUF_def)

theorem pipe_transfer_completes_witness:
  "map fst (sy_procs example_sys) = [Closed (Inr 5), Finished (sent 1 (sy_out example_sys))] \<and> sent 0 (sy_in example_sys) = [1, 2, 3, 4, 5]"
  using pipe_transfer_completes [of "[3]" "[[1, 2, 3, 4, 5]]" example_sys] run_list_steps [OF example_eq(1)] example_stuck
  by simp

end
