(* ===== verification/Open_File.thy ===== *)
theory Open_File
  imports Vfs_Ops
begin

unbundle bit_operations_syntax

text \<open>
  Open files, \<^verbatim>\<open>kernel/src/fs/file.rs\<close>: \<^verbatim>\<open>InodeFile\<close> with its offset and flags over the data operations of an inode, the loops
  \<^verbatim>\<open>write_all\<close> and \<^verbatim>\<open>read_to_end\<close>, and the whole-file operations of \<^verbatim>\<open>kernel/src/fs/ops.rs\<close> on top of them. \<open>None\<close> is an overflow
  check or slice bound that traps, or a loop out of fuel.
\<close>

section \<open>Files backed by an inode\<close>

record ('s, 'i) data_ops =
  do_read_at :: "'s \<Rightarrow> 'i \<Rightarrow> nat \<Rightarrow> nat \<Rightarrow> u8 list KResult"
  do_write_at :: "'s \<Rightarrow> 'i \<Rightarrow> nat \<Rightarrow> u8 list \<Rightarrow> nat KResult \<times> 's"

record 'i inode_file =
  fi_node :: "'i path_node"
  fi_offset :: u64
  fi_flags :: u32

definition inode_file_new :: "'i path_node \<Rightarrow> u32 \<Rightarrow> 'i inode_file" where
  "inode_file_new n flags = \<lparr>fi_node = n, fi_offset = 0, fi_flags = flags\<rparr>"

definition fi_inode :: "'i inode_file \<Rightarrow> 'i" where
  "fi_inode f = pn_inode (fi_node f)"

text \<open>\<^verbatim>\<open>off + n as u64\<close> with overflow checks.\<close>

definition add_off :: "u64 \<Rightarrow> nat \<Rightarrow> u64 option" where
  "add_off off n = (if unat off + n < 2 ^ 64 then Some (off + of_nat n) else None)"

definition file_read_seq :: "('s, 'i) inode_ops \<Rightarrow> ('s, 'i) data_ops \<Rightarrow> 's \<Rightarrow> 'i inode_file \<Rightarrow> nat
    \<Rightarrow> (u8 list KResult \<times> 'i inode_file) option" where
  "file_read_seq ops dops s f len =
     (if \<not> readable (fi_flags f) then Some (Inl EBADF, f)
      else case inode_kind ops s (fi_inode f) of
        Inl e \<Rightarrow> Some (Inl e, f)
      | Inr k \<Rightarrow>
          if k = Directory then Some (Inl EISDIR, f)
          else case do_read_at dops s (fi_inode f) (unat (fi_offset f)) len of
            Inl e \<Rightarrow> Some (Inl e, f)
          | Inr bs \<Rightarrow> map_option (\<lambda>off. (Inr bs, f\<lparr>fi_offset := off\<rparr>)) (add_off (fi_offset f) (length bs)))"

definition write_offset :: "('s, 'i) inode_ops \<Rightarrow> 's \<Rightarrow> 'i inode_file \<Rightarrow> u64 KResult" where
  "write_offset ops s f =
     (if fi_flags f AND O_APPEND \<noteq> 0 then kbind (io_metadata ops s (fi_inode f)) (\<lambda>m. Inr (md_size m)) else Inr (fi_offset f))"

definition file_write_seq :: "('s, 'i) inode_ops \<Rightarrow> ('s, 'i) data_ops \<Rightarrow> 's \<times> 'i inode_file \<Rightarrow> u8 list
    \<Rightarrow> (nat KResult \<times> 's \<times> 'i inode_file) option" where
  "file_write_seq ops dops sf buf =
     (let (s, f) = sf in
      if \<not> writable (fi_flags f) then Some (Inl EBADF, s, f)
      else case write_offset ops s f of
        Inl e \<Rightarrow> Some (Inl e, s, f)
      | Inr off \<Rightarrow>
          (case do_write_at dops s (fi_inode f) (unat off) buf of
             (Inl e, s') \<Rightarrow> Some (Inl e, s', f)
           | (Inr n, s') \<Rightarrow> map_option (\<lambda>off'. (Inr n, s', f\<lparr>fi_offset := off'\<rparr>)) (add_off off n)))"

definition file_pread :: "('s, 'i) data_ops \<Rightarrow> 's \<Rightarrow> 'i inode_file \<Rightarrow> u64 \<Rightarrow> nat \<Rightarrow> u8 list KResult" where
  "file_pread dops s f off len = do_read_at dops s (fi_inode f) (unat off) len"

definition file_pwrite :: "('s, 'i) data_ops \<Rightarrow> 's \<Rightarrow> 'i inode_file \<Rightarrow> u64 \<Rightarrow> u8 list \<Rightarrow> nat KResult \<times> 's" where
  "file_pwrite dops s f off buf = do_write_at dops s (fi_inode f) (unat off) buf"

text \<open>Signed 64-bit arguments are words read as two's complement.\<close>

datatype whence = Set "64 word" | Cur "64 word" | End "64 word"

definition checked_add_i64 :: "64 word \<Rightarrow> 64 word \<Rightarrow> 64 word option" where
  "checked_add_i64 a b = (if - (2 ^ 63) \<le> sint a + sint b \<and> sint a + sint b < 2 ^ 63 then Some (a + b) else None)"

definition seek_to :: "64 word option \<Rightarrow> 'i inode_file \<Rightarrow> u64 KResult \<times> 'i inode_file" where
  "seek_to new f =
     (case new of
        None \<Rightarrow> (Inl EOVERFLOW, f)
      | Some p \<Rightarrow> if sint p < 0 then (Inl EINVAL, f) else (Inr p, f\<lparr>fi_offset := p\<rparr>))"

fun file_seek :: "('s, 'i) inode_ops \<Rightarrow> 's \<Rightarrow> 'i inode_file \<Rightarrow> whence \<Rightarrow> u64 KResult \<times> 'i inode_file" where
  "file_seek ops s f (Set p) = seek_to (Some p) f"
| "file_seek ops s f (Cur d) = seek_to (checked_add_i64 (fi_offset f) d) f"
| "file_seek ops s f (End d) =
     (case io_metadata ops s (fi_inode f) of
        Inl e \<Rightarrow> (Inl e, f)
      | Inr m \<Rightarrow> seek_to (checked_add_i64 (md_size m) d) f)"

definition file_stat :: "('s, 'i) inode_ops \<Rightarrow> 's \<Rightarrow> 'i inode_file \<Rightarrow> metadata KResult" where
  "file_stat ops s f = io_metadata ops s (fi_inode f)"

definition file_readdir :: "('s, 'i) inode_ops \<Rightarrow> 's \<Rightarrow> 'i inode_file \<Rightarrow> dir_entry list KResult" where
  "file_readdir ops s f = io_readdir ops s (fi_inode f)"

definition file_set_size :: "('s, 'i) inode_ops \<Rightarrow> timespec \<Rightarrow> 's \<Rightarrow> 'i inode_file \<Rightarrow> u64 \<Rightarrow> unit KResult \<times> 's" where
  "file_set_size ops now s f len =
     (if \<not> writable (fi_flags f) then (Inl EBADF, s) else io_set_attr ops s (fi_inode f) (truncate_attr len now))"

definition file_set_flags :: "'i inode_file \<Rightarrow> u32 \<Rightarrow> 'i inode_file" where
  "file_set_flags f fl = f\<lparr>fi_flags := set_flags (fi_flags f) fl\<rparr>"

section \<open>Loops over a file\<close>

text \<open>\<^verbatim>\<open>write_all\<close> over the write operation of any file; a count past the end of the slice would trap.\<close>

function write_all :: "('f \<Rightarrow> u8 list \<Rightarrow> (nat KResult \<times> 'f) option) \<Rightarrow> 'f \<Rightarrow> u8 list \<Rightarrow> (unit KResult \<times> 'f) option" where
  "write_all wr f buf =
     (if buf = [] then Some (Inr (), f)
      else case wr f buf of
        None \<Rightarrow> None
      | Some (Inl e, f') \<Rightarrow> Some (Inl e, f')
      | Some (Inr n, f') \<Rightarrow>
          if n = 0 then Some (Inl EIO, f')
          else if length buf < n then None
          else write_all wr f' (drop n buf))"
  by pat_completeness auto
termination
  by (relation "measure (\<lambda>(wr, f, buf). length buf)") auto

declare write_all.simps [simp del]

text \<open>\<^verbatim>\<open>read_to_end\<close>: the bytes it appended. It ends when a read gives nothing; the first argument bounds the rounds.\<close>

fun read_to_end :: "nat \<Rightarrow> ('f \<Rightarrow> nat \<Rightarrow> (u8 list KResult \<times> 'f) option) \<Rightarrow> 'f \<Rightarrow> u8 list \<Rightarrow> (u8 list KResult \<times> 'f) option" where
  "read_to_end 0 rd f out = None"
| "read_to_end (Suc k) rd f out =
     (case rd f 8192 of
        None \<Rightarrow> None
      | Some (Inl e, f') \<Rightarrow> Some (Inl e, f')
      | Some (Inr bs, f') \<Rightarrow> if bs = [] then Some (Inr out, f') else read_to_end k rd f' (out @ bs))"

section \<open>Whole files\<close>

text \<open>
  \<open>sp_read\<close> and \<open>sp_write\<close> are the same loops over a file an inode opened by itself.
\<close>

definition vfs_read_file :: "('s, 'i) inode_ops \<Rightarrow> ('s, 'i) data_ops \<Rightarrow> ('s \<Rightarrow> 'i \<Rightarrow> u32 \<Rightarrow> 'f option KResult) \<Rightarrow> timespec \<Rightarrow> mflags
    \<Rightarrow> ('s \<Rightarrow> 'f \<Rightarrow> (u8 list, 's) effect) \<Rightarrow> nat \<Rightarrow> 's \<Rightarrow> 'i ctx \<Rightarrow> string \<Rightarrow> (u8 list, 's) effect" where
  "vfs_read_file ops dops spec now fl sp_read k s cx path =
     (case vfs_open ops spec now fl s cx path O_RDONLY 0 of
        None \<Rightarrow> None
      | Some (Inl e, s') \<Rightarrow> Some (Inl e, s')
      | Some (Inr (Special g), s') \<Rightarrow> sp_read s' g
      | Some (Inr (InodeFile n flags), s') \<Rightarrow>
          map_option (\<lambda>(r, _). (r, s')) (read_to_end k (file_read_seq ops dops s') (inode_file_new n flags) []))"

definition vfs_write_file :: "('s, 'i) inode_ops \<Rightarrow> ('s, 'i) data_ops \<Rightarrow> ('s \<Rightarrow> 'i \<Rightarrow> u32 \<Rightarrow> 'f option KResult) \<Rightarrow> timespec \<Rightarrow> mflags
    \<Rightarrow> ('s \<Rightarrow> 'f \<Rightarrow> u8 list \<Rightarrow> (unit, 's) effect) \<Rightarrow> 's \<Rightarrow> 'i ctx \<Rightarrow> string \<Rightarrow> u8 list \<Rightarrow> u16 \<Rightarrow> (unit, 's) effect" where
  "vfs_write_file ops dops spec now fl sp_write s cx path bytes mode =
     (case vfs_open ops spec now fl s cx path (O_WRONLY OR O_CREAT OR O_TRUNC) mode of
        None \<Rightarrow> None
      | Some (Inl e, s') \<Rightarrow> Some (Inl e, s')
      | Some (Inr (Special g), s') \<Rightarrow> sp_write s' g bytes
      | Some (Inr (InodeFile n flags), s') \<Rightarrow>
          map_option (\<lambda>(r, s'', _). (r, s'')) (write_all (file_write_seq ops dops) (s', inode_file_new n flags) bytes))"

text \<open>\<^verbatim>\<open>statfs\<close>: the figures of the file system mounted where the path leads.\<close>

definition vfs_statfs :: "('s, 'i) inode_ops \<Rightarrow> ('s \<Rightarrow> nat \<Rightarrow> 'q) \<Rightarrow> 's \<Rightarrow> 'i ctx \<Rightarrow> string \<Rightarrow> ('q \<times> 'i path_node) KResult option" where
  "vfs_statfs ops fs_stat s cx path =
     map_option (\<lambda>r. kbind r (\<lambda>n. Inr (fs_stat s (pn_mount n), n))) (ctx_resolve ops s cx path True)"
section \<open>A file as a stream of bytes\<close>

text \<open>What an open file relies on of the inode of a regular file: it reads and writes one sequence of bytes and reports its length.\<close>

locale regular_file =
  fixes ops :: "('s, 'i) inode_ops" and dops :: "('s, 'i) data_ops" and data :: "'s \<Rightarrow> 'i \<Rightarrow> u8 list" and ok :: "'s \<Rightarrow> 'i \<Rightarrow> bool"
  assumes meta: "ok s i \<Longrightarrow> \<exists>m. io_metadata ops s i = Inr m \<and> md_kind m = Regular \<and> unat (md_size m) = length (data s i)"
    and read_at: "ok s i \<Longrightarrow> do_read_at dops s i off n = Inr (file_read off n (data s i))"
    and write_at: "ok s i \<Longrightarrow> do_write_at dops s i off bs = (Inr n, s') \<Longrightarrow>
      n = length bs \<and> ok s' i \<and> data s' i = file_write off bs (data s i) \<and> off + length bs < 2 ^ 64"
begin

lemma kind: "ok s i \<Longrightarrow> inode_kind ops s i = Inr Regular"
  using meta [of s i] by (auto simp: inode_kind_def)

lemma length_data: "ok s i \<Longrightarrow> length (data s i) < 2 ^ 64"
proof -
  assume "ok s i"
  then obtain m :: metadata where "unat (md_size m) = length (data s i)" using meta by blast
  then show ?thesis using unsigned_less [of "md_size m", where 'a = nat] by simp
qed

lemma file_read_length: "length (file_read off n c) = min n (length c - off)"
  by (simp add: file_read_def)

lemma read_seq:
  assumes "ok s (fi_inode f)" "readable (fi_flags f)"
  shows "\<exists>f'. file_read_seq ops dops s f len = Some (Inr (file_read (unat (fi_offset f)) len (data s (fi_inode f))), f') \<and>
    fi_node f' = fi_node f \<and> fi_flags f' = fi_flags f \<and>
    unat (fi_offset f') = unat (fi_offset f) + length (file_read (unat (fi_offset f)) len (data s (fi_inode f)))"
proof -
  let ?bs = "file_read (unat (fi_offset f)) len (data s (fi_inode f))"
  have fits: "unat (fi_offset f) + length ?bs < 2 ^ 64"
    using length_data [OF assms(1)] unsigned_less [of "fi_offset f", where 'a = nat] by (auto simp: file_read_length min_def)
  then have "unat (fi_offset f + of_nat (length ?bs)) = unat (fi_offset f) + length ?bs"
    by (simp add: unat_word_ariths unat_of_nat take_bit_eq_mod mod_add_right_eq)
  then show ?thesis using fits assms by (simp add: file_read_seq_def kind read_at add_off_def)
qed

lemma read_to_end_stream:
  assumes "ok s (fi_inode f)" "readable (fi_flags f)" "length (data s (fi_inode f)) - unat (fi_offset f) \<le> 8192 * k"
  shows "\<exists>f'. read_to_end (Suc k) (file_read_seq ops dops s) f out = Some (Inr (out @ drop (unat (fi_offset f)) (data s (fi_inode f))), f')"
  using assms
proof (induction k arbitrary: f out)
  case 0
  obtain f' where "file_read_seq ops dops s f 8192 = Some (Inr [], f')"
    using read_seq [OF 0(1,2), of 8192] 0(3) by (auto simp: file_read_def)
  then show ?case using 0(3) by simp
next
  case (Suc k)
  let ?c = "data s (fi_inode f)" and ?off = "unat (fi_offset f)"
  let ?bs = "file_read ?off 8192 ?c"
  obtain f' where f': "file_read_seq ops dops s f 8192 = Some (Inr ?bs, f')" "fi_inode f' = fi_inode f" "fi_flags f' = fi_flags f"
      "unat (fi_offset f') = ?off + length ?bs"
    using read_seq [OF Suc.prems(1,2), of 8192] by (auto simp: fi_inode_def)
  have split: "?bs @ drop (unat (fi_offset f')) ?c = drop ?off ?c"
  proof -
    have "drop (unat (fi_offset f')) ?c = drop (length ?bs) (drop ?off ?c)" by (simp add: f'(4) add.commute)
    moreover have "take (length ?bs) (drop ?off ?c) = ?bs" by (auto simp: file_read_def min_def)
    ultimately show ?thesis by (metis append_take_drop_id)
  qed
  show ?case
  proof (cases "?bs = []")
    case True
    then have "drop ?off ?c = []" by (simp add: file_read_def)
    then show ?thesis using f'(1) True by simp
  next
    case False
    have "length (data s (fi_inode f')) - unat (fi_offset f') \<le> 8192 * k"
      using Suc.prems(3) f'(2,4) by (auto simp: file_read_length min_def)
    then obtain g where "read_to_end (Suc k) (file_read_seq ops dops s) f' (out @ ?bs) =
        Some (Inr ((out @ ?bs) @ drop (unat (fi_offset f')) ?c), g)"
      using Suc.IH [of f' "out @ ?bs"] Suc.prems f' by auto
    moreover have "read_to_end (Suc (Suc k)) (file_read_seq ops dops s) f out = read_to_end (Suc k) (file_read_seq ops dops s) f' (out @ ?bs)"
      by (subst read_to_end.simps) (simp add: f'(1) False del: read_to_end.simps)
    ultimately show ?thesis using split by (metis append.assoc)
  qed
qed

lemma write_seq:
  assumes "ok s (fi_inode f)" "writable (fi_flags f)" "file_write_seq ops dops (s, f) bs = Some (Inr n, s', f')"
  shows "\<exists>off. write_offset ops s f = Inr off \<and> n = length bs \<and> ok s' (fi_inode f) \<and> fi_inode f' = fi_inode f \<and> fi_flags f' = fi_flags f \<and>
    data s' (fi_inode f) = file_write (unat off) bs (data s (fi_inode f)) \<and> unat (fi_offset f') = unat off + length bs"
proof -
  obtain off where off: "write_offset ops s f = Inr off" using assms by (auto simp: file_write_seq_def split: sum.splits)
  obtain off' where w: "do_write_at dops s (fi_inode f) (unat off) bs = (Inr n, s')" and f': "add_off off n = Some off'"
      "f' = f\<lparr>fi_offset := off'\<rparr>"
    using assms(2,3) off by (auto simp: file_write_seq_def split: sum.splits prod.splits)
  have "unat off' = unat off + n"
    using f'(1) by (auto simp: add_off_def unat_word_ariths unat_of_nat take_bit_eq_mod mod_add_right_eq split: if_splits)
  then show ?thesis using write_at [OF assms(1) w] off f' by (auto simp: fi_inode_def)
qed

lemma append_offset: "ok s (fi_inode f) \<Longrightarrow> fi_flags f AND O_APPEND \<noteq> 0 \<Longrightarrow> \<exists>off. write_offset ops s f = Inr off \<and> unat off = length (data s (fi_inode f))"
  using meta [of s "fi_inode f"] by (auto simp: write_offset_def)

lemma write_all_stream:
  assumes "ok s (fi_inode f)" "writable (fi_flags f)" "write_all (file_write_seq ops dops) (s, f) bs = Some (Inr (), s', f')" "bs \<noteq> []"
  shows "\<exists>off. write_offset ops s f = Inr off \<and> ok s' (fi_inode f) \<and> data s' (fi_inode f) = file_write (unat off) bs (data s (fi_inode f)) \<and>
    unat (fi_offset f') = unat off + length bs"
proof -
  obtain n s1 f1 where w: "file_write_seq ops dops (s, f) bs = Some (Inr n, s1, f1)" "n \<noteq> 0" "n \<le> length bs"
      "write_all (file_write_seq ops dops) (s1, f1) (drop n bs) = Some (Inr (), s', f')"
    using assms(3,4) by (auto simp: write_all.simps [of _ "(s, f)"] split: option.splits sum.splits prod.splits if_splits)
  from write_seq [OF assms(1,2) w(1)] have "n = length bs" by blast
  then have "s' = s1" "f' = f1" using w(4) by (simp_all add: write_all.simps)
  then show ?thesis using write_seq [OF assms(1,2) w(1)] by blast
qed

end
section \<open>Resolution does not look at file contents\<close>

definition meta_view :: "metadata KResult \<Rightarrow> (u64 \<times> u64 \<times> file_type \<times> u16 \<times> u32 \<times> u32) KResult" where
  "meta_view r = kbind r (\<lambda>m. Inr (md_dev m, md_ino m, md_kind m, md_perm m, md_uid m, md_gid m))"

definition same_view :: "('s, 'i) inode_ops \<Rightarrow> 's \<Rightarrow> 's \<Rightarrow> bool" where
  "same_view ops s s' \<longleftrightarrow>
     (\<forall>i. meta_view (io_metadata ops s' i) = meta_view (io_metadata ops s i)) \<and>
     (\<forall>i nm. io_lookup ops s' i nm = io_lookup ops s i nm) \<and> (\<forall>i. io_readlink ops s' i = io_readlink ops s i)"

lemma same_view_meta:
  assumes "same_view ops s s'"
  shows "io_metadata ops s i = Inl e \<Longrightarrow> io_metadata ops s' i = Inl e"
    and "io_metadata ops s i = Inr m \<Longrightarrow> \<exists>m'. io_metadata ops s' i = Inr m' \<and> md_dev m' = md_dev m \<and> md_ino m' = md_ino m \<and>
      md_kind m' = md_kind m \<and> (\<forall>c msk. perm_check c m' msk = perm_check c m msk)"
proof -
  have v: "meta_view (io_metadata ops s' i) = meta_view (io_metadata ops s i)" using assms by (simp add: same_view_def)
  show "io_metadata ops s i = Inl e \<Longrightarrow> io_metadata ops s' i = Inl e"
    using v by (cases "io_metadata ops s' i") (auto simp: meta_view_def)
  show "io_metadata ops s i = Inr m \<Longrightarrow> \<exists>m'. io_metadata ops s' i = Inr m' \<and> md_dev m' = md_dev m \<and> md_ino m' = md_ino m \<and>
      md_kind m' = md_kind m \<and> (\<forall>c msk. perm_check c m' msk = perm_check c m msk)"
    using v by (cases "io_metadata ops s' i") (auto simp: meta_view_def perm_check_def Let_def)
qed

lemma same_view_facts:
  assumes "same_view ops s s'"
  shows "inode_id ops s' i = inode_id ops s i" "inode_kind ops s' i = inode_kind ops s i" "inode_is_dir ops s' i = inode_is_dir ops s i"
    and "io_lookup ops s' i nm = io_lookup ops s i nm" "io_readlink ops s' i = io_readlink ops s i"
  using same_view_meta [OF assms, of i] assms
  by (cases "io_metadata ops s i"; auto simp: inode_id_def inode_kind_def inode_is_dir_def same_view_def)+

lemma cross_mounts_view: "same_view ops s s' \<Longrightarrow> cross_mounts k ops s' ns n = cross_mounts k ops s ns n"
  by (induction k arbitrary: n) (auto simp: same_view_facts split: option.splits)

lemma walk_view:
  assumes "same_view ops s s'"
  shows "walk ops s' r n cur cs fo d = walk ops s r n cur cs fo d"
proof (induction n arbitrary: cur cs fo d rule: less_induct)
  case (less n)
  note view = same_view_facts [OF assms] cross_mounts_view [OF assms]
  show ?case
  proof (induction cs arbitrary: cur d)
    case (Cons c cs)
    have dd: "dotdot ops s' r cur = dotdot ops s r cur" by (simp add: dotdot_def is_root_node_def view)
    have deeper: "n = Suc k \<Longrightarrow> walk ops s' r k cur' cs' fo' d' = walk ops s r k cur' cs' fo' d'" for k cur' cs' fo' d'
      by (rule less) simp
    show ?case
    proof (cases "io_metadata ops s (pn_inode cur)")
      case (Inr m)
      obtain m' where m': "io_metadata ops s' (pn_inode cur) = Inr m'" "md_kind m' = md_kind m"
          "\<forall>c msk. perm_check c m' msk = perm_check c m msk"
        using same_view_meta(2) [OF assms Inr] by blast
      show ?thesis
        unfolding walk.simps(2) Inr m'(1) sum.case m'(2) m'(3) [rule_format] dd view Cons
        by (cases n) (simp_all only: nat.case deeper)
    qed (simp add: walk.simps(2) same_view_meta(1) [OF assms])
  qed (simp add: walk.simps(1))
qed

lemma resolve_view: "same_view ops s s' \<Longrightarrow> resolve ops s' r p fo = resolve ops s r p fo"
  unfolding resolve_def Let_def by (simp only: walk_view same_view_facts)
section \<open>tmpfs files\<close>

definition tmp_data_ops :: "(tmpfs, nat) data_ops" where
  "tmp_data_ops = \<lparr>do_read_at = tmp_read_at, do_write_at = tmp_write_at\<rparr>"

text \<open>\<^verbatim>\<open>open_special\<close> of a tmpfs inode as \<^verbatim>\<open>open\<close> sees it.\<close>

definition tmp_spec :: "tmpfs \<Rightarrow> nat \<Rightarrow> u32 \<Rightarrow> special option KResult" where
  "tmp_spec s i flags = kbind (tmp_open_special s i) (\<lambda>sp. Inr (if sp = OpenPlain then None else Some sp))"

definition tmp_regular :: "tmpfs \<Rightarrow> nat \<Rightarrow> bool" where
  "tmp_regular s i \<longleftrightarrow> tmp_file_ok s i \<and> node_kind s i = Regular \<and> length (tmp_content s i) < 2 ^ 64"

lemma tmp_regular_meta:
  assumes "tmp_regular s i"
  shows "\<exists>m. tmp_metadata s i = Inr m \<and> md_kind m = Regular \<and> unat (md_size m) = length (tmp_content s i)"
proof -
  have ok: "tmp_file_ok s i" using assms by (simp add: tmp_regular_def)
  obtain pages sz where f: "tn_data (tnode s i) = TFile pages sz" "tmp_content s i = content pages sz" using ok by (rule tmp_file_okE)
  then show ?thesis using assms
    by (auto simp: tmp_metadata_def tmp_regular_def node_kind_def Let_def unat_of_nat_eq)
qed

lemma tmp_write_kind: "tmp_write_at s i off bs = (r, s') \<Longrightarrow> node_kind s' j = node_kind s j"
  by (auto simp: tmp_write_at_def node_kind_def store_defs tnode_def Let_def split: if_splits tmp_data.splits prod.splits sum.splits)

lemma tmp_write_bound: "tmp_write_at s i off bs = (Inr n, s') \<Longrightarrow> off + length bs \<le> 2 ^ 40"
  by (auto simp: tmp_write_at_def Let_def split: if_splits)

interpretation tmp_open: regular_file tmpfs_ops tmp_data_ops tmp_content tmp_regular
proof
  fix s :: tmpfs and i :: nat
  assume r: "tmp_regular s i"
  then have ok: "tmp_file_ok s i" by (simp add: tmp_regular_def)
  show "\<exists>m. io_metadata tmpfs_ops s i = Inr m \<and> md_kind m = Regular \<and> unat (md_size m) = length (tmp_content s i)"
    using tmp_regular_meta [OF r] by (simp add: tmpfs_ops_def)
  show "do_read_at tmp_data_ops s i off n = Inr (file_read off n (tmp_content s i))" for off n
    using tmpfile.rd_data [OF ok] by (simp add: tmp_data_ops_def)
  show "n = length bs \<and> tmp_regular s' i \<and> tmp_content s' i = file_write off bs (tmp_content s i) \<and> off + length bs < 2 ^ 64"
    if "do_write_at tmp_data_ops s i off bs = (Inr n, s')" for off bs n s'
  proof -
    have w: "tmp_write_at s i off bs = (Inr n, s')" using that by (simp add: tmp_data_ops_def)
    have "length (tmp_content s' i) < 2 ^ 64"
      using tmpfile.wr_data [OF ok w] tmp_write_bound [OF w] r by (auto simp: file_write_def tmp_regular_def)
    then show ?thesis
      using tmpfile.wr_data [OF ok w] tmp_write_bound [OF w] tmp_write_kind [OF w] r by (simp add: tmp_regular_def)
  qed
qed

lemma same_view_trans: "same_view ops s s1 \<Longrightarrow> same_view ops s1 s2 \<Longrightarrow> same_view ops s s2"
  by (simp add: same_view_def)

text \<open>Changing what a regular file holds, its size or its times is no change of the tree.\<close>

definition file_change :: "tmpfs \<Rightarrow> nat \<Rightarrow> tmpfs \<Rightarrow> bool" where
  "file_change s i s' \<longleftrightarrow> tf_dev s' = tf_dev s \<and> (\<forall>j. j \<noteq> i \<longrightarrow> tf_nodes s' j = tf_nodes s j) \<and>
     (\<exists>p z p' z'. tn_data (tnode s i) = TFile p z \<and> tn_data (tnode s' i) = TFile p' z') \<and>
     tm_kind (tn_meta (tnode s' i)) = tm_kind (tn_meta (tnode s i)) \<and> tm_perm (tn_meta (tnode s' i)) = tm_perm (tn_meta (tnode s i)) \<and>
     tm_uid (tn_meta (tnode s' i)) = tm_uid (tn_meta (tnode s i)) \<and> tm_gid (tn_meta (tnode s' i)) = tm_gid (tn_meta (tnode s i))"

lemma file_change_view:
  assumes "file_change s i s'"
  shows "same_view tmpfs_ops s s'"
proof -
  have same: "tnode s' j = tnode s j" if "j \<noteq> i" for j using assms that by (simp add: file_change_def tnode_def)
  have "meta_view (tmp_metadata s' j) = meta_view (tmp_metadata s j)" for j
    using assms same [of j] by (cases "j = i") (auto simp: meta_view_def tmp_metadata_def file_change_def Let_def case_prod_beta)
  moreover have "tmp_lookup s' j nm = tmp_lookup s j nm" "tmp_readlink s' j = tmp_readlink s j" for j nm
    using assms same [of j] by (cases "j = i"; auto simp: tmp_lookup_def tmp_readlink_def file_change_def)+
  ultimately show ?thesis by (simp add: same_view_def tmpfs_ops_def)
qed

lemma write_change:
  assumes "tmp_write_at s i off bs = (Inr n, s')"
  shows "file_change s i s'"
proof -
  obtain p z where "tn_data (tnode s i) = TFile p z"
    using assms by (auto simp: tmp_write_at_def Let_def split: if_splits tmp_data.splits)
  then show ?thesis using assms
    by (auto simp: tmp_write_at_def file_change_def store_defs tnode_def Let_def split: if_splits prod.splits sum.splits)
qed

lemma truncate_change:
  assumes "tmp_set_attr s i (truncate_attr len now) = (r, s')" "tmp_file_ok s i"
  shows "r = Inr () \<and> file_change s i s' \<and> tmp_content s' i = file_truncate (unat len) (tmp_content s i) \<and> tmp_file_ok s' i"
proof -
  obtain s1 where t: "tmp_truncate s i (unat len) = (Inr (), s1)" "tmp_file_ok s1 i" "tmp_content s1 i = file_truncate (unat len) (tmp_content s i)"
    using tmpfile.tr_data [OF assms(2)] by blast
  obtain p z where f: "tn_data (tnode s i) = TFile p z" using assms(2) by (rule tmp_file_okE)
  have "\<exists>p' z'. tn_data (tnode s1 i) = TFile p' z'" using t(2) by (rule tmp_file_okE) blast
  moreover have "tf_dev s1 = tf_dev s" "tn_meta (tnode s1 i) = tn_meta (tnode s i)" "\<forall>j. j \<noteq> i \<longrightarrow> tf_nodes s1 j = tf_nodes s j"
    using t(1) f by (auto simp: tmp_truncate_def store_defs tnode_def split: prod.splits)
  moreover have "\<exists>g. s' = upd_meta s1 i g \<and> r = Inr () \<and> (\<forall>m. tm_kind (g m) = tm_kind m \<and> tm_perm (g m) = tm_perm m \<and>
      tm_uid (g m) = tm_uid m \<and> tm_gid (g m) = tm_gid m)"
    using assms(1) t(1) by (auto simp: tmp_set_attr_def truncate_attr_def set_attr_default_def intro!: exI)
  then obtain g where g: "s' = upd_meta s1 i g" "r = Inr ()" "\<forall>m. tm_kind (g m) = tm_kind m \<and> tm_perm (g m) = tm_perm m \<and>
      tm_uid (g m) = tm_uid m \<and> tm_gid (g m) = tm_gid m" by blast
  moreover have "tf_dev s' = tf_dev s1" "tn_meta (tnode s' i) = g (tn_meta (tnode s1 i))" "tn_data (tnode s' i) = tn_data (tnode s1 i)"
    "\<forall>j. j \<noteq> i \<longrightarrow> tf_nodes s' j = tf_nodes s1 j"
    by (simp_all add: g(1) upd_meta_def set_node_def tnode_def)
  ultimately have "file_change s i s'" "tmp_content s' i = tmp_content s1 i"
    using f by (auto simp: file_change_def tmp_content_def)
  moreover have "tmp_file_ok s' i" using t(2) by (auto simp: tmp_file_ok_def g(1) upd_meta_def set_node_def tnode_def split: option.splits)
  ultimately show ?thesis using g(2) t(3) by simp
qed
section \<open>Theorems\<close>

lemma append_at_end: "file_write (length c) bs c = c @ bs"
  by (simp add: file_write_def pad_to_def)

text \<open>
  C26 (an open file is a stream). On a regular tmpfs file, a read returns the bytes from the file offset on, as many as asked for and there, and
  moves the offset behind them; a successful write puts all its bytes at the offset, or at the end of the file when it is open for appending, and
  leaves the offset behind them. Descriptors without the access mode get \<^verbatim>\<open>EBADF\<close> and change nothing.
\<close>

theorem open_file_stream:
  assumes "tmp_regular s (fi_inode f)"
  shows "(readable (fi_flags f) \<longrightarrow>
      (\<exists>f'. file_read_seq tmpfs_ops tmp_data_ops s f len = Some (Inr (file_read (unat (fi_offset f)) len (tmp_content s (fi_inode f))), f') \<and>
        unat (fi_offset f') = unat (fi_offset f) + length (file_read (unat (fi_offset f)) len (tmp_content s (fi_inode f))))) \<and>
    (writable (fi_flags f) \<and> file_write_seq tmpfs_ops tmp_data_ops (s, f) bs = Some (Inr n, s', f') \<longrightarrow>
      n = length bs \<and> tmp_regular s' (fi_inode f) \<and>
      tmp_content s' (fi_inode f) = (if fi_flags f AND O_APPEND \<noteq> 0 then tmp_content s (fi_inode f) @ bs
        else file_write (unat (fi_offset f)) bs (tmp_content s (fi_inode f))) \<and>
      unat (fi_offset f') = (if fi_flags f AND O_APPEND \<noteq> 0 then length (tmp_content s (fi_inode f)) else unat (fi_offset f)) + length bs) \<and>
    (\<not> readable (fi_flags f) \<longrightarrow> file_read_seq tmpfs_ops tmp_data_ops s f len = Some (Inl EBADF, f)) \<and>
    (\<not> writable (fi_flags f) \<longrightarrow> file_write_seq tmpfs_ops tmp_data_ops (s, f) bs = Some (Inl EBADF, s, f))"
proof (intro conjI impI)
  show "\<exists>f'. file_read_seq tmpfs_ops tmp_data_ops s f len = Some (Inr (file_read (unat (fi_offset f)) len (tmp_content s (fi_inode f))), f') \<and>
        unat (fi_offset f') = unat (fi_offset f) + length (file_read (unat (fi_offset f)) len (tmp_content s (fi_inode f)))"
    if "readable (fi_flags f)" using tmp_open.read_seq [OF assms that, of len] by blast
  assume w: "writable (fi_flags f) \<and> file_write_seq tmpfs_ops tmp_data_ops (s, f) bs = Some (Inr n, s', f')"
  then obtain off where off: "write_offset tmpfs_ops s f = Inr off" and r: "n = length bs" "tmp_regular s' (fi_inode f)"
      "tmp_content s' (fi_inode f) = file_write (unat off) bs (tmp_content s (fi_inode f))" "unat (fi_offset f') = unat off + length bs"
    using tmp_open.write_seq [OF assms] by blast
  have o: "unat off = (if fi_flags f AND O_APPEND \<noteq> 0 then length (tmp_content s (fi_inode f)) else unat (fi_offset f))"
    using off tmp_open.append_offset [OF assms] by (auto simp: write_offset_def)
  show "n = length bs" "tmp_regular s' (fi_inode f)" by (fact r)+
  show "tmp_content s' (fi_inode f) = (if fi_flags f AND O_APPEND \<noteq> 0 then tmp_content s (fi_inode f) @ bs
        else file_write (unat (fi_offset f)) bs (tmp_content s (fi_inode f)))"
    using r(3) o by (auto simp: append_at_end)
  show "unat (fi_offset f') = (if fi_flags f AND O_APPEND \<noteq> 0 then length (tmp_content s (fi_inode f)) else unat (fi_offset f)) + length bs"
    using r(4) o by simp
qed (simp_all add: file_read_seq_def file_write_seq_def)

lemma tmp_spec_regular: "tmp_regular s i \<Longrightarrow> tmp_spec s i flags = Inr None"
  by (simp add: tmp_regular_def tmp_spec_def tmp_open_special_def)

lemma open_existing:
  assumes "ctx_resolve tmpfs_ops s cx path True = Some (Inr n)" "tmp_regular s (pn_inode n)"
    and "vfs_open tmpfs_ops tmp_spec now fl s cx path (O_WRONLY OR O_CREAT OR O_TRUNC) mode = Some (Inr h, s1)"
  shows "h = InodeFile n O_WRONLY \<and> tmp_regular s1 (pn_inode n) \<and> tmp_content s1 (pn_inode n) = [] \<and> same_view tmpfs_ops s s1"
proof -
  let ?flags = "O_WRONLY OR O_CREAT OR O_TRUNC"
  have fl: "?flags AND O_CREAT \<noteq> 0" "?flags AND O_NOFOLLOW = 0" "?flags AND O_TRUNC \<noteq> 0" "?flags AND O_EXCL = 0" "file_flags ?flags = O_WRONLY"
    by (simp_all add: open_flags file_flags_def)
  obtain m where m: "io_metadata tmpfs_ops s (pn_inode n) = Inr m" "md_kind m = Regular" "unat (md_size m) = length (tmp_content s (pn_inode n))"
    using tmp_regular_meta [OF assms(2)] by (auto simp: tmpfs_ops_def)
  have ok: "tmp_file_ok s (pn_inode n)" using assms(2) by (simp add: tmp_regular_def)
  have "open_node tmpfs_ops tmp_spec now fl s cx n ?flags = Some (Inr h, s1)"
    using assms(1,3) fl unfolding vfs_open_def by (auto simp: on_path_def split: option.splits sum.splits)
  then have o: "(if md_size m \<noteq> 0 then
       (case io_set_attr tmpfs_ops s (pn_inode n) (truncate_attr 0 now) of
          (Inl e, s') \<Rightarrow> Some (Inl e, s') | (Inr _, s') \<Rightarrow> Some (Inr (InodeFile n (file_flags ?flags)), s'))
     else Some (Inr (InodeFile n (file_flags ?flags)), s)) = Some (Inr h, s1)"
    unfolding open_node_def using m(1,2) tmp_spec_regular [OF assms(2)] fl
    by (auto simp: on_ok_def split: sum.splits if_splits)
  show ?thesis
  proof (cases "md_size m = 0")
    case True
    then show ?thesis using o m(3) assms(2) fl(5) by (simp add: same_view_def)
  next
    case False
    obtain r s' where sa: "tmp_set_attr s (pn_inode n) (truncate_attr 0 now) = (r, s')" by fastforce
    note t = truncate_change [OF sa ok]
    have "node_kind s' (pn_inode n) = Regular" using t assms(2) by (auto simp: file_change_def node_kind_def tmp_regular_def)
    then show ?thesis using o False sa t file_change_view fl(5) by (auto simp: tmpfs_ops_def tmp_regular_def file_truncate_def pad_to_def)
  qed
qed

lemma write_all_once:
  assumes "tmp_regular s (fi_inode f)" "writable (fi_flags f)" "bs \<noteq> []"
    and "write_all (file_write_seq tmpfs_ops tmp_data_ops) (s, f) bs = Some (Inr (), s', f')"
  shows "\<exists>off n. tmp_write_at s (fi_inode f) off bs = (Inr n, s')"
proof -
  obtain n s1 f1 where w: "file_write_seq tmpfs_ops tmp_data_ops (s, f) bs = Some (Inr n, s1, f1)"
      "write_all (file_write_seq tmpfs_ops tmp_data_ops) (s1, f1) (drop n bs) = Some (Inr (), s', f')"
    using assms(3,4) by (auto simp: write_all.simps [of _ "(s, f)"] split: option.splits sum.splits prod.splits if_splits)
  have "n = length bs" using tmp_open.write_seq [OF assms(1,2) w(1)] by blast
  then have "s' = s1" using w(2) by (simp add: write_all.simps)
  then show ?thesis using w(1) assms(2) by (auto simp: file_write_seq_def tmp_data_ops_def split: sum.splits prod.splits)
qed

text \<open>
  C8 (what is written is read back). When \<^verbatim>\<open>write_file\<close> reports success for an existing regular file of a tmpfs, \<^verbatim>\<open>read_file\<close> of the same path
  by the same process, which may read the file, returns exactly the bytes written: through resolution, opening with truncation, the write
  loop, the pages of the file and the read loop.
\<close>

theorem write_file_read_back:
  assumes "ctx_resolve tmpfs_ops s cx path True = Some (Inr n)" "tmp_regular s (pn_inode n)"
    and "tmp_metadata s (pn_inode n) = Inr m" "perm_check (cx_cred cx) m MAY_READ = Inr ()"
    and "vfs_write_file tmpfs_ops tmp_data_ops tmp_spec now fl sp_write s cx path bytes mode = Some (Inr (), s')"
    and "length bytes \<le> 8192 * k"
  shows "vfs_read_file tmpfs_ops tmp_data_ops tmp_spec now' fl sp_read (Suc k) s' cx path = Some (Inr bytes, s')"
proof -
  let ?i = "pn_inode n"
  obtain h s1 where op: "vfs_open tmpfs_ops tmp_spec now fl s cx path (O_WRONLY OR O_CREAT OR O_TRUNC) mode = Some (Inr h, s1)"
    using assms(5) by (auto simp: vfs_write_file_def split: option.splits prod.splits sum.splits)
  note o = open_existing [OF assms(1,2) op]
  obtain f' where w: "write_all (file_write_seq tmpfs_ops tmp_data_ops) (s1, inode_file_new n O_WRONLY) bytes = Some (Inr (), s', f')"
    using assms(5) op o by (auto simp: vfs_write_file_def)
  have r: "tmp_regular s' ?i \<and> tmp_content s' ?i = bytes \<and> same_view tmpfs_ops s1 s'"
  proof (cases "bytes = []")
    case True
    then show ?thesis using w o by (simp add: write_all.simps same_view_def)
  next
    case False
    let ?f = "inode_file_new n O_WRONLY"
    have f: "tmp_regular s1 (fi_inode ?f)" "writable (fi_flags ?f)" "write_offset tmpfs_ops s1 ?f = Inr 0" "fi_inode ?f = ?i"
      using o by (simp_all add: inode_file_new_def fi_inode_def writable_def write_offset_def open_flags)
    have "same_view tmpfs_ops s1 s'" using write_all_once [OF f(1,2) False w] write_change file_change_view by blast
    then show ?thesis
      using tmp_open.write_all_stream [OF f(1,2) w False] f(3,4) o by (auto simp: file_write_def pad_to_def)
  qed
  have view: "same_view tmpfs_ops s s'" by (rule same_view_trans [of _ s s1 s']) (use o r in simp_all)
  have "ctx_resolve tmpfs_ops s' cx path True = Some (Inr n)"
    using assms(1) resolve_view [OF view] by (simp add: ctx_resolve_def)
  moreover obtain m' where m': "io_metadata tmpfs_ops s' ?i = Inr m'" "md_kind m' = Regular" "perm_check (cx_cred cx) m' MAY_READ = Inr ()"
  proof -
    have "io_metadata tmpfs_ops s ?i = Inr m" using assms(3) by (simp add: tmpfs_ops_def)
    from same_view_meta(2) [OF view this] show thesis
      using that assms(4) tmp_regular_meta [of s' ?i] r by (auto simp: tmpfs_ops_def)
  qed
  ultimately have "vfs_open tmpfs_ops tmp_spec now' fl s' cx path O_RDONLY 0 = Some (Inr (InodeFile n 0), s')"
    using tmp_spec_regular r by (simp add: vfs_open_def open_node_def on_path_def on_ok_def want_write_def open_mask_def file_flags_def open_flags)
  moreover have "\<exists>g. read_to_end (Suc k) (file_read_seq tmpfs_ops tmp_data_ops s') (inode_file_new n 0) [] = Some (Inr bytes, g)"
    using tmp_open.read_to_end_stream [of s' "inode_file_new n 0" k "[]"] r assms(6)
    by (simp add: inode_file_new_def fi_inode_def readable_def open_flags)
  ultimately show ?thesis by (auto simp: vfs_read_file_def)
qed
section \<open>Witnesses\<close>

lemma unlimited_write:
  assumes "tmp_file_ok s i" "tf_limit s = 0" "off + length bs \<le> 2 ^ 40"
  shows "\<exists>s'. tmp_write_at s i off bs = (Inr (length bs), s')"
proof -
  obtain pages sz where "tn_data (tnode s i) = TFile pages sz" using assms(1) by (rule tmp_file_okE)
  then show ?thesis using assms(2,3) write_loop_unlimited [of pages "tf_used s" off bs 0]
    by (auto simp: tmp_write_at_def Let_def split: prod.split sum.split)
qed

definition example_node :: "nat path_node" where
  "example_node = PathNode 1 2 ''f'' (Some (PathNode 1 1 [] None))"

lemma example_regular: "tmp_regular (example_fs limit) 2"
  using example_file(4,5) [of limit] by (simp add: tmp_regular_def example_eval)

lemma example_write: "\<exists>s' f'. file_write_seq tmpfs_ops tmp_data_ops (example_fs 0, inode_file_new example_node O_WRONLY) [7, 8] = Some (Inr 2, s', f')"
  using unlimited_write [OF example_file(4) [of 0], of 0 "[7, 8]"] example_file(1) [of 0]
  by (auto simp: file_write_seq_def inode_file_new_def fi_inode_def example_node_def writable_def write_offset_def open_flags add_off_def tmp_data_ops_def)

theorem open_file_stream_witness:
  "\<exists>s' f'. file_write_seq tmpfs_ops tmp_data_ops (example_fs 0, inode_file_new example_node O_WRONLY) [7, 8] = Some (Inr 2, s', f') \<and>
     tmp_content s' 2 = [7, 8] \<and> unat (fi_offset f') = 2"
proof -
  have f: "fi_inode (inode_file_new example_node O_WRONLY) = 2" "writable (fi_flags (inode_file_new example_node O_WRONLY))"
    "fi_flags (inode_file_new example_node O_WRONLY) AND O_APPEND = 0" "fi_offset (inode_file_new example_node O_WRONLY) = 0"
    by (simp_all add: inode_file_new_def fi_inode_def example_node_def writable_def open_flags)
  obtain s' f' where w: "file_write_seq tmpfs_ops tmp_data_ops (example_fs 0, inode_file_new example_node O_WRONLY) [7, 8] = Some (Inr 2, s', f')"
    using example_write by blast
  have "tmp_regular (example_fs 0) (fi_inode (inode_file_new example_node O_WRONLY))" using example_regular f(1) by simp
  from open_file_stream [OF this, of 0 "[7, 8]" 2 s' f'] show ?thesis
    using w f example_file(5) [of 0] by (auto simp: file_write_def pad_to_def)
qed

theorem write_file_read_back_witness:
  "\<exists>s'. vfs_write_file tmpfs_ops tmp_data_ops tmp_spec epoch writable_mounts (\<lambda>s g b. None) (example_fs 0) (example_ctx cred_root) ''/f'' [7, 8] 0
        = Some (Inr (), s') \<and>
      vfs_read_file tmpfs_ops tmp_data_ops tmp_spec epoch writable_mounts (\<lambda>s g. None) 2 s' (example_ctx cred_root) ''/f'' = Some (Inr [7, 8], s')"
proof -
  have r: "ctx_resolve tmpfs_ops (example_fs 0) (example_ctx cred_root) ''/f'' True = Some (Inr example_node)"
    by (simp add: example_eval example_node_def)
  have i: "pn_inode example_node = 2" by (simp add: example_node_def)
  obtain m where m: "tmp_metadata (example_fs 0) 2 = Inr m" using tmp_regular_meta [OF example_regular] by blast
  have p: "perm_check (cx_cred (example_ctx cred_root)) m MAY_READ = Inr ()"
    by (simp add: perm_check_def example_ctx_def cred_root_def is_root_def MAY_READ_def MAY_EXEC_def)
  have o: "vfs_open tmpfs_ops tmp_spec epoch writable_mounts (example_fs 0) (example_ctx cred_root) ''/f'' (O_WRONLY OR O_CREAT OR O_TRUNC) 0
      = Some (Inr (InodeFile example_node O_WRONLY), example_fs 0)"
    by (simp add: vfs_open_def open_node_def want_write_def open_mask_def open_flags file_flags_def example_eval example_node_def tmp_spec_def
        tmp_open_special_def MAY_WRITE_def)
  obtain s' f' where "file_write_seq tmpfs_ops tmp_data_ops (example_fs 0, inode_file_new example_node O_WRONLY) [7, 8] = Some (Inr 2, s', f')"
    using example_write by blast
  then have w: "vfs_write_file tmpfs_ops tmp_data_ops tmp_spec epoch writable_mounts (\<lambda>s g b. None) (example_fs 0) (example_ctx cred_root) ''/f'' [7, 8] 0
        = Some (Inr (), s')"
    by (simp add: vfs_write_file_def o write_all.simps)
  have "vfs_read_file tmpfs_ops tmp_data_ops tmp_spec epoch writable_mounts (\<lambda>s g. None) (Suc 1) s' (example_ctx cred_root) ''/f'' = Some (Inr [7, 8], s')"
    by (rule write_file_read_back [OF r _ _ p w]) (simp_all add: i example_regular m)
  then show ?thesis using w by (auto simp: numeral_2_eq_2)
qed

text \<open>
  Positioned reads and writes ignore the access mode: through a file opened for reading only, \<^verbatim>\<open>pwrite\<close> changes the content, where
  \<^verbatim>\<open>write\<close> is refused.
\<close>

lemma pwrite_ignores_mode:
  fixes f :: "nat inode_file"
  defines "f \<equiv> inode_file_new example_node O_RDONLY"
  shows "file_write_seq tmpfs_ops tmp_data_ops (example_fs 0, f) [7, 8] = Some (Inl EBADF, example_fs 0, f)"
    and "\<exists>s'. file_pwrite tmp_data_ops (example_fs 0) f 0 [7, 8] = (Inr 2, s') \<and> tmp_content s' 2 = [7, 8]"
proof -
  show "file_write_seq tmpfs_ops tmp_data_ops (example_fs 0, f) [7, 8] = Some (Inl EBADF, example_fs 0, f)"
    by (simp add: f_def file_write_seq_def inode_file_new_def writable_def open_flags)
  obtain s' where w: "tmp_write_at (example_fs 0) 2 0 [7, 8] = (Inr 2, s')"
    using unlimited_write [OF example_file(4) [of 0], of 0 "[7, 8]"] example_file(1) [of 0] by auto
  have "tmp_content s' 2 = [7, 8]"
    using tmpfile.wr_data [OF example_file(4) w] example_file(5) [of 0] by (simp add: file_write_def pad_to_def)
  then have "file_pwrite tmp_data_ops (example_fs 0) f 0 [7, 8] = (Inr 2, s') \<and> tmp_content s' 2 = [7, 8]"
    by (simp add: w f_def file_pwrite_def tmp_data_ops_def fi_inode_def inode_file_new_def example_node_def)
  then show "\<exists>s'. file_pwrite tmp_data_ops (example_fs 0) f 0 [7, 8] = (Inr 2, s') \<and> tmp_content s' 2 = [7, 8]" by blast
qed

end
