(* ===== verification/Fd_Table.thy ===== *)
theory Fd_Table
  imports Errno
begin

text \<open>
  The table of file descriptors of a process, \<^verbatim>\<open>kernel/src/proc/fdtable.rs\<close>: slots in a vector that grows as needed. A
  descriptor is a signed number, \<open>'f\<close> an open file (an \<^verbatim>\<open>Arc<dyn File>\<close>).
\<close>

section \<open>Operations\<close>

definition MAX_FDS :: nat where "MAX_FDS = 1024"

record 'f fd_entry =
  fe_file :: 'f
  fe_cloexec :: bool

type_synonym 'f fd_table = "'f fd_entry option list"

definition fdt_new :: "'f fd_table" where "fdt_new = []"

text \<open>\<^verbatim>\<open>slots.get(i)\<close> flattened: nothing beyond the end, nothing in an empty slot.\<close>

definition slot :: "'f fd_table \<Rightarrow> nat \<Rightarrow> 'f fd_entry option" where
  "slot t i = (if i < length t then t ! i else None)"

definition fdt_set :: "'f fd_table \<Rightarrow> nat \<Rightarrow> 'f \<Rightarrow> bool \<Rightarrow> 'f fd_table" where
  "fdt_set t fd file cloexec =
     (let grown = (if length t \<le> fd then t @ replicate (fd + 1 - length t) None else t)
      in grown[fd := Some \<lparr>fe_file = file, fe_cloexec = cloexec\<rparr>])"

definition fdt_alloc :: "'f fd_table \<Rightarrow> 'f \<Rightarrow> bool \<Rightarrow> nat \<Rightarrow> int KResult \<times> 'f fd_table" where
  "fdt_alloc t file cloexec min_fd =
     (case find (\<lambda>i. slot t i = None) [min_fd..<MAX_FDS] of
        None \<Rightarrow> (Inl EMFILE, t)
      | Some fd \<Rightarrow> (Inr (int fd), fdt_set t fd file cloexec))"

definition fdt_entry :: "'f fd_table \<Rightarrow> int \<Rightarrow> 'f fd_entry KResult" where
  "fdt_entry t fd =
     (if fd < 0 then Inl EBADF else case slot t (nat fd) of None \<Rightarrow> Inl EBADF | Some e \<Rightarrow> Inr e)"

definition fdt_get :: "'f fd_table \<Rightarrow> int \<Rightarrow> 'f KResult" where
  "fdt_get t fd = kbind (fdt_entry t fd) (\<lambda>e. Inr (fe_file e))"

definition fdt_set_cloexec :: "'f fd_table \<Rightarrow> int \<Rightarrow> bool \<Rightarrow> unit KResult \<times> 'f fd_table" where
  "fdt_set_cloexec t fd on =
     (if fd < 0 then (Inl EBADF, t)
      else case slot t (nat fd) of
        None \<Rightarrow> (Inl EBADF, t)
      | Some e \<Rightarrow> (Inr (), t[nat fd := Some (e\<lparr>fe_cloexec := on\<rparr>)]))"

definition fdt_close :: "'f fd_table \<Rightarrow> int \<Rightarrow> 'f KResult \<times> 'f fd_table" where
  "fdt_close t fd =
     (if fd < 0 then (Inl EBADF, t)
      else case slot t (nat fd) of
        None \<Rightarrow> (Inl EBADF, t)
      | Some e \<Rightarrow> (Inr (fe_file e), t[nat fd := None]))"

definition fdt_dup2 :: "'f fd_table \<Rightarrow> int \<Rightarrow> int \<Rightarrow> int KResult \<times> 'f fd_table" where
  "fdt_dup2 t old new =
     (case fdt_get t old of
        Inl e \<Rightarrow> (Inl e, t)
      | Inr f \<Rightarrow>
          if new < 0 \<or> MAX_FDS \<le> nat new then (Inl EBADF, t)
          else (Inr new, if old \<noteq> new then fdt_set t (nat new) f False else t))"

definition fdt_close_on_exec :: "'f fd_table \<Rightarrow> 'f fd_table" where
  "fdt_close_on_exec t = map (\<lambda>s. case s of None \<Rightarrow> None | Some e \<Rightarrow> if fe_cloexec e then None else Some e) t"

definition fdt_iter :: "'f fd_table \<Rightarrow> (int \<times> 'f fd_entry) list" where
  "fdt_iter t = List.map_filter (\<lambda>(i, s). map_option (\<lambda>e. (int i, e)) s) (enumerate 0 t)"

definition fdt_count :: "'f fd_table \<Rightarrow> nat" where
  "fdt_count t = length (filter (\<lambda>s. s \<noteq> None) t)"

definition fdt_clear :: "'f fd_table \<Rightarrow> 'f fd_table" where
  "fdt_clear t = []"

section \<open>The table as a map\<close>

text \<open>
  What a table of descriptors promises: it is a partial map, whose operations are the usual ones and whose new descriptors are
  the lowest free ones.
\<close>

locale descriptor_table =
  fixes view :: "'t \<Rightarrow> nat \<Rightarrow> 'e option" and fresh :: "'t \<Rightarrow> 'e \<Rightarrow> nat \<Rightarrow> nat option \<times> 't" and put :: "'t \<Rightarrow> nat \<Rightarrow> 'e \<Rightarrow> 't" and del :: "'t \<Rightarrow> nat \<Rightarrow> 't"
    and top :: nat
  assumes put_view: "view (put t i e) = (view t)(i \<mapsto> e)"
    and del_view: "view (del t i) = (view t)(i := None)"
    and fresh_some: "fresh t e lo = (Some i, t') \<Longrightarrow>
      lo \<le> i \<and> i < top \<and> view t i = None \<and> (\<forall>j. lo \<le> j \<and> j < i \<longrightarrow> view t j \<noteq> None) \<and> t' = put t i e"
    and fresh_none: "fresh t e lo = (None, t') \<Longrightarrow> t' = t \<and> (\<forall>j. lo \<le> j \<and> j < top \<longrightarrow> view t j \<noteq> None)"
begin

text \<open>Closing a descriptor and asking again gives the same one back.\<close>

lemma reuse:
  assumes "\<forall>j < i. view t j \<noteq> None" "i < top" "view t i \<noteq> None"
  shows "\<exists>t'. fresh (del t i) e 0 = (Some i, t') \<and> view t' = (view t)(i \<mapsto> e)"
proof (cases "fresh (del t i) e 0")
  case (Pair r t')
  show ?thesis
  proof (cases r)
    case None
    then show ?thesis using fresh_none [of "del t i" e 0 t'] Pair assms(2) by (auto simp: del_view)
  next
    case (Some k)
    then have k: "view (del t i) k = None" "\<forall>j < k. view (del t i) j \<noteq> None" "t' = put (del t i) k e"
      using fresh_some [of "del t i" e 0 k t'] Pair by auto
    have "k = i" using k(1,2) assms(1) by (metis (no_types, lifting) del_view fun_upd_other fun_upd_same linorder_neqE_nat)
    then show ?thesis using Pair Some k(3) by (simp add: put_view del_view)
  qed
qed

end

definition fdt_fresh :: "'f fd_table \<Rightarrow> 'f fd_entry \<Rightarrow> nat \<Rightarrow> nat option \<times> 'f fd_table" where
  "fdt_fresh t e lo = (case fdt_alloc t (fe_file e) (fe_cloexec e) lo of (Inl _, t') \<Rightarrow> (None, t') | (Inr fd, t') \<Rightarrow> (Some (nat fd), t'))"

lemma slot_set: "slot (fdt_set t fd f c) = (slot t)(fd \<mapsto> \<lparr>fe_file = f, fe_cloexec = c\<rparr>)"
  by (rule ext) (auto simp: slot_def fdt_set_def Let_def nth_append nth_list_update)

lemma slot_update: "slot (t[i := None]) = (slot t)(i := None)"
  by (rule ext) (auto simp: slot_def nth_list_update)

lemma slot_update_some: "i < length t \<Longrightarrow> slot (t[i := Some e]) = (slot t)(i \<mapsto> e)"
  by (rule ext) (auto simp: slot_def nth_list_update)

lemma slot_Some: "slot t i = Some e \<Longrightarrow> i < length t"
  by (auto simp: slot_def split: if_splits)

lemma find_upt_Some: "find P [m..<n] = Some i \<longleftrightarrow> m \<le> i \<and> i < n \<and> P i \<and> (\<forall>j. m \<le> j \<and> j < i \<longrightarrow> \<not> P j)"
proof
  assume "find P [m..<n] = Some i"
  then obtain k where k: "k < n - m" "P (m + k)" "i = m + k" "\<forall>j<k. \<not> P (m + j)" by (auto simp: find_Some_iff)
  have "\<not> P j" if "m \<le> j" "j < i" for j using k(4) [rule_format, of "j - m"] k(3) that by auto
  then show "m \<le> i \<and> i < n \<and> P i \<and> (\<forall>j. m \<le> j \<and> j < i \<longrightarrow> \<not> P j)" using k by auto
next
  assume i: "m \<le> i \<and> i < n \<and> P i \<and> (\<forall>j. m \<le> j \<and> j < i \<longrightarrow> \<not> P j)"
  then show "find P [m..<n] = Some i" unfolding find_Some_iff by (intro exI [of _ "i - m"]) auto
qed

interpretation fdt: descriptor_table slot fdt_fresh "\<lambda>t i e. fdt_set t i (fe_file e) (fe_cloexec e)" "\<lambda>t i. t[i := None]" MAX_FDS
  by unfold_locales
    (auto simp: slot_set slot_update fdt_fresh_def fdt_alloc_def find_upt_Some find_None_iff split: option.splits)
section \<open>Theorems\<close>

lemma slot_count: "fdt_count t = card (dom (slot t))"
proof -
  have "dom (slot t) = {i. i < length t \<and> t ! i \<noteq> None}" by (auto simp: slot_def split: if_splits)
  then show ?thesis by (simp add: fdt_count_def length_filter_conv_card)
qed

lemma close_on_exec_slot: "slot (fdt_close_on_exec t) i = (case slot t i of None \<Rightarrow> None | Some e \<Rightarrow> if fe_cloexec e then None else Some e)"
  by (simp add: slot_def fdt_close_on_exec_def)



end
