(* ===== verification/User_Memory.thy ===== *)
theory User_Memory
  imports Errno
begin

text \<open>
  User memory as the kernel reads and writes it: the checks of \<^verbatim>\<open>kernel/src/uaccess.rs\<close> and the copy loops of
  \<^verbatim>\<open>kernel/src/mm/aspace.rs\<close>, for a process with an address space. A process sees one byte per virtual address; its mappings are
  regions with their protection. Bringing a page in (demand allocation, copy on write, swapping) can fail for want of
  memory: \<open>um_fault\<close> gives the error for a page, and is otherwise invisible. Two mappings of one page are not modelled.
\<close>

section \<open>Address spaces\<close>

abbreviation USER_START :: nat where "USER_START \<equiv> 0x10000"
abbreviation USER_END :: nat where "USER_END \<equiv> 0x00007FFFFFFFF000"
abbreviation PHYS_OFFSET :: nat where "PHYS_OFFSET \<equiv> 0xFFFF800000000000"
abbreviation PAGE_SIZE :: nat where "PAGE_SIZE \<equiv> 4096"

record region =
  rg_start :: nat
  rg_end :: nat
  rg_read :: bool
  rg_write :: bool

record umem =
  um_regions :: "region list"
  um_fault :: "nat \<Rightarrow> bool \<Rightarrow> Errno option"
  um_bytes :: "nat \<Rightarrow> u8"

definition align_down :: "nat \<Rightarrow> nat \<Rightarrow> nat" where
  "align_down v a = v - v mod a"

definition region_at :: "umem \<Rightarrow> nat \<Rightarrow> region option" where
  "region_at m va = find (\<lambda>r. rg_start r \<le> va \<and> va < rg_end r) (um_regions m)"

function verify_loop :: "umem \<Rightarrow> bool \<Rightarrow> nat \<Rightarrow> nat \<Rightarrow> bool" where
  "verify_loop m write va stop =
     (if va < stop then
        (case region_at m va of
           Some r \<Rightarrow> rg_read r \<and> (\<not> write \<or> rg_write r) \<and> verify_loop m write (va + PAGE_SIZE) stop
         | None \<Rightarrow> False)
      else True)"
  by pat_completeness auto
termination by (relation "measure (\<lambda>(m, w, va, e). e - va)") auto

declare verify_loop.simps [simp del]

definition verify :: "umem \<Rightarrow> nat \<Rightarrow> nat \<Rightarrow> bool \<Rightarrow> bool" where
  "verify m addr len write =
     (if 2 ^ 64 \<le> addr + len then False
      else if addr < USER_START \<or> USER_END < addr + len then False
      else verify_loop m write (align_down addr PAGE_SIZE) (addr + len))"

definition fault_in :: "umem \<Rightarrow> nat \<Rightarrow> bool \<Rightarrow> unit KResult" where
  "fault_in m pg write =
     (case region_at m pg of
        None \<Rightarrow> Inl EFAULT
      | Some r \<Rightarrow>
          if write \<and> \<not> rg_write r then Inl EFAULT
          else (case um_fault m pg write of Some e \<Rightarrow> Inl e | None \<Rightarrow> Inr ()))"

definition put_bytes :: "umem \<Rightarrow> nat \<Rightarrow> u8 list \<Rightarrow> umem" where
  "put_bytes m addr bs =
     m\<lparr>um_bytes := (\<lambda>a. if addr \<le> a \<and> a < addr + length bs then bs ! (a - addr) else um_bytes m a)\<rparr>"

definition get_bytes :: "umem \<Rightarrow> nat \<Rightarrow> nat \<Rightarrow> u8 list" where
  "get_bytes m addr len = map (um_bytes m) [addr..<addr + len]"

text \<open>How many of \<open>n\<close> bytes at an address lie in its page.\<close>

definition page_part :: "nat \<Rightarrow> nat \<Rightarrow> nat" where
  "page_part va n = min (PAGE_SIZE - (va - align_down va PAGE_SIZE)) n"

lemma page_part_bounds [simp]: "page_part va n \<le> n" "0 < n \<Longrightarrow> 0 < page_part va n"
proof -
  have "va - align_down va PAGE_SIZE = va mod PAGE_SIZE"
    by (simp add: align_down_def)
  then show "page_part va n \<le> n" "0 < n \<Longrightarrow> 0 < page_part va n" by (simp_all add: page_part_def)
qed

function as_write :: "umem \<Rightarrow> nat \<Rightarrow> u8 list \<Rightarrow> unit KResult \<times> umem" where
  "as_write m va bs =
     (if bs = [] then (Inr (), m)
      else case fault_in m (align_down va PAGE_SIZE) True of
        Inl e \<Rightarrow> (Inl e, m)
      | Inr _ \<Rightarrow> let n = page_part va (length bs) in as_write (put_bytes m va (take n bs)) (va + n) (drop n bs))"
  by pat_completeness auto
termination by (relation "measure (\<lambda>(m, va, bs). length bs)") auto

function as_read :: "umem \<Rightarrow> nat \<Rightarrow> nat \<Rightarrow> u8 list KResult" where
  "as_read m va len =
     (if len = 0 then Inr []
      else case fault_in m (align_down va PAGE_SIZE) False of
        Inl e \<Rightarrow> Inl e
      | Inr _ \<Rightarrow> let n = page_part va len
                 in kbind (as_read m (va + n) (len - n)) (\<lambda>rest. Inr (get_bytes m va n @ rest)))"
  by pat_completeness auto
termination by (relation "measure (\<lambda>(m, va, len). len)") auto

declare as_write.simps [simp del] as_read.simps [simp del]

section \<open>Copying across the boundary\<close>

definition ua_check :: "umem \<Rightarrow> nat \<Rightarrow> nat \<Rightarrow> bool \<Rightarrow> unit KResult" where
  "ua_check m addr len write =
     (if len = 0 then Inr ()
      else if 2 ^ 64 \<le> addr + len then Inl EFAULT
      else if PHYS_OFFSET \<le> addr then Inl EFAULT
      else if addr < USER_START \<or> USER_END < addr + len then Inl EFAULT
      else if verify m addr len write then Inr () else Inl EFAULT)"

definition copy_to :: "umem \<Rightarrow> nat \<Rightarrow> u8 list \<Rightarrow> unit KResult \<times> umem" where
  "copy_to m addr bs =
     (case ua_check m addr (length bs) True of
        Inl e \<Rightarrow> (Inl e, m)
      | Inr _ \<Rightarrow> as_write m addr bs)"

definition copy_from :: "umem \<Rightarrow> nat \<Rightarrow> nat \<Rightarrow> u8 list KResult" where
  "copy_from m addr len = kbind (ua_check m addr len False) (\<lambda>_. as_read m addr len)"

section \<open>What a copy does\<close>

lemma length_get_bytes [simp]: "length (get_bytes m addr len) = len"
  by (simp add: get_bytes_def)

lemma get_bytes_cong:
  "(\<And>a. addr \<le> a \<Longrightarrow> a < addr + len \<Longrightarrow> um_bytes m a = um_bytes m' a) \<Longrightarrow> get_bytes m addr len = get_bytes m' addr len"
  by (simp add: get_bytes_def)

lemma put_bytes_sel [simp]:
  "um_regions (put_bytes m a bs) = um_regions m" "um_fault (put_bytes m a bs) = um_fault m"
  "um_bytes (put_bytes m a bs) = (\<lambda>i. if a \<le> i \<and> i < a + length bs then bs ! (i - a) else um_bytes m i)"
  by (simp_all add: put_bytes_def)

lemma get_put_bytes [simp]: "get_bytes (put_bytes m a bs) a (length bs) = bs"
  by (rule nth_equalityI) (auto simp: get_bytes_def)

lemma get_put_bytes_other:
  "a + len \<le> b \<or> b + length bs \<le> a \<Longrightarrow> get_bytes (put_bytes m b bs) a len = get_bytes m a len"
  by (rule get_bytes_cong) auto

lemma get_bytes_part:
  "a \<le> b \<Longrightarrow> b + n \<le> a + len \<Longrightarrow> get_bytes m b n = take n (drop (b - a) (get_bytes m a len))"
  by (rule nth_equalityI) (auto simp: get_bytes_def)

lemma get_bytes_append: "get_bytes m a (n + k) = get_bytes m a n @ get_bytes m (a + n) k"
  using upt_add_eq_append [of a "a + n" k] by (simp add: get_bytes_def add.assoc)

lemma put_bytes_append: "put_bytes (put_bytes m a xs) (a + length xs) ys = put_bytes m a (xs @ ys)"
proof -
  have "um_bytes (put_bytes (put_bytes m a xs) (a + length xs) ys) = um_bytes (put_bytes m a (xs @ ys))"
    by (rule ext) (auto simp: nth_append algebra_simps)
  then show ?thesis by (simp add: put_bytes_def)
qed

lemma put_bytes_Nil [simp]: "put_bytes m a [] = m"
proof -
  have "um_bytes (put_bytes m a []) = um_bytes m" by (rule ext) auto
  then show ?thesis by (simp add: put_bytes_def)
qed

lemma region_at_cong: "um_regions m' = um_regions m \<Longrightarrow> region_at m' va = region_at m va"
  by (simp add: region_at_def)

lemma fault_in_cong:
  "um_regions m' = um_regions m \<Longrightarrow> um_fault m' = um_fault m \<Longrightarrow> fault_in m' = fault_in m"
  by (intro ext) (simp add: fault_in_def region_at_cong [of m' m] split: option.split)

text \<open>A write stores a prefix of the bytes, all of them when it succeeds; a read returns the bytes.\<close>

lemma as_write_prefix:
  assumes "as_write m va bs = (r, m')"
  obtains n where "n \<le> length bs" "m' = put_bytes m va (take n bs)" "r = Inr () \<Longrightarrow> n = length bs"
  using assms
proof (induction m va bs arbitrary: thesis rule: as_write.induct)
  case (1 m va bs)
  show ?case
  proof (cases "bs = []")
    case True
    then show ?thesis using 1(2) [of 0] 1(3) by (simp add: as_write.simps)
  next
    case False
    define k where "k = page_part va (length bs)"
    have k: "k \<le> length bs" by (simp add: k_def)
    show ?thesis
    proof (cases "fault_in m (align_down va PAGE_SIZE) True")
      case (Inl e)
      then have "r = Inl e" "m' = m" using 1(3) False by (auto simp: as_write.simps)
      then show ?thesis using 1(2) [of 0] by simp
    next
      case (Inr u)
      then have "as_write (put_bytes m va (take k bs)) (va + k) (drop k bs) = (r, m')"
        using 1(3) False by (simp add: as_write.simps [of m] k_def Let_def)
      then obtain n where n: "n \<le> length (drop k bs)" "m' = put_bytes (put_bytes m va (take k bs)) (va + k) (take n (drop k bs))"
        "r = Inr () \<Longrightarrow> n = length (drop k bs)"
        using 1(1) [OF False Inr k_def] by blast
      have "m' = put_bytes m va (take (k + n) bs)"
        using n(2) k put_bytes_append [of m va "take k bs" "take n (drop k bs)"] by (simp add: take_add min_absorb2)
      then show ?thesis using 1(2) [of "k + n"] n k by auto
    qed
  qed
qed

lemma as_read_bytes: "as_read m va len = Inr bs \<Longrightarrow> bs = get_bytes m va len"
proof (induction m va len arbitrary: bs rule: as_read.induct)
  case (1 m va len)
  show ?case
  proof (cases "len = 0")
    case True
    then show ?thesis using 1(2) by (simp add: as_read.simps get_bytes_def)
  next
    case False
    define n where "n = page_part va len"
    obtain u rest where "fault_in m (align_down va PAGE_SIZE) False = Inr u"
      "as_read m (va + n) (len - n) = Inr rest" "bs = get_bytes m va n @ rest"
      using 1(2) False by (auto simp: as_read.simps [of m va] n_def Let_def kbind_Inr split: sum.splits)
    moreover have "n \<le> len" by (simp add: n_def)
    ultimately show ?thesis
      using 1(1) [OF False _ n_def] get_bytes_append [of m va n "len - n"] by simp
  qed
qed

lemma copy_to_prefix:
  assumes "copy_to m addr bs = (r, m')"
  obtains n where "n \<le> length bs" "m' = put_bytes m addr (take n bs)" "r = Inr () \<Longrightarrow> n = length bs"
proof (cases "ua_check m addr (length bs) True")
  case (Inl e)
  then have "r = Inl e" "m' = m" using assms by (auto simp: copy_to_def)
  then show ?thesis using that [of 0] by simp
next
  case (Inr u)
  then show ?thesis using as_write_prefix [of m addr bs r m'] assms that by (auto simp: copy_to_def)
qed

lemma copy_to_ok: "copy_to m addr bs = (Inr (), m') \<Longrightarrow> m' = put_bytes m addr bs"
  by (erule copy_to_prefix) simp

lemma copy_to_frame:
  assumes "copy_to m addr bs = (r, m')"
  shows "um_regions m' = um_regions m" "um_fault m' = um_fault m"
    and "a < addr \<or> addr + length bs \<le> a \<Longrightarrow> um_bytes m' a = um_bytes m a"
  using assms by (elim copy_to_prefix; auto)+

lemma copy_from_ok: "copy_from m addr len = Inr bs \<Longrightarrow> bs = get_bytes m addr len"
  by (auto simp: copy_from_def kbind_Inr as_read_bytes)

text \<open>A copy that succeeds has stayed inside the user half and inside mappings that allow it.\<close>

lemma ua_check_range:
  assumes "ua_check m addr len write = Inr ()" "0 < len"
  shows "USER_START \<le> addr" "addr + len \<le> USER_END" "verify m addr len write"
  using assms by (auto simp: ua_check_def split: if_splits)

lemma copy_to_range:
  assumes "copy_to m addr bs = (Inr (), m')" "bs \<noteq> []"
  shows "USER_START \<le> addr" "addr + length bs \<le> USER_END" "verify m addr (length bs) True"
proof -
  have "ua_check m addr (length bs) True = Inr ()" using assms by (auto simp: copy_to_def split: sum.splits)
  then show "USER_START \<le> addr" "addr + length bs \<le> USER_END" "verify m addr (length bs) True"
    using ua_check_range assms(2) by auto
qed

text \<open>A verified range can be copied when its pages come in.\<close>

definition readable_page :: "umem \<Rightarrow> bool \<Rightarrow> nat \<Rightarrow> bool" where
  "readable_page m w p \<longleftrightarrow> (\<exists>r. region_at m p = Some r \<and> rg_read r \<and> (w \<longrightarrow> rg_write r))"

lemma verify_loop_iff:
  "va mod PAGE_SIZE = 0 \<Longrightarrow>
    verify_loop m w va stop \<longleftrightarrow> (\<forall>p. va \<le> p \<and> p < stop \<and> p mod PAGE_SIZE = 0 \<longrightarrow> readable_page m w p)"
proof (induction m w va stop rule: verify_loop.induct)
  case (1 m w va stop)
  have next_page: "va + PAGE_SIZE \<le> p" if a: "va \<le> p" "p mod PAGE_SIZE = 0" "p \<noteq> va" for p
  proof -
    obtain j k where "va = PAGE_SIZE * j" "p = PAGE_SIZE * k" using 1(2) a(2) by (metis mod_0_imp_dvd dvdE)
    then show ?thesis using a by simp
  qed
  show ?case
  proof (cases "va < stop")
    case True
    have "verify_loop m w va stop \<longleftrightarrow> readable_page m w va \<and> verify_loop m w (va + PAGE_SIZE) stop"
      using True by (auto simp: verify_loop.simps [of m w va] readable_page_def split: option.splits)
    also have "\<dots> \<longleftrightarrow> readable_page m w va \<and>
        (\<forall>p. va + PAGE_SIZE \<le> p \<and> p < stop \<and> p mod PAGE_SIZE = 0 \<longrightarrow> readable_page m w p)"
      using 1 True by (auto simp: readable_page_def)
    also have "\<dots> \<longleftrightarrow> (\<forall>p. va \<le> p \<and> p < stop \<and> p mod PAGE_SIZE = 0 \<longrightarrow> readable_page m w p)"
    proof (safe, goal_cases)
      case (1 p)
      then show ?case using next_page [of p] by (cases "p = va") simp_all
    qed (use True \<open>va mod PAGE_SIZE = 0\<close> in auto)
    finally show ?thesis .
  qed (auto simp: verify_loop.simps [of m w va])
qed

lemma align_down_mod [simp]: "align_down va a mod a = 0" "align_down va a \<le> va"
  by (simp_all add: align_down_def minus_mod_eq_mult_div)

lemma align_down_mono: "va \<le> vb \<Longrightarrow> align_down va PAGE_SIZE \<le> align_down vb PAGE_SIZE"
  by (simp add: align_down_def minus_mod_eq_mult_div div_le_mono)

definition pages_in :: "umem \<Rightarrow> nat \<Rightarrow> nat \<Rightarrow> bool \<Rightarrow> bool" where
  "pages_in m addr len w \<longleftrightarrow> (\<forall>va. addr \<le> va \<and> va < addr + len \<longrightarrow> um_fault m (align_down va PAGE_SIZE) w = None)"
lemma fault_in_verified:
  assumes "verify m addr len w" "pages_in m addr len w" "addr \<le> va" "va < addr + len"
  shows "fault_in m (align_down va PAGE_SIZE) w = Inr ()"
proof -
  have "verify_loop m w (align_down addr PAGE_SIZE) (addr + len)" using assms(1) by (simp add: verify_def split: if_splits)
  then have "readable_page m w (align_down va PAGE_SIZE)"
    using align_down_mono [OF assms(3)] le_less_trans [OF align_down_mod(2) assms(4)] by (simp add: verify_loop_iff)
  then show ?thesis using assms(2-4) by (auto simp: fault_in_def pages_in_def readable_page_def)
qed

lemma as_write_total:
  "(\<And>p. va \<le> p \<Longrightarrow> p < va + length bs \<Longrightarrow> fault_in m (align_down p PAGE_SIZE) True = Inr ()) \<Longrightarrow>
    fst (as_write m va bs) = Inr ()"
proof (induction m va bs rule: as_write.induct)
  case (1 m va bs)
  define n where "n = page_part va (length bs)"
  have n: "n \<le> length bs" by (simp add: n_def)
  show ?case
  proof (cases "bs = []")
    case False
    moreover have f: "fault_in m (align_down va PAGE_SIZE) True = Inr ()" using 1(2) [of va] False by simp
    moreover have "fst (as_write (put_bytes m va (take n bs)) (va + n) (drop n bs)) = Inr ()"
      by (rule 1(1) [OF False f n_def]) (use 1(2) n in \<open>auto simp: fault_in_cong [of "put_bytes m va (take n bs)" m]\<close>)
    ultimately show ?thesis by (simp add: as_write.simps [of m va bs] n_def Let_def)
  qed (simp add: as_write.simps)
qed

lemma as_read_total:
  "(\<And>p. va \<le> p \<Longrightarrow> p < va + len \<Longrightarrow> fault_in m (align_down p PAGE_SIZE) False = Inr ()) \<Longrightarrow>
    \<exists>bs. as_read m va len = Inr bs"
proof (induction m va len rule: as_read.induct)
  case (1 m va len)
  define n where "n = page_part va len"
  have n: "n \<le> len" by (simp add: n_def)
  show ?case
  proof (cases "len = 0")
    case False
    moreover have f: "fault_in m (align_down va PAGE_SIZE) False = Inr ()" using 1(2) [of va] False by simp
    moreover have "\<exists>bs. as_read m (va + n) (len - n) = Inr bs"
      by (rule 1(1) [OF False f n_def]) (use 1(2) n in auto)
    ultimately show ?thesis by (auto simp: as_read.simps [of m va len] n_def Let_def)
  qed (simp add: as_read.simps)
qed

definition can_copy :: "umem \<Rightarrow> nat \<Rightarrow> nat \<Rightarrow> bool \<Rightarrow> bool" where
  "can_copy m addr len w \<longleftrightarrow> ua_check m addr len w = Inr () \<and> pages_in m addr len w"

lemma copy_to_can:
  assumes "can_copy m addr (length bs) True"
  shows "copy_to m addr bs = (Inr (), put_bytes m addr bs)"
proof (cases "bs = []")
  case True
  then show ?thesis by (simp add: copy_to_def ua_check_def as_write.simps)
next
  case False
  then have "fst (as_write m addr bs) = Inr ()"
    using assms ua_check_range(3) [of m addr "length bs" True] fault_in_verified [of m addr "length bs" True]
    by (intro as_write_total) (auto simp: can_copy_def)
  then have "fst (copy_to m addr bs) = Inr ()" using assms by (simp add: copy_to_def can_copy_def)
  then show ?thesis using copy_to_ok [of m addr bs "snd (copy_to m addr bs)"] by (metis prod.collapse)
qed

lemma copy_from_can:
  assumes "can_copy m addr len False"
  shows "copy_from m addr len = Inr (get_bytes m addr len)"
proof (cases "len = 0")
  case True
  then show ?thesis by (simp add: copy_from_def ua_check_def as_read.simps get_bytes_def)
next
  case False
  then obtain bs where "as_read m addr len = Inr bs"
    using assms ua_check_range(3) [of m addr len False] fault_in_verified [of m addr len False] as_read_total [of addr len m]
    by (auto simp: can_copy_def)
  then have "copy_from m addr len = Inr bs" using assms by (simp add: copy_from_def can_copy_def)
  then show ?thesis using copy_from_ok by auto
qed

lemma ua_check_cong: "um_regions m' = um_regions m \<Longrightarrow> ua_check m' addr len w = ua_check m addr len w"
proof -
  assume "um_regions m' = um_regions m"
  then have "verify_loop m' w va stop = verify_loop m w va stop" for va stop
  proof (induction m w va stop rule: verify_loop.induct)
    case (1 m w va stop)
    then show ?case
      by (simp add: verify_loop.simps [of m' w va] verify_loop.simps [of m w va] region_at_cong [of m' m] split: option.split)
  qed
  then show ?thesis by (simp add: ua_check_def verify_def)
qed

lemma can_copy_cong:
  "um_regions m' = um_regions m \<Longrightarrow> um_fault m' = um_fault m \<Longrightarrow> can_copy m' addr len w = can_copy m addr len w"
  by (simp add: can_copy_def pages_in_def ua_check_cong [of m' m])
lemma can_copy_part:
  assumes "can_copy m addr len w" "addr \<le> a" "a + n \<le> addr + len"
  shows "can_copy m a n w"
proof (cases "n = 0")
  case False
  have v: "verify m addr len w" "USER_START \<le> addr" "addr + len \<le> USER_END"
    using assms False ua_check_range [of m addr len w] by (auto simp: can_copy_def)
  have "verify_loop m w (align_down a PAGE_SIZE) (a + n)"
    using v(1) align_down_mono [OF assms(2)] assms(3) by (auto simp: verify_def verify_loop_iff split: if_splits)
  then show ?thesis using v assms False by (auto simp: can_copy_def ua_check_def verify_def pages_in_def)
qed (auto simp: can_copy_def ua_check_def pages_in_def)

end
