(* ===== verification/Signal.thy ===== *)
theory Signal
  imports User_Memory Perm
begin

unbundle bit_operations_syntax

text \<open>
  Signals: numbers, dispositions and handler frames of \<^verbatim>\<open>kernel/src/proc/signal.rs\<close>, the per-task masks of
  \<^verbatim>\<open>kernel/src/sched/mod.rs\<close>, posting and delivery of \<^verbatim>\<open>kernel/src/proc/mod.rs\<close> and the system calls of
  \<^verbatim>\<open>kernel/src/syscall/proc_sys.rs\<close>. A process is seen from one of its tasks, the current one; the others are its siblings.
  The result \<open>None\<close> is an arithmetic overflow, which traps. The wake-up of a task and of pollers is the scheduler's and left
  out; the state of the floating-point unit is the 512 bytes \<^verbatim>\<open>fxsave\<close> stores.
\<close>

section \<open>Signal numbers\<close>

abbreviation SIGKILL :: nat where "SIGKILL \<equiv> 9"
abbreviation SIGSEGV :: nat where "SIGSEGV \<equiv> 11"
abbreviation SIGCHLD :: nat where "SIGCHLD \<equiv> 17"
abbreviation SIGCONT :: nat where "SIGCONT \<equiv> 18"
abbreviation SIGSTOP :: nat where "SIGSTOP \<equiv> 19"
abbreviation SIGTSTP :: nat where "SIGTSTP \<equiv> 20"
abbreviation SIGTTIN :: nat where "SIGTTIN \<equiv> 21"
abbreviation SIGTTOU :: nat where "SIGTTOU \<equiv> 22"
abbreviation SIGURG :: nat where "SIGURG \<equiv> 23"
abbreviation SIGWINCH :: nat where "SIGWINCH \<equiv> 28"

definition sig_bit :: "nat \<Rightarrow> u64" where
  "sig_bit sig = push_bit (sig - 1) 1"

definition stops_by_default :: "nat \<Rightarrow> bool" where
  "stops_by_default sig \<longleftrightarrow> sig = SIGSTOP \<or> sig = SIGTSTP \<or> sig = SIGTTIN \<or> sig = SIGTTOU"

definition ignored_by_default :: "nat \<Rightarrow> bool" where
  "ignored_by_default sig \<longleftrightarrow> sig = SIGCHLD \<or> sig = SIGWINCH \<or> sig = SIGURG \<or> sig = SIGCONT"

definition terminates_by_default :: "nat \<Rightarrow> bool" where
  "terminates_by_default sig \<longleftrightarrow> sig \<noteq> 0 \<and> \<not> ignored_by_default sig \<and> \<not> stops_by_default sig"

section \<open>Dispositions and register images\<close>

abbreviation SIG_DFL :: u64 where "SIG_DFL \<equiv> 0"
abbreviation SIG_IGN :: u64 where "SIG_IGN \<equiv> 1"
abbreviation SA_SIGINFO :: u64 where "SA_SIGINFO \<equiv> 0x00000004"
abbreviation SA_ONSTACK :: u64 where "SA_ONSTACK \<equiv> 0x08000000"
abbreviation SA_NODEFER :: u64 where "SA_NODEFER \<equiv> 0x40000000"
abbreviation SA_RESETHAND :: u64 where "SA_RESETHAND \<equiv> 0x80000000"

record sig_action =
  sa_handler :: u64
  sa_flags :: u64
  sa_restorer :: u64
  sa_mask :: u64

definition DFL :: sig_action where
  "DFL = \<lparr>sa_handler = SIG_DFL, sa_flags = 0, sa_restorer = 0, sa_mask = 0\<rparr>"

definition default_table :: "sig_action list" where
  "default_table = replicate 65 DFL"

record regs =
  r_r8 :: u64
  r_r9 :: u64
  r_r10 :: u64
  r_r11 :: u64
  r_r12 :: u64
  r_r13 :: u64
  r_r14 :: u64
  r_r15 :: u64
  r_rdi :: u64
  r_rsi :: u64
  r_rbp :: u64
  r_rbx :: u64
  r_rdx :: u64
  r_rax :: u64
  r_rcx :: u64
  r_rsp :: u64
  r_rip :: u64
  r_rflags :: u64

text \<open>The frame of a system call (\<^verbatim>\<open>arch/x86_64/syscall.rs\<close>), without the registers the instruction overwrites.\<close>

record user_frame =
  uf_rbx :: u64
  uf_rbp :: u64
  uf_r12 :: u64
  uf_r13 :: u64
  uf_r14 :: u64
  uf_r15 :: u64
  uf_rdi :: u64
  uf_rsi :: u64
  uf_rdx :: u64
  uf_r10 :: u64
  uf_r8 :: u64
  uf_r9 :: u64
  uf_rax :: u64
  uf_rip :: u64
  uf_rflags :: u64
  uf_rsp :: u64

definition from_user :: "user_frame \<Rightarrow> regs" where
  "from_user f =
     \<lparr>r_r8 = uf_r8 f, r_r9 = uf_r9 f, r_r10 = uf_r10 f, r_r11 = uf_rflags f,
      r_r12 = uf_r12 f, r_r13 = uf_r13 f, r_r14 = uf_r14 f, r_r15 = uf_r15 f,
      r_rdi = uf_rdi f, r_rsi = uf_rsi f, r_rbp = uf_rbp f, r_rbx = uf_rbx f,
      r_rdx = uf_rdx f, r_rax = uf_rax f, r_rcx = uf_rip f, r_rsp = uf_rsp f,
      r_rip = uf_rip f, r_rflags = uf_rflags f\<rparr>"

definition store_user :: "regs \<Rightarrow> user_frame \<Rightarrow> user_frame" where
  "store_user r f =
     f\<lparr>uf_r8 := r_r8 r, uf_r9 := r_r9 r, uf_r10 := r_r10 r,
       uf_r12 := r_r12 r, uf_r13 := r_r13 r, uf_r14 := r_r14 r, uf_r15 := r_r15 r,
       uf_rdi := r_rdi r, uf_rsi := r_rsi r, uf_rbp := r_rbp r, uf_rbx := r_rbx r,
       uf_rdx := r_rdx r, uf_rax := r_rax r, uf_rsp := r_rsp r,
       uf_rip := r_rip r, uf_rflags := r_rflags r\<rparr>"

text \<open>The frame of an interrupt (\<^verbatim>\<open>arch/x86_64/trap.rs\<close>).\<close>

record trap_frame =
  tf_r15 :: u64
  tf_r14 :: u64
  tf_r13 :: u64
  tf_r12 :: u64
  tf_r11 :: u64
  tf_r10 :: u64
  tf_r9 :: u64
  tf_r8 :: u64
  tf_rbp :: u64
  tf_rdi :: u64
  tf_rsi :: u64
  tf_rdx :: u64
  tf_rcx :: u64
  tf_rbx :: u64
  tf_rax :: u64
  tf_vector :: u64
  tf_error :: u64
  tf_rip :: u64
  tf_cs :: u64
  tf_rflags :: u64
  tf_rsp :: u64
  tf_ss :: u64

definition from_trap :: "trap_frame \<Rightarrow> regs" where
  "from_trap f =
     \<lparr>r_r8 = tf_r8 f, r_r9 = tf_r9 f, r_r10 = tf_r10 f, r_r11 = tf_r11 f,
      r_r12 = tf_r12 f, r_r13 = tf_r13 f, r_r14 = tf_r14 f, r_r15 = tf_r15 f,
      r_rdi = tf_rdi f, r_rsi = tf_rsi f, r_rbp = tf_rbp f, r_rbx = tf_rbx f,
      r_rdx = tf_rdx f, r_rax = tf_rax f, r_rcx = tf_rcx f, r_rsp = tf_rsp f,
      r_rip = tf_rip f, r_rflags = tf_rflags f\<rparr>"

definition store_trap :: "regs \<Rightarrow> trap_frame \<Rightarrow> trap_frame" where
  "store_trap r f =
     f\<lparr>tf_r8 := r_r8 r, tf_r9 := r_r9 r, tf_r10 := r_r10 r, tf_r11 := r_r11 r,
       tf_r12 := r_r12 r, tf_r13 := r_r13 r, tf_r14 := r_r14 r, tf_r15 := r_r15 r,
       tf_rdi := r_rdi r, tf_rsi := r_rsi r, tf_rbp := r_rbp r, tf_rbx := r_rbx r,
       tf_rdx := r_rdx r, tf_rax := r_rax r, tf_rcx := r_rcx r, tf_rsp := r_rsp r,
       tf_rip := r_rip r, tf_rflags := r_rflags r\<rparr>"

section \<open>The frame on the user stack\<close>

abbreviation UC_SIZE :: nat where "UC_SIZE \<equiv> 512"
abbreviation UC_MCTX :: nat where "UC_MCTX \<equiv> 40"
abbreviation UC_FPSTATE :: nat where "UC_FPSTATE \<equiv> 40 + 184"
abbreviation UC_SIGMASK :: nat where "UC_SIGMASK \<equiv> 40 + 256"
abbreviation SIGINFO_SIZE :: nat where "SIGINFO_SIZE \<equiv> 128"
abbreviation FXSAVE_SIZE :: nat where "FXSAVE_SIZE \<equiv> 512"

text \<open>\<^verbatim>\<open>buf[off..off + n].copy_from_slice(bs)\<close>, for a range inside the buffer.\<close>

definition put_slice :: "u8 list \<Rightarrow> nat \<Rightarrow> u8 list \<Rightarrow> u8 list" where
  "put_slice buf off bs = take off buf @ bs @ drop (off + length bs) buf"

definition put_u64 :: "nat \<Rightarrow> u64 \<Rightarrow> u8 list \<Rightarrow> u8 list" where
  "put_u64 off v buf = put_slice buf off (to_le 8 v)"

definition get_u64 :: "u8 list \<Rightarrow> nat \<Rightarrow> u64" where
  "get_u64 buf off = of_le (take 8 (drop off buf))"

definition write_mcontext :: "u8 list \<Rightarrow> regs \<Rightarrow> u8 list" where
  "write_mcontext buf r =
     fold (\<lambda>(off, v). put_u64 (UC_MCTX + off) v)
       [(0, r_r8 r), (8, r_r9 r), (16, r_r10 r), (24, r_r11 r), (32, r_r12 r), (40, r_r13 r), (48, r_r14 r), (56, r_r15 r),
        (64, r_rdi r), (72, r_rsi r), (80, r_rbp r), (88, r_rbx r), (96, r_rdx r), (104, r_rax r), (112, r_rcx r),
        (120, r_rsp r), (128, r_rip r), (136, r_rflags r)] buf"

definition read_mcontext :: "umem \<Rightarrow> nat \<Rightarrow> regs KResult" where
  "read_mcontext m uc =
     kbind (copy_from m uc UC_SIZE) (\<lambda>b. let get = (\<lambda>off. get_u64 b (UC_MCTX + off)) in Inr
       \<lparr>r_r8 = get 0, r_r9 = get 8, r_r10 = get 16, r_r11 = get 24, r_r12 = get 32, r_r13 = get 40, r_r14 = get 48,
        r_r15 = get 56, r_rdi = get 64, r_rsi = get 72, r_rbp = get 80, r_rbx = get 88, r_rdx = get 96, r_rax = get 104,
        r_rcx = get 112, r_rsp = get 120, r_rip = get 128, r_rflags = get 136\<rparr>)"

definition read_sigmask :: "umem \<Rightarrow> nat \<Rightarrow> u64 KResult" where
  "read_sigmask m uc = kbind (copy_from m (uc + UC_SIGMASK) 8) (\<lambda>b. Inr (of_le b))"

record task =
  tk_signals :: u64
  tk_blocked :: u64
  tk_stopped :: bool
  tk_sas_sp :: u64
  tk_sas_size :: u64
  tk_fpu :: "u8 list"

text \<open>Additions and subtractions of the source that trap on overflow.\<close>

definition add_checked :: "u64 \<Rightarrow> u64 \<Rightarrow> u64 option" where
  "add_checked a b = (if unat a + unat b < 2 ^ 64 then Some (a + b) else None)"

definition sub_checked :: "nat \<Rightarrow> nat \<Rightarrow> nat option" where
  "sub_checked a b = (if b \<le> a then Some (a - b) else None)"

text \<open>The stack pointer the frame is laid out below.\<close>

definition frame_base :: "task \<Rightarrow> regs \<Rightarrow> sig_action \<Rightarrow> nat option" where
  "frame_base t r act =
     (let sp = tk_sas_sp t; sz = tk_sas_size t in
      Option.bind
        (if sz \<noteq> 0 \<and> sp \<le> r_rsp r
         then map_option (\<lambda>top. r_rsp r < top) (add_checked sp sz) else Some False)
        (\<lambda>on_altstack.
          if sa_flags act AND SA_ONSTACK \<noteq> 0 \<and> sz \<noteq> 0 \<and> \<not> on_altstack
          then map_option unat (add_checked sp sz) else Some (unat (r_rsp r))))"

definition copy_then :: "unit KResult \<times> umem \<Rightarrow> (umem \<Rightarrow> 'a KResult \<times> umem) \<Rightarrow> 'a KResult \<times> umem" where
  "copy_then c k = (case c of (Inl e, m) \<Rightarrow> (Inl e, m) | (Inr _, m) \<Rightarrow> k m)"

definition handler_regs :: "regs \<Rightarrow> nat \<Rightarrow> sig_action \<Rightarrow> nat \<Rightarrow> nat \<Rightarrow> nat \<Rightarrow> regs" where
  "handler_regs r sig act frame info uc =
     (let siginfo = sa_flags act AND SA_SIGINFO \<noteq> 0 in
      r\<lparr>r_rip := sa_handler act, r_rsp := of_nat frame, r_rdi := of_nat sig,
        r_rsi := (if siginfo then of_nat info else 0), r_rdx := (if siginfo then of_nat uc else 0),
        r_rax := 0, r_rflags := r_rflags r AND NOT 0x400\<rparr>)"

definition setup_frame :: "task \<Rightarrow> umem \<Rightarrow> regs \<Rightarrow> nat \<Rightarrow> sig_action \<Rightarrow> u64 \<Rightarrow> (regs KResult \<times> umem) option" where
  "setup_frame t m r sig act old_mask =
     Option.bind (frame_base t r act) (\<lambda>base.
       if base < 128 then Some (Inl EFAULT, m)
       else let sp = align_down (base - 128) 16 in
         Option.bind (sub_checked sp SIGINFO_SIZE) (\<lambda>info.
         Option.bind (sub_checked info FXSAVE_SIZE) (\<lambda>fpstate.
         Option.bind (sub_checked fpstate UC_SIZE) (\<lambda>uc.
         Option.bind (sub_checked uc 8) (\<lambda>frame.
           let si = put_slice (replicate SIGINFO_SIZE 0) 0 (to_le 4 (of_nat sig :: u32));
               ucb = put_u64 UC_SIGMASK old_mask (put_u64 UC_FPSTATE (of_nat fpstate) (write_mcontext (replicate UC_SIZE 0) r))
           in Some
             (copy_then (copy_to m info si) (\<lambda>m1.
              copy_then (copy_to m1 fpstate (tk_fpu t)) (\<lambda>m2.
              copy_then (copy_to m2 uc ucb) (\<lambda>m3.
              copy_then (copy_to m3 frame (to_le 8 (sa_restorer act))) (\<lambda>m4.
                (Inr (handler_regs r sig act frame info uc), m4)))))))))))"

text \<open>What \<^verbatim>\<open>rt_sigreturn\<close> takes back: registers, blocked mask and floating-point state.\<close>

definition restore_frame :: "task \<Rightarrow> umem \<Rightarrow> regs \<Rightarrow> (regs \<times> u64 \<times> u8 list) KResult" where
  "restore_frame t m r =
     (let uc = unat (r_rsp r) in
      kbind (read_mcontext m uc) (\<lambda>saved.
      kbind (read_sigmask m uc) (\<lambda>mask.
      kbind (copy_from m (uc + UC_FPSTATE) 8) (\<lambda>fpptr.
        let fpstate = unat (of_le fpptr :: u64) in
        if fpstate \<noteq> 0
        then kbind (copy_from m fpstate FXSAVE_SIZE) (\<lambda>fx. Inr (saved, mask, fx))
        else Inr (saved, mask, tk_fpu t)))))"

section \<open>Masks of a task\<close>

definition kill_bit :: u64 where
  "kill_bit = sig_bit SIGKILL"

definition stop_mask :: u64 where
  "stop_mask = sig_bit SIGSTOP OR sig_bit SIGTSTP OR sig_bit SIGTTIN OR sig_bit SIGTTOU"

definition send_signal :: "nat \<Rightarrow> task \<Rightarrow> task" where
  "send_signal sig t =
     (if sig = 0 \<or> 64 < sig then t
      else let t' = t\<lparr>tk_signals := tk_signals t OR sig_bit sig\<rparr>
           in if sig = SIGCONT \<or> sig = SIGKILL then t'\<lparr>tk_stopped := False\<rparr> else t')"

definition set_blocked :: "u64 \<Rightarrow> task \<Rightarrow> task" where
  "set_blocked msk t = t\<lparr>tk_blocked := msk AND NOT (sig_bit SIGKILL OR sig_bit SIGSTOP)\<rparr>"

definition clear_signals :: "task \<Rightarrow> task" where
  "clear_signals t = t\<lparr>tk_signals := tk_signals t AND kill_bit\<rparr>"

definition clear_signal :: "nat \<Rightarrow> task \<Rightarrow> task" where
  "clear_signal sig t =
     (if 1 \<le> sig \<and> sig \<le> 64 \<and> sig \<noteq> SIGKILL then t\<lparr>tk_signals := tk_signals t AND NOT (sig_bit sig)\<rparr> else t)"

definition clear_stop_signals :: "task \<Rightarrow> task" where
  "clear_stop_signals t = t\<lparr>tk_signals := tk_signals t AND NOT stop_mask\<rparr>"

definition kill_pending :: "task \<Rightarrow> bool" where
  "kill_pending t \<longleftrightarrow> tk_signals t AND kill_bit \<noteq> 0"

definition deliverable_signal_pending :: "task \<Rightarrow> bool" where
  "deliverable_signal_pending t \<longleftrightarrow> tk_signals t AND NOT (tk_blocked t AND NOT (sig_bit SIGKILL)) \<noteq> 0"

text \<open>\<^verbatim>\<open>stop_current\<close>: whether the task stays stopped, and the task.\<close>

definition stop_current :: "task \<Rightarrow> bool \<times> task" where
  "stop_current t = (if kill_pending t then (False, t\<lparr>tk_stopped := False\<rparr>) else (True, t\<lparr>tk_stopped := True\<rparr>))"

section \<open>Posting\<close>

record sproc =
  sp_cur :: task
  sp_siblings :: "task list"
  sp_actions :: "sig_action list"
  sp_ignored :: u64
  sp_mem :: umem

definition sig_ignored :: "sproc \<Rightarrow> nat \<Rightarrow> bool" where
  "sig_ignored p sig =
     (if sig = SIGKILL \<or> sig = SIGSTOP \<or> sig = SIGCONT then False
      else let act = sp_actions p ! sig;
               disp_ignored = (sa_handler act = SIG_IGN \<or> (sa_handler act = SIG_DFL \<and> ignored_by_default sig));
               masked = (sp_ignored p AND sig_bit sig \<noteq> 0)
           in disp_ignored \<or> masked)"

definition deliver_to_task :: "nat \<Rightarrow> bool \<Rightarrow> task \<Rightarrow> task" where
  "deliver_to_task sig ignored t =
     (let blocked = (tk_blocked t AND sig_bit sig \<noteq> 0)
      in if ignored \<and> \<not> blocked then t else send_signal sig t)"

definition proc_signal :: "nat \<Rightarrow> sproc \<Rightarrow> sproc" where
  "proc_signal sig p =
     (if \<not> (1 \<le> sig \<and> sig \<le> 64) then p
      else let ignored = sig_ignored p sig
           in p\<lparr>sp_cur := deliver_to_task sig ignored (sp_cur p),
                sp_siblings := map (deliver_to_task sig ignored) (sp_siblings p)\<rparr>)"

text \<open>\<^verbatim>\<open>signal_task\<close> on the current task (\<open>None\<close>) or on a sibling.\<close>

definition signal_task :: "nat option \<Rightarrow> nat \<Rightarrow> sproc \<Rightarrow> sproc" where
  "signal_task which sig p =
     (if \<not> (1 \<le> sig \<and> sig \<le> 64) then p
      else case which of
        None \<Rightarrow> p\<lparr>sp_cur := deliver_to_task sig (sig_ignored p sig) (sp_cur p)\<rparr>
      | Some i \<Rightarrow> p\<lparr>sp_siblings := (sp_siblings p)[i := deliver_to_task sig (sig_ignored p sig) (sp_siblings p ! i)]\<rparr>)"

section \<open>Delivery\<close>

definition trailing_zeros :: "u64 \<Rightarrow> nat" where
  "trailing_zeros w = length (takeWhile (\<lambda>i. \<not> bit w i) [0..<64])"

datatype boundary = Resume regs | Exits nat | Stops

definition deliverable :: "sproc \<Rightarrow> u64" where
  "deliverable p = tk_signals (sp_cur p) AND NOT (tk_blocked (sp_cur p))"

definition enter_handler :: "sproc \<Rightarrow> regs \<Rightarrow> nat \<Rightarrow> sig_action \<Rightarrow> u64 \<Rightarrow> (boundary \<times> sproc) option" where
  "enter_handler p r sig act blocked =
     map_option (\<lambda>(res, m).
       case res of
         Inl _ \<Rightarrow> (Exits SIGSEGV, p\<lparr>sp_mem := m\<rparr>)
       | Inr new \<Rightarrow>
           let newmask = blocked OR sa_mask act;
               newmask' = (if sa_flags act AND SA_NODEFER = 0 then newmask OR sig_bit sig else newmask);
               p' = p\<lparr>sp_mem := m, sp_cur := set_blocked newmask' (sp_cur p)\<rparr>
           in (Resume new, if sa_flags act AND SA_RESETHAND \<noteq> 0 then p'\<lparr>sp_actions := (sp_actions p)[sig := DFL]\<rparr> else p'))
       (setup_frame (sp_cur p) (sp_mem p) r sig act blocked)"

lemma trailing_zeros_bit:
  assumes "w \<noteq> 0"
  shows "trailing_zeros w < 64" "bit w (trailing_zeros w)" "i < trailing_zeros w \<Longrightarrow> \<not> bit w i"
proof -
  obtain k where k: "bit w k" using assms by (metis bit_eqI bit_0_eq bot_apply bot_bool_def)
  then have k64: "k < 64" using bit_imp_le_length [of w k] by simp
  show less: "trailing_zeros w < 64"
  proof (rule ccontr)
    assume "\<not> trailing_zeros w < 64"
    then have "length (takeWhile (\<lambda>i. \<not> bit w i) [0..<64]) = length [0..<64]"
      using length_takeWhile_le [of "\<lambda>i. \<not> bit w i" "[0..<64]"] by (simp add: trailing_zeros_def)
    then have "takeWhile (\<lambda>i. \<not> bit w i) [0..<64] = [0..<64]"
      by (metis takeWhile_eq_take take_all_iff order_refl)
    then have "\<forall>i\<in>set [0..<64]. \<not> bit w i" by (simp only: takeWhile_eq_all_conv)
    then show False using k k64 by auto
  qed
  show "bit w (trailing_zeros w)"
    using nth_length_takeWhile [of "\<lambda>i. \<not> bit w i" "[0..<64]"] less by (simp add: trailing_zeros_def)
  show "i < trailing_zeros w \<Longrightarrow> \<not> bit w i"
    using less set_takeWhileD nth_mem [of i "takeWhile (\<lambda>i. \<not> bit w i) [0..<64]"]
      takeWhile_nth [of i "\<lambda>i. \<not> bit w i" "[0..<64]"] by (fastforce simp: trailing_zeros_def)
qed

lemma bit_sig_bit [simp]: "bit (sig_bit sig) i \<longleftrightarrow> i = sig - 1 \<and> i < 64"
  by (auto simp: sig_bit_def bit_simps)

lemma and_sig_bit: "1 \<le> sig \<Longrightarrow> sig \<le> 64 \<Longrightarrow> w AND sig_bit sig \<noteq> 0 \<longleftrightarrow> bit w (sig - 1)"
proof -
  assume s: "1 \<le> sig" "sig \<le> 64"
  have "w AND sig_bit sig = 0 \<longleftrightarrow> (\<forall>i<64. \<not> bit (w AND sig_bit sig) i)"
    by (auto simp: bit_eq_iff bit_imp_le_length)
  then show ?thesis using s by (auto simp: bit_simps)
qed

lemma clear_bit_less:
  assumes "bit (w :: u64) (sig - 1)"
  shows "unat (w AND NOT (sig_bit sig)) < unat w"
proof -
  have "w AND NOT (sig_bit sig) \<le> w" by (rule word_and_le2)
  moreover have "w AND NOT (sig_bit sig) \<noteq> w"
    using assms bit_imp_le_length [of w "sig - 1"] by (auto simp: bit_eq_iff bit_simps dest!: spec [of _ "sig - 1"])
  ultimately have "w AND NOT (sig_bit sig) < w" by (rule order_le_neq_trans)
  then show ?thesis by (rule word_less_nat_alt [THEN iffD1])
qed

function deliver_user_signals :: "sproc \<Rightarrow> regs \<Rightarrow> (boundary \<times> sproc) option" where
  "deliver_user_signals p r =
     (if deliverable p = 0 then Some (Resume r, p)
      else let sig = trailing_zeros (deliverable p) + 1 in
        if sig = SIGKILL then Some (Exits SIGKILL, p)
        else let p1 = p\<lparr>sp_cur := clear_signal sig (sp_cur p)\<rparr>;
                 act = sp_actions p ! sig;
                 blocked = tk_blocked (sp_cur p)
          in if sa_handler act = SIG_IGN then deliver_user_signals p1 r
             else if sa_handler act = SIG_DFL then
               (if stops_by_default sig then
                  (case stop_current (sp_cur p1) of
                     (True, t) \<Rightarrow> Some (Stops, p1\<lparr>sp_cur := t\<rparr>)
                   | (False, t) \<Rightarrow> deliver_user_signals (p1\<lparr>sp_cur := t\<rparr>) r)
                else if ignored_by_default sig then deliver_user_signals p1 r
                else if terminates_by_default sig then Some (Exits sig, p1)
                else deliver_user_signals p1 r)
             else if sa_restorer act = 0 then
               (if terminates_by_default sig then Some (Exits sig, p1) else deliver_user_signals p1 r)
             else enter_handler p1 r sig act blocked)"
  by pat_completeness auto
lemma clear_signal_decreases:
  assumes "deliverable p \<noteq> 0" "trailing_zeros (deliverable p) + 1 \<noteq> SIGKILL"
  shows "unat (tk_signals (clear_signal (trailing_zeros (deliverable p) + 1) (sp_cur p))) < unat (tk_signals (sp_cur p))"
proof -
  have "bit (tk_signals (sp_cur p)) (trailing_zeros (deliverable p))" "trailing_zeros (deliverable p) < 64"
    using trailing_zeros_bit [OF assms(1)] by (simp_all add: deliverable_def bit_simps)
  then show ?thesis using clear_bit_less [of "tk_signals (sp_cur p)" "trailing_zeros (deliverable p) + 1"] assms(2)
    by (simp add: clear_signal_def)
qed

lemma stop_current_signals: "stop_current t = (b, t') \<Longrightarrow> tk_signals t' = tk_signals t"
  by (auto simp: stop_current_def split: if_splits)

termination deliver_user_signals
  by (relation "measure (\<lambda>(p, r). unat (tk_signals (sp_cur p)))")
    (auto dest!: stop_current_signals [OF sym] intro!: clear_signal_decreases [simplified])

declare deliver_user_signals.simps [simp del]

section \<open>System calls\<close>

text \<open>The end of a system call on its way back to user mode (\<^verbatim>\<open>syscall::dispatch\<close>).\<close>

definition syscall_exit :: "sproc \<Rightarrow> user_frame \<Rightarrow> ((user_frame + nat) option \<times> sproc) option" where
  "syscall_exit p f =
     map_option (\<lambda>(b, p').
       (case b of Resume r \<Rightarrow> Some (Inl (store_user r f)) | Exits s \<Rightarrow> Some (Inr s) | Stops \<Rightarrow> None, p'))
       (deliver_user_signals p (from_user f))"

definition rt_sigreturn :: "sproc \<Rightarrow> user_frame \<Rightarrow> (boundary \<times> sproc) option" where
  "rt_sigreturn p f =
     (case restore_frame (sp_cur p) (sp_mem p) (from_user f) of
        Inl _ \<Rightarrow> Some (Exits SIGSEGV, p)
      | Inr (r, msk, fx) \<Rightarrow> deliver_user_signals (p\<lparr>sp_cur := set_blocked msk (sp_cur p\<lparr>tk_fpu := fx\<rparr>)\<rparr>) r)"

definition write_u64s :: "umem \<Rightarrow> nat \<Rightarrow> u64 list \<Rightarrow> unit KResult \<times> umem" where
  "write_u64s m addr vs =
     fold (\<lambda>(i, v) c. copy_then c (\<lambda>m'. copy_to m' (addr + 8 * i) (to_le 8 v))) (enumerate 0 vs) (Inr (), m)"

definition read_u64 :: "umem \<Rightarrow> nat \<Rightarrow> u64 KResult" where
  "read_u64 m addr = kbind (copy_from m addr 8) (\<lambda>b. Inr (of_le b))"

definition read_action :: "umem \<Rightarrow> nat \<Rightarrow> sig_action KResult" where
  "read_action m act =
     kbind (read_u64 m act) (\<lambda>h. kbind (read_u64 m (act + 8)) (\<lambda>f.
     kbind (read_u64 m (act + 16)) (\<lambda>r. kbind (read_u64 m (act + 24)) (\<lambda>k.
       Inr \<lparr>sa_handler = h, sa_flags = f, sa_restorer = r, sa_mask = k\<rparr>))))"

definition rt_sigaction :: "sproc \<Rightarrow> nat \<Rightarrow> nat \<Rightarrow> nat \<Rightarrow> unit KResult \<times> sproc" where
  "rt_sigaction p sig act oact =
     (if sig < 1 \<or> 64 < sig then (Inl EINVAL, p)
      else let prev = sp_actions p ! sig;
               (w, m) = (if oact \<noteq> 0
                         then write_u64s (sp_mem p) oact [sa_handler prev, sa_flags prev, sa_restorer prev, sa_mask prev]
                         else (Inr (), sp_mem p));
               p1 = p\<lparr>sp_mem := m\<rparr>
        in case w of
             Inl e \<Rightarrow> (Inl e, p1)
           | Inr _ \<Rightarrow>
               if act = 0 then (Inr (), p1)
               else if sig = SIGKILL \<or> sig = SIGSTOP then (Inl EINVAL, p1)
               else case read_action m act of
                 Inl e \<Rightarrow> (Inl e, p1)
               | Inr na \<Rightarrow>
                   let ignore = (sa_handler na = SIG_IGN \<or> (sa_handler na = SIG_DFL \<and> ignored_by_default sig))
                   in (Inr (), p1\<lparr>sp_actions := (sp_actions p)[sig := na],
                         sp_ignored := (if ignore then sp_ignored p OR sig_bit sig else sp_ignored p AND NOT (sig_bit sig))\<rparr>))"

definition rt_sigprocmask :: "sproc \<Rightarrow> int \<Rightarrow> nat \<Rightarrow> nat \<Rightarrow> unit KResult \<times> sproc" where
  "rt_sigprocmask p how newset oldset =
     (let old = tk_blocked (sp_cur p);
          (w, m) = (if oldset \<noteq> 0 then copy_to (sp_mem p) oldset (to_le 8 old) else (Inr (), sp_mem p));
          p1 = p\<lparr>sp_mem := m\<rparr>
      in case w of
           Inl e \<Rightarrow> (Inl e, p1)
         | Inr _ \<Rightarrow>
             if newset = 0 then (Inr (), p1)
             else case read_u64 m newset of
               Inl e \<Rightarrow> (Inl e, p1)
             | Inr k \<Rightarrow>
                 if how = 0 then (Inr (), p1\<lparr>sp_cur := set_blocked (old OR k) (sp_cur p)\<rparr>)
                 else if how = 1 then (Inr (), p1\<lparr>sp_cur := set_blocked (old AND NOT k) (sp_cur p)\<rparr>)
                 else if how = 2 then (Inr (), p1\<lparr>sp_cur := set_blocked k (sp_cur p)\<rparr>)
                 else (Inl EINVAL, p1))"

definition sigaltstack :: "sproc \<Rightarrow> nat \<Rightarrow> nat \<Rightarrow> unit KResult \<times> sproc" where
  "sigaltstack p new old =
     (let t = sp_cur p;
          flags = (if tk_sas_size t = 0 then 2 else 0 :: u32);
          (w, m) = (if old \<noteq> 0 then
                      copy_then (copy_to (sp_mem p) old (to_le 8 (tk_sas_sp t))) (\<lambda>m1.
                      copy_then (copy_to m1 (old + 8) (to_le 4 flags)) (\<lambda>m2.
                        copy_to m2 (old + 16) (to_le 8 (tk_sas_size t))))
                    else (Inr (), sp_mem p));
          p1 = p\<lparr>sp_mem := m\<rparr>
      in case w of
           Inl e \<Rightarrow> (Inl e, p1)
         | Inr _ \<Rightarrow>
             if new = 0 then (Inr (), p1)
             else case kbind (read_u64 m new) (\<lambda>sp. kbind (copy_from m (new + 8) 4) (\<lambda>f.
                         kbind (read_u64 m (new + 16)) (\<lambda>sz. Inr (sp, of_le f :: u32, sz)))) of
               Inl e \<Rightarrow> (Inl e, p1)
             | Inr (sp, f, sz) \<Rightarrow>
                 if f AND 2 \<noteq> 0 then (Inr (), p1\<lparr>sp_cur := t\<lparr>tk_sas_sp := 0, tk_sas_size := 0\<rparr>\<rparr>)
                 else if f AND NOT 1 \<noteq> 0 then (Inl EINVAL, p1)
                 else if sz < 2048 then (Inl ENOMEM, p1)
                 else (Inr (), p1\<lparr>sp_cur := t\<lparr>tk_sas_sp := sp, tk_sas_size := sz\<rparr>\<rparr>))"

text \<open>What \<^verbatim>\<open>execve\<close> does to the dispositions.\<close>

definition exec_dispositions :: "sproc \<Rightarrow> sproc" where
  "exec_dispositions p =
     p\<lparr>sp_actions := fold (\<lambda>sig t. if sp_ignored p AND sig_bit sig \<noteq> 0
                                   then t[sig := (t ! sig)\<lparr>sa_handler := SIG_IGN\<rparr>] else t) [1..<65] default_table\<rparr>"

section \<open>Sending to processes\<close>

record kproc =
  kp_pid :: u32
  kp_pgid :: u32
  kp_cred :: cred
  kp_zombie :: bool
  kp_proc :: sproc

text \<open>The process table: the kernel's own process (pid 0) and the others.\<close>

record ptable =
  pt_kernel :: kproc
  pt_procs :: "kproc list"

definition find_proc :: "ptable \<Rightarrow> u32 \<Rightarrow> kproc option" where
  "find_proc t pid = (if pid = 0 then Some (pt_kernel t) else find (\<lambda>k. kp_pid k = pid) (pt_procs t))"

definition may_signal :: "cred \<Rightarrow> kproc \<Rightarrow> bool" where
  "may_signal c k \<longleftrightarrow> is_root c \<or> cr_euid c = cr_uid (kp_cred k) \<or> cr_uid c = cr_uid (kp_cred k)"

definition send_to :: "nat \<Rightarrow> kproc \<Rightarrow> kproc" where
  "send_to sig k = (if sig \<noteq> 0 then k\<lparr>kp_proc := proc_signal sig (kp_proc k)\<rparr> else k)"

text \<open>The argument \<^verbatim>\<open>pid\<close> is an \<^verbatim>\<open>i64\<close>; negating the least one traps.\<close>

definition kill :: "ptable \<Rightarrow> kproc \<Rightarrow> int \<Rightarrow> nat \<Rightarrow> (unit KResult \<times> ptable) option" where
  "kill t sender pid sig =
     (if 64 < sig then Some (Inl EINVAL, t)
      else if pid = - (2 ^ 63) then None
      else let cred = kp_cred sender;
               targets = (if 0 < pid
                 then (case find_proc t (of_int pid) of
                         None \<Rightarrow> []
                       | Some k \<Rightarrow> if \<not> kp_zombie k \<or> sig = 0 then [k] else [])
                 else filter (\<lambda>k. kp_pgid k = (if pid = 0 then kp_pgid sender else of_int (- pid)) \<and> \<not> kp_zombie k) (pt_procs t));
               sent = filter (\<lambda>k. kp_pid k \<noteq> 0 \<and> may_signal cred k) targets
        in if targets = [] then Some (Inl ESRCH, t)
           else if sent = [] then Some (Inl EPERM, t)
           else Some (Inr (), t\<lparr>pt_procs := map (\<lambda>k. if kp_pid k \<in> kp_pid ` set sent then send_to sig k else k) (pt_procs t)\<rparr>))"

section \<open>The frame round trip\<close>

lemma length_put_slice [simp]: "off + length bs \<le> length buf \<Longrightarrow> length (put_slice buf off bs) = length buf"
  by (simp add: put_slice_def)

lemma length_put_u64 [simp]: "off + 8 \<le> length buf \<Longrightarrow> length (put_u64 off v buf) = length buf"
  by (simp add: put_u64_def)

lemma get_put_u64: "off + 8 \<le> length buf \<Longrightarrow> get_u64 (put_u64 off v buf) off = v"
  by (simp add: get_u64_def put_u64_def put_slice_def of_le_to_le_id)

lemma get_put_u64_other:
  assumes "off + 8 \<le> length buf" "i + 8 \<le> off \<or> off + 8 \<le> i"
  shows "get_u64 (put_u64 off v buf) i = get_u64 buf i"
proof -
  have "take 8 (drop i (put_u64 off v buf)) = take 8 (drop i buf)"
    using assms by (intro nth_equalityI) (auto simp: put_u64_def put_slice_def nth_append)
  then show ?thesis by (simp add: get_u64_def)
qed

lemma get_fold_put_u64_other:
  "\<forall>x\<in>set xs. base + fst x + 8 \<le> length buf \<and> (i + 8 \<le> base + fst x \<or> base + fst x + 8 \<le> i) \<Longrightarrow>
    get_u64 (fold (\<lambda>(off, v). put_u64 (base + off) v) xs buf) i = get_u64 buf i"
  by (induction xs arbitrary: buf) (auto simp: get_put_u64_other)

lemma get_fold_put_u64:
  "sorted_wrt (\<lambda>x y. fst x + 8 \<le> fst y) xs \<Longrightarrow> \<forall>x\<in>set xs. base + fst x + 8 \<le> length buf \<Longrightarrow> (off, v) \<in> set xs \<Longrightarrow>
    get_u64 (fold (\<lambda>(off, v). put_u64 (base + off) v) xs buf) (base + off) = v"
proof (induction xs arbitrary: buf)
  case (Cons x xs)
  obtain o' v' where x: "x = (o', v')" by force
  show ?case
  proof (cases "(off, v) = x")
    case True
    then have "get_u64 (fold (\<lambda>(off, v). put_u64 (base + off) v) xs (put_u64 (base + off) v buf)) (base + off)
        = get_u64 (put_u64 (base + off) v buf) (base + off)"
      using Cons.prems by (intro get_fold_put_u64_other) fastforce
    then show ?thesis using True Cons.prems by (simp add: get_put_u64 flip: True)
  next
    case False
    then show ?thesis using Cons x by auto
  qed
qed simp

lemma length_fold_put_u64:
  "\<forall>x\<in>set xs. base + fst x + 8 \<le> length buf \<Longrightarrow> length (fold (\<lambda>(off, v). put_u64 (base + off) v) xs buf) = length buf"
  by (induction xs arbitrary: buf) auto

definition mcontext_fields :: "regs \<Rightarrow> (nat \<times> u64) list" where
  "mcontext_fields r =
     [(0, r_r8 r), (8, r_r9 r), (16, r_r10 r), (24, r_r11 r), (32, r_r12 r), (40, r_r13 r), (48, r_r14 r), (56, r_r15 r),
      (64, r_rdi r), (72, r_rsi r), (80, r_rbp r), (88, r_rbx r), (96, r_rdx r), (104, r_rax r), (112, r_rcx r),
      (120, r_rsp r), (128, r_rip r), (136, r_rflags r)]"

lemma mcontext_fields_bounds: "x \<in> set (mcontext_fields r) \<Longrightarrow> fst x \<le> 136"
  by (auto simp: mcontext_fields_def)

lemma mcontext_fields_sorted: "sorted_wrt (\<lambda>x y. fst x + 8 \<le> fst y) (mcontext_fields r)"
  by (simp add: mcontext_fields_def)

lemma write_mcontext_fields: "write_mcontext buf r = fold (\<lambda>(off, v). put_u64 (UC_MCTX + off) v) (mcontext_fields r) buf"
  by (simp only: write_mcontext_def mcontext_fields_def)

definition frame_image :: "regs \<Rightarrow> nat \<Rightarrow> u64 \<Rightarrow> u8 list" where
  "frame_image r fpstate old_mask =
     put_u64 UC_SIGMASK old_mask (put_u64 UC_FPSTATE (of_nat fpstate) (write_mcontext (replicate UC_SIZE 0) r))"

lemma length_write_mcontext [simp]: "length (write_mcontext (replicate UC_SIZE 0) r) = UC_SIZE"
  by (subst write_mcontext_fields, subst length_fold_put_u64) (auto dest: mcontext_fields_bounds)

lemma length_frame_image [simp]: "length (frame_image r fp k) = UC_SIZE"
  by (simp add: frame_image_def)

lemma frame_image_mask: "get_u64 (frame_image r fp k) UC_SIGMASK = k"
  by (simp add: frame_image_def get_put_u64)

lemma frame_image_fp: "get_u64 (frame_image r fp k) UC_FPSTATE = of_nat fp"
  by (simp add: frame_image_def get_put_u64 get_put_u64_other)

lemma frame_image_reg:
  assumes "(off, v) \<in> set (mcontext_fields r)"
  shows "get_u64 (frame_image r fp k) (UC_MCTX + off) = v"
proof -
  have "get_u64 (frame_image r fp k) (UC_MCTX + off) = get_u64 (write_mcontext (replicate UC_SIZE 0) r) (UC_MCTX + off)"
    using mcontext_fields_bounds [OF assms] by (simp add: frame_image_def get_put_u64_other)
  also have "\<dots> = v" unfolding write_mcontext_fields
    by (rule get_fold_put_u64 [OF mcontext_fields_sorted _ assms]) (auto dest: mcontext_fields_bounds)
  finally show ?thesis .
qed

lemma read_mcontext_image:
  assumes "copy_from m uc UC_SIZE = Inr (frame_image r fp k)"
  shows "read_mcontext m uc = Inr r"
proof -
  have "list_all (\<lambda>(off, v). get_u64 (frame_image r fp k) (UC_MCTX + off) = v) (mcontext_fields r)"
    by (auto simp: list_all_iff frame_image_reg)
  then show ?thesis
    by (simp only: read_mcontext_def assms kbind_simps Let_def) (simp add: mcontext_fields_def)
qed

text \<open>Where the parts of a frame lie: above its lowest address the machine context, then the floating-point area.\<close>

lemma u64_bound: "unat (w :: u64) < 18446744073709551616"
  using unsigned_less [of w, where 'a = nat] by simp

lemma frame_base_bound: "frame_base t r act = Some base \<Longrightarrow> base < 2 ^ 64"
  by (auto simp: frame_base_def Let_def bind_eq_Some_conv u64_bound split: if_splits)

lemma copy_then_Inr:
  "copy_then c k = (Inr x, m') \<longleftrightarrow> (\<exists>m1. c = (Inr (), m1) \<and> k m1 = (Inr x, m'))"
  by (cases c; cases "fst c") (auto simp: copy_then_def)

lemma setup_frame_layout:
  assumes "setup_frame t m r sig act old_mask = Some (Inr r', m')"
  obtains base uc where "frame_base t r act = Some base" "uc + 1152 = align_down (base - 128) 16" "8 \<le> uc"
    "r' = handler_regs r sig act (uc - 8) (uc + 1024) uc"
    "m' = put_bytes (put_bytes (put_bytes (put_bytes m (uc + 1024) (put_slice (replicate SIGINFO_SIZE 0) 0 (to_le 4 (of_nat sig :: u32))))
            (uc + 512) (tk_fpu t)) uc (frame_image r (uc + 512) old_mask)) (uc - 8) (to_le 8 (sa_restorer act))"
    "USER_START \<le> uc - 8" "uc + 512 \<le> USER_END"
proof -
  obtain base where base: "frame_base t r act = Some base" "128 \<le> base"
    using assms by (auto simp: setup_frame_def bind_eq_Some_conv split: if_splits)
  define a where "a = align_down (base - 128) 16"
  have a: "1160 \<le> a"
    using assms base by (auto simp: setup_frame_def sub_checked_def Let_def a_def [symmetric] bind_eq_Some_conv split: if_splits)
  define uc where "uc = a - 1152"
  have d: "sub_checked a SIGINFO_SIZE = Some (uc + 1024)" "sub_checked (uc + 1024) FXSAVE_SIZE = Some (uc + 512)"
    "sub_checked (uc + 512) UC_SIZE = Some uc" "sub_checked uc 8 = Some (uc - 8)"
    using a by (simp_all add: uc_def sub_checked_def)
  define w where "w =
     (copy_then (copy_to m (uc + 1024) (put_slice (replicate SIGINFO_SIZE 0) 0 (to_le 4 (of_nat sig :: u32)))) (\<lambda>m1.
      copy_then (copy_to m1 (uc + 512) (tk_fpu t)) (\<lambda>m2.
      copy_then (copy_to m2 uc (frame_image r (uc + 512) old_mask)) (\<lambda>m3.
      copy_then (copy_to m3 (uc - 8) (to_le 8 (sa_restorer act))) (\<lambda>m4.
        (Inr (handler_regs r sig act (uc - 8) (uc + 1024) uc), m4))))))"
  have "setup_frame t m r sig act old_mask = Some w"
    using base by (simp add: setup_frame_def Let_def a_def [symmetric] d frame_image_def w_def del: of_nat_add)
  then have "w = (Inr r', m')" using assms by simp
  then obtain m1 m2 m3 where
    c: "copy_to m (uc + 1024) (put_slice (replicate SIGINFO_SIZE 0) 0 (to_le 4 (of_nat sig :: u32))) = (Inr (), m1)"
      "copy_to m1 (uc + 512) (tk_fpu t) = (Inr (), m2)" "copy_to m2 uc (frame_image r (uc + 512) old_mask) = (Inr (), m3)"
      "copy_to m3 (uc - 8) (to_le 8 (sa_restorer act)) = (Inr (), m')"
      and r': "r' = handler_regs r sig act (uc - 8) (uc + 1024) uc"
    by (auto simp: w_def copy_then_Inr)
  have "USER_START \<le> uc - 8" using copy_to_range(1) [OF c(4)] by (metis length_to_le list.size(3) zero_neq_numeral)
  moreover have "uc + 512 \<le> USER_END"
    using copy_to_range(2) [OF c(3)] length_frame_image [of r "uc + 512" old_mask] by fastforce
  ultimately show thesis using that [of base uc] base(1) a r' c [THEN copy_to_ok] by (simp add: a_def uc_def)
qed
lemma frame_contents:
  assumes "setup_frame t m r sig act old_mask = Some (Inr r', m')" "length (tk_fpu t) = 512"
  obtains uc where "r' = handler_regs r sig act (uc - 8) (uc + 1024) uc" "(uc - 8) mod 16 = 8" "8 \<le> uc"
    "USER_START \<le> uc - 8" "uc + 512 \<le> USER_END"
    "get_bytes m' (uc - 8) 8 = to_le 8 (sa_restorer act)"
    "get_bytes m' uc 512 = frame_image r (uc + 512) old_mask" "get_bytes m' (uc + 512) 512 = tk_fpu t"
proof (rule setup_frame_layout [OF assms(1)])
  fix base uc
  assume a: "uc + 1152 = align_down (base - SIGINFO_SIZE) 16" "8 \<le> uc" "r' = handler_regs r sig act (uc - 8) (uc + 1024) uc"
    "m' = put_bytes (put_bytes (put_bytes (put_bytes m (uc + 1024)
            (put_slice (replicate SIGINFO_SIZE 0) 0 (to_le 4 (of_nat sig :: u32)))) (uc + 512) (tk_fpu t)) uc
            (frame_image r (uc + 512) old_mask)) (uc - 8) (to_le 8 (sa_restorer act))"
    "USER_START \<le> uc - 8" "uc + 512 \<le> USER_END"
  have "(uc + 1152) mod 16 = 0" using a(1) align_down_mod(1) [of "base - SIGINFO_SIZE" 16] by simp
  then have "16 dvd uc + 16 * 72" by (simp add: mod_eq_0_iff_dvd)
  then obtain k where k: "uc = 16 * k" by (auto simp: dvd_add_left_iff)
  then obtain j where "k = Suc j" using a(2) by (cases k) auto
  then have "uc - 8 = 8 + 16 * j" using k by simp
  then have m: "(uc - 8) mod 16 = 8" by (simp only: mod_mult_self2) simp
  have g: "get_bytes m' (uc - 8) 8 = to_le 8 (sa_restorer act)"
    using get_put_bytes [of _ "uc - 8" "to_le 8 (sa_restorer act)"] by (simp add: a(4))
  have h: "get_bytes m' uc 512 = frame_image r (uc + 512) old_mask"
    using get_put_bytes [of _ uc "frame_image r (uc + 512) old_mask"] a(2) by (simp add: a(4) get_put_bytes_other)
  have i: "get_bytes m' (uc + 512) 512 = tk_fpu t"
    using get_put_bytes [of _ "uc + 512" "tk_fpu t"] a(2) assms(2) by (simp add: a(4) get_put_bytes_other)
  show thesis by (rule that [OF a(3) m a(2,5,6) g h i])
qed

lemma restore_frame_image:
  assumes "can_copy m uc 1024 False" "unat (r_rsp r2) = uc"
    "get_bytes m uc 512 = frame_image r (uc + 512) old_mask" "get_bytes m (uc + 512) 512 = fx"
  shows "restore_frame t m r2 = Inr (r, old_mask, fx)"
proof -
  have part: "copy_from m a n = Inr (get_bytes m a n)" if "uc \<le> a" "a + n \<le> uc + 1024" for a n
    using copy_from_can [OF can_copy_part [OF assms(1) that]] .
  have u: "uc + 512 < 2 ^ 64" "uc + 512 \<noteq> 0" "uc + 1024 \<le> USER_END"
    using ua_check_range(2) [of m uc 1024 False] assms(1) by (auto simp: can_copy_def)
  have sub: "of_le (get_bytes m (uc + off) 8) = get_u64 (frame_image r (uc + 512) old_mask) off" if "off + 8 \<le> 512" for off
    using get_bytes_part [of uc "uc + off" 8 512 m] that by (simp add: assms(3) get_u64_def)
  have "read_mcontext m uc = Inr r" using part [of uc 512] assms(3) by (intro read_mcontext_image) simp
  moreover have "read_sigmask m uc = Inr old_mask"
    using part [of "uc + 296" 8] sub [of 296] frame_image_mask [of r "uc + 512" old_mask] by (simp add: read_sigmask_def)
  moreover have "copy_from m (uc + 224) 8 = Inr (get_bytes m (uc + 224) 8)" using part [of "uc + 224" 8] by simp
  moreover have "unat (of_le (get_bytes m (uc + 224) 8) :: u64) = uc + 512"
    using sub [of 224] frame_image_fp [of r "uc + 512" old_mask] u(1) by (simp add: unat_of_nat_eq del: of_nat_add)
  moreover have "copy_from m (uc + 512) 512 = Inr fx" using part [of "uc + 512" 512] assms(4) by simp
  ultimately show ?thesis using u(2) by (simp add: restore_frame_def Let_def assms(2))
qed

end
