(* ===== verification/Signal_Delivery.thy ===== *)
theory Signal_Delivery
  imports Signal
begin

unbundle bit_operations_syntax

text \<open>
  What any sequence of signal calls, posted signals and returns to user mode does to a process: the masks that can not be changed,
  that a kill is never lost, and that a handler runs without a trace in the interrupted program.
\<close>

section \<open>What the calls of a process can change\<close>

definition caught :: "sproc \<Rightarrow> nat \<Rightarrow> bool" where
  "caught p sig \<longleftrightarrow> sa_handler (sp_actions p ! sig) \<noteq> SIG_IGN \<and> sa_handler (sp_actions p ! sig) \<noteq> SIG_DFL \<and>
     sa_restorer (sp_actions p ! sig) \<noteq> 0"

definition task_ok :: "task \<Rightarrow> bool" where
  "task_ok t \<longleftrightarrow> \<not> bit (tk_blocked t) (SIGKILL - 1) \<and> \<not> bit (tk_blocked t) (SIGSTOP - 1) \<and> length (tk_fpu t) = FXSAVE_SIZE"

definition sig_wf :: "sproc \<Rightarrow> bool" where
  "sig_wf p \<longleftrightarrow> task_ok (sp_cur p) \<and> list_all task_ok (sp_siblings p) \<and> length (sp_actions p) = 65 \<and>
     sp_actions p ! SIGKILL = DFL \<and> sp_actions p ! SIGSTOP = DFL \<and>
     \<not> bit (sp_ignored p) (SIGKILL - 1) \<and> \<not> bit (sp_ignored p) (SIGSTOP - 1)"

definition all_killed :: "sproc \<Rightarrow> bool" where
  "all_killed p \<longleftrightarrow> kill_pending (sp_cur p) \<and> list_all kill_pending (sp_siblings p)"

text \<open>
  What happens to a process between two looks at it: signals are posted, one of its tasks makes a signal call or passes the
  boundary to user mode, its program runs and changes memory and floating-point state, the kernel discards signals
  (\<^verbatim>\<open>absorb_signals\<close>, a stop inside \<^verbatim>\<open>sleep_ns\<close>), or the scheduler runs another task.
\<close>

inductive sig_step :: "sproc \<Rightarrow> sproc \<Rightarrow> bool" where
  Post: "sig_step p (proc_signal sig p)"
| Post_Task: "(\<And>i. which = Some i \<Longrightarrow> i < length (sp_siblings p)) \<Longrightarrow> sig_step p (signal_task which sig p)"
| Action: "rt_sigaction p sig act oact = (res, p') \<Longrightarrow> sig_step p p'"
| Procmask: "rt_sigprocmask p how newset oldset = (res, p') \<Longrightarrow> sig_step p p'"
| Altstack: "sigaltstack p new old = (res, p') \<Longrightarrow> sig_step p p'"
| Boundary: "deliver_user_signals p r = Some (b, p') \<Longrightarrow> sig_step p p'"
| Sigreturn: "rt_sigreturn p f = Some (b, p') \<Longrightarrow> sig_step p p'"
| Exec: "sig_step p (exec_dispositions p)"
| User: "length fx = FXSAVE_SIZE \<Longrightarrow> sig_step p (p\<lparr>sp_mem := m, sp_cur := sp_cur p\<lparr>tk_fpu := fx\<rparr>\<rparr>)"
| Absorb: "sig_step p (p\<lparr>sp_cur := clear_signals (sp_cur p)\<rparr>)"
| Stop_Sleep: "stop_current (clear_stop_signals (sp_cur p)) = (b, t) \<Longrightarrow> sig_step p (p\<lparr>sp_cur := t\<rparr>)"
| Switch: "i < length (sp_siblings p) \<Longrightarrow>
    sig_step p (p\<lparr>sp_cur := sp_siblings p ! i, sp_siblings := (sp_siblings p)[i := sp_cur p]\<rparr>)"

inductive sig_reach :: "sproc \<Rightarrow> bool" where
  Fresh: "length (tk_fpu t) = FXSAVE_SIZE \<Longrightarrow> tk_blocked t = 0 \<Longrightarrow>
    sig_reach \<lparr>sp_cur = t, sp_siblings = [], sp_actions = default_table, sp_ignored = 0, sp_mem = m\<rparr>"
| Step: "sig_reach p \<Longrightarrow> sig_step p p' \<Longrightarrow> sig_reach p'"

lemma kill_pending_bit: "kill_pending t \<longleftrightarrow> bit (tk_signals t) 8"
  using and_sig_bit [of SIGKILL "tk_signals t"] by (simp add: kill_pending_def kill_bit_def)

text \<open>How a step treats one task: its blocked mask stays sound and a pending kill stays pending.\<close>

definition task_kept :: "task \<Rightarrow> task \<Rightarrow> bool" where
  "task_kept t t' \<longleftrightarrow> (task_ok t \<longrightarrow> task_ok t') \<and> (kill_pending t \<longrightarrow> kill_pending t')"

lemma task_kept_refl [simp]: "task_kept t t"
  by (simp add: task_kept_def)

lemma task_kept_trans: "task_kept t t' \<Longrightarrow> task_kept t' t'' \<Longrightarrow> task_kept t t''"
  by (simp add: task_kept_def)

lemma task_kept_ops [simp]:
  "task_kept t (send_signal sig t)" "task_kept t (set_blocked k t)" "task_kept t (clear_signals t)"
  "task_kept t (clear_signal sig t)" "task_kept t (clear_stop_signals t)" "task_kept t (deliver_to_task sig ig t)"
  "task_kept t (t\<lparr>tk_sas_sp := a, tk_sas_size := b\<rparr>)" "length fx = FXSAVE_SIZE \<Longrightarrow> task_kept t (t\<lparr>tk_fpu := fx\<rparr>)"
  by (auto simp: task_kept_def task_ok_def kill_pending_bit send_signal_def set_blocked_def clear_signals_def clear_signal_def
      clear_stop_signals_def deliver_to_task_def Let_def kill_bit_def stop_mask_def bit_and_iff bit_or_iff bit_not_iff)

lemma task_kept_stop: "stop_current t = (b, t') \<Longrightarrow> task_kept t t'"
  by (auto simp: stop_current_def task_kept_def task_ok_def kill_pending_bit split: if_splits)

text \<open>How a step treats the disposition of a signal, and the process.\<close>

definition entry_kept :: "nat \<Rightarrow> sproc \<Rightarrow> sproc \<Rightarrow> bool" where
  "entry_kept s p p' \<longleftrightarrow> (sp_actions p' ! s = sp_actions p ! s \<or> sp_actions p' ! s = DFL) \<and>
     (bit (sp_ignored p') (s - 1) \<longrightarrow> bit (sp_ignored p) (s - 1))"

definition sproc_kept :: "sproc \<Rightarrow> sproc \<Rightarrow> bool" where
  "sproc_kept p p' \<longleftrightarrow> task_kept (sp_cur p) (sp_cur p') \<and> list_all2 task_kept (sp_siblings p) (sp_siblings p') \<and>
     length (sp_actions p') = length (sp_actions p) \<and> entry_kept SIGKILL p p' \<and> entry_kept SIGSTOP p p'"

lemma list_all2_kept_refl [simp]: "list_all2 task_kept ts ts"
  by (simp add: list_all2_same)

lemma list_all2_kept_trans:
  "list_all2 task_kept ts ts' \<Longrightarrow> list_all2 task_kept ts' ts'' \<Longrightarrow> list_all2 task_kept ts ts''"
  using list_all2_trans [of task_kept task_kept task_kept] task_kept_trans by blast

lemma entry_kept_trans: "entry_kept s p p' \<Longrightarrow> entry_kept s p' p'' \<Longrightarrow> entry_kept s p p''"
  unfolding entry_kept_def by metis

lemma sproc_kept_cur: "task_kept (sp_cur p) t \<Longrightarrow> sproc_kept p (p\<lparr>sp_cur := t\<rparr>)"
  by (simp add: sproc_kept_def entry_kept_def)

lemma sproc_kept_mem: "sproc_kept p (p\<lparr>sp_mem := m\<rparr>)"
  by (simp add: sproc_kept_def entry_kept_def)

lemma sproc_kept_refl [simp]: "sproc_kept p p"
  by (simp add: sproc_kept_def entry_kept_def)

lemma sproc_kept_trans: "sproc_kept p p' \<Longrightarrow> sproc_kept p' p'' \<Longrightarrow> sproc_kept p p''"
  unfolding sproc_kept_def
  by (elim conjE; intro conjI; (assumption | erule (1) task_kept_trans | erule (1) entry_kept_trans
      | erule (1) list_all2_kept_trans | simp))

lemma all_kept:
  "list_all2 task_kept ts ts' \<Longrightarrow> (list_all task_ok ts \<longrightarrow> list_all task_ok ts') \<and> (list_all kill_pending ts \<longrightarrow> list_all kill_pending ts')"
  by (induction rule: list_all2_induct) (auto simp: task_kept_def)

lemma sproc_kept_wf:
  assumes "sproc_kept p p'" "sig_wf p"
  shows "sig_wf p'"
  using assms all_kept [of "sp_siblings p" "sp_siblings p'"]
  unfolding sproc_kept_def sig_wf_def task_kept_def entry_kept_def by metis

lemma sproc_kept_killed: "sproc_kept p p' \<Longrightarrow> all_killed p \<Longrightarrow> all_killed p'"
  using all_kept [of "sp_siblings p" "sp_siblings p'"] unfolding sproc_kept_def all_killed_def task_kept_def by blast
lemma proc_signal_kept: "sproc_kept p (proc_signal sig p)"
  by (simp add: proc_signal_def sproc_kept_def entry_kept_def Let_def list.rel_map list_all2_same)

lemma signal_task_kept: "(\<And>i. which = Some i \<Longrightarrow> i < length (sp_siblings p)) \<Longrightarrow> sproc_kept p (signal_task which sig p)"
  by (auto simp: signal_task_def sproc_kept_def entry_kept_def list_all2_conv_all_nth nth_list_update split: option.split)

lemma rt_sigaction_kept:
  assumes "rt_sigaction p sig act oact = (res, p')"
  shows "sproc_kept p p'"
  using assms
  by (auto simp: rt_sigaction_def sproc_kept_def entry_kept_def Let_def bit_and_iff bit_or_iff bit_not_iff
      split: if_splits prod.splits sum.splits)

lemma rt_sigprocmask_kept: "rt_sigprocmask p how newset oldset = (res, p') \<Longrightarrow> sproc_kept p p'"
  by (auto simp: rt_sigprocmask_def sproc_kept_def entry_kept_def Let_def split: if_splits prod.splits sum.splits)

lemma sigaltstack_kept: "sigaltstack p new old = (res, p') \<Longrightarrow> sproc_kept p p'"
  by (auto simp: sigaltstack_def sproc_kept_def entry_kept_def Let_def split: if_splits prod.splits sum.splits)

lemma list_update_nth_either: "xs[i := x] ! j = xs ! j \<or> xs[i := x] ! j = x"
  by (cases "i < length xs"; cases "i = j") (simp_all add: list_update_beyond)

lemma enter_handler_kept:
  assumes "enter_handler p r sig act blocked = Some (b, p')"
  shows "sproc_kept p p'"
proof -
  obtain res m where s: "setup_frame (sp_cur p) (sp_mem p) r sig act blocked = Some (res, m)"
    using assms by (auto simp: enter_handler_def)
  show ?thesis
  proof (cases res)
    case (Inl e)
    then show ?thesis using assms sproc_kept_mem by (auto simp: enter_handler_def s)
  next
    case (Inr new)
    then have "\<exists>k. sp_cur p' = set_blocked k (sp_cur p)" "sp_siblings p' = sp_siblings p" "sp_ignored p' = sp_ignored p"
      "sp_actions p' = sp_actions p \<or> sp_actions p' = (sp_actions p)[sig := DFL]"
      using assms by (auto simp: enter_handler_def s Let_def split: if_splits)
    then show ?thesis
      using list_update_nth_either [of "sp_actions p" sig DFL SIGKILL] list_update_nth_either [of "sp_actions p" sig DFL SIGSTOP]
      by (auto simp: sproc_kept_def entry_kept_def)
  qed
qed

text \<open>One round of the delivery loop: it goes round again with the signal taken off, or ends.\<close>

definition next_signal :: "sproc \<Rightarrow> nat" where
  "next_signal p = trailing_zeros (deliverable p) + 1"

definition taken :: "sproc \<Rightarrow> sproc" where
  "taken p = p\<lparr>sp_cur := clear_signal (next_signal p) (sp_cur p)\<rparr>"

definition goes_round :: "sproc \<Rightarrow> sproc \<Rightarrow> bool" where
  "goes_round p q \<longleftrightarrow>
     (\<exists>t. (t = sp_cur (taken p) \<or> stop_current (sp_cur (taken p)) = (False, t)) \<and> q = taken p\<lparr>sp_cur := t\<rparr>)"

lemma goes_round_kept: "goes_round p q \<Longrightarrow> sproc_kept p q"
  unfolding goes_round_def
proof (elim exE conjE)
  fix t assume a: "t = sp_cur (taken p) \<or> stop_current (sp_cur (taken p)) = (False, t)" "q = taken p\<lparr>sp_cur := t\<rparr>"
  have "sproc_kept p (taken p)" unfolding taken_def by (rule sproc_kept_cur) simp
  moreover have "sproc_kept (taken p) q" unfolding a(2) using a(1) task_kept_stop by (intro sproc_kept_cur) auto
  ultimately show "sproc_kept p q" by (rule sproc_kept_trans)
qed

lemma goes_round_frame:
  assumes "goes_round p q"
  shows "sp_actions q = sp_actions p" "tk_blocked (sp_cur q) = tk_blocked (sp_cur p)"
    "tk_signals (sp_cur q) = tk_signals (clear_signal (next_signal p) (sp_cur p))"
  using assms by (auto simp: goes_round_def stop_current_def taken_def clear_signal_def split: if_splits)

lemma goes_round_taken [simp]: "goes_round p (taken p)"
  unfolding goes_round_def by (rule exI [of _ "sp_cur (taken p)"]) simp

lemma deliver_choice:
  "d = (if A then a else if B then (if C then c else if D then a else if E then b else a) else if F then (if E then b else a) else e) \<Longrightarrow>
    d = a \<or> d = b \<or> d = c \<or> d = e \<and> \<not> A \<and> \<not> B \<and> \<not> F"
  by (auto split: if_splits)

lemma deliver_round:
  assumes "deliverable p \<noteq> 0" "next_signal p \<noteq> SIGKILL"
  shows "(\<exists>q. goes_round p q \<and> deliver_user_signals p r = deliver_user_signals q r) \<or>
    (\<exists>s. deliver_user_signals p r = Some (Exits s, taken p)) \<or>
    (\<exists>t. stop_current (sp_cur (taken p)) = (True, t) \<and> deliver_user_signals p r = Some (Stops, taken p\<lparr>sp_cur := t\<rparr>)) \<or>
    (caught p (next_signal p) \<and> deliver_user_signals p r =
      enter_handler (taken p) r (next_signal p) (sp_actions p ! next_signal p) (tk_blocked (sp_cur p)))"
    (is "?round \<or> ?exit \<or> ?stop \<or> ?enter")
proof -
  let ?sig = "next_signal p" and ?act = "sp_actions p ! next_signal p"
  have "deliver_user_signals p r =
        (if sa_handler ?act = SIG_IGN then deliver_user_signals (taken p) r
         else if sa_handler ?act = SIG_DFL then
           (if stops_by_default ?sig then
              (case stop_current (sp_cur (taken p)) of
                 (True, t) \<Rightarrow> Some (Stops, taken p\<lparr>sp_cur := t\<rparr>)
               | (False, t) \<Rightarrow> deliver_user_signals (taken p\<lparr>sp_cur := t\<rparr>) r)
            else if ignored_by_default ?sig then deliver_user_signals (taken p) r
            else if terminates_by_default ?sig then Some (Exits ?sig, taken p)
            else deliver_user_signals (taken p) r)
         else if sa_restorer ?act = 0 then
           (if terminates_by_default ?sig then Some (Exits ?sig, taken p) else deliver_user_signals (taken p) r)
         else enter_handler (taken p) r ?sig ?act (tk_blocked (sp_cur p)))"
    using assms by (simp only: deliver_user_signals.simps [of p r] Let_def next_signal_def [symmetric] taken_def [symmetric] if_False)
  note deliver_choice [OF this]
  then show ?thesis
  proof (elim disjE)
    assume "deliver_user_signals p r = (case stop_current (sp_cur (taken p)) of
        (True, t) \<Rightarrow> Some (Stops, taken p\<lparr>sp_cur := t\<rparr>) | (False, t) \<Rightarrow> deliver_user_signals (taken p\<lparr>sp_cur := t\<rparr>) r)"
    then show ?thesis
      by (cases "stop_current (sp_cur (taken p))"; cases "fst (stop_current (sp_cur (taken p)))") (auto simp: goes_round_def)
  qed (use goes_round_taken caught_def in blast)+
qed
lemma goes_round_less:
  assumes "goes_round p q" "deliverable p \<noteq> 0" "next_signal p \<noteq> SIGKILL"
  shows "unat (tk_signals (sp_cur q)) < unat (tk_signals (sp_cur p))"
  using clear_signal_decreases [OF assms(2)] assms(3) by (simp add: goes_round_frame(3) [OF assms(1)] next_signal_def)

lemma deliver_done:
  assumes "deliver_user_signals p r = Some (b, p')" "deliverable p = 0 \<or> next_signal p = SIGKILL"
  shows "p' = p" "deliverable p = 0 \<and> b = Resume r \<or> deliverable p \<noteq> 0 \<and> b = Exits SIGKILL"
  using assms by (simp_all add: deliver_user_signals.simps [of p r] next_signal_def Let_def split: if_splits)

lemma deliver_kept: "deliver_user_signals p r = Some (b, p') \<Longrightarrow> sproc_kept p p'"
proof (induction "unat (tk_signals (sp_cur p))" arbitrary: p rule: less_induct)
  case less
  show ?case
  proof (cases "deliverable p = 0 \<or> next_signal p = SIGKILL")
    case True
    then show ?thesis using deliver_done(1) [OF less.prems] by simp
  next
    case False
    have t: "sproc_kept p (taken p)" using goes_round_kept goes_round_taken .
    from deliver_round [of p r] False less.prems consider
        (Round) q where "goes_round p q" "deliver_user_signals q r = Some (b, p')"
      | (Exit) "p' = taken p"
      | (Stop) t where "stop_current (sp_cur (taken p)) = (True, t)" "p' = taken p\<lparr>sp_cur := t\<rparr>"
      | (Enter) "enter_handler (taken p) r (next_signal p) (sp_actions p ! next_signal p) (tk_blocked (sp_cur p)) = Some (b, p')"
      by (metis option.inject prod.inject)
    then show ?thesis
    proof cases
      case Round
      then show ?thesis using less.hyps goes_round_less False goes_round_kept sproc_kept_trans by blast
    next
      case Stop
      then show ?thesis using t task_kept_stop sproc_kept_cur sproc_kept_trans by metis
    next
      case Enter
      then show ?thesis using t enter_handler_kept sproc_kept_trans by blast
    qed (use t in simp)
  qed
qed

lemma restore_frame_fpu: "restore_frame t m r = Inr (r', k, fx) \<Longrightarrow> fx = tk_fpu t \<or> length fx = FXSAVE_SIZE"
  by (auto simp: restore_frame_def Let_def kbind_Inr dest!: copy_from_ok split: if_splits)

lemma rt_sigreturn_kept:
  assumes "rt_sigreturn p f = Some (b, p')"
  shows "sproc_kept p p'"
proof (cases "restore_frame (sp_cur p) (sp_mem p) (from_user f)")
  case (Inl e)
  then show ?thesis using assms by (auto simp: rt_sigreturn_def)
next
  case (Inr x)
  obtain r k fx where x: "x = (r, k, fx)" by (cases x)
  define t where "t = sp_cur p\<lparr>tk_fpu := fx\<rparr>"
  have "task_kept (sp_cur p) t"
    using restore_frame_fpu [of "sp_cur p" "sp_mem p" "from_user f" r k fx] Inr x by (auto simp: t_def)
  then have "sproc_kept p (p\<lparr>sp_cur := set_blocked k t\<rparr>)" using task_kept_trans task_kept_ops(2) by (blast intro: sproc_kept_cur)
  moreover have "deliver_user_signals (p\<lparr>sp_cur := set_blocked k t\<rparr>) r = Some (b, p')"
    using assms Inr x by (simp add: rt_sigreturn_def t_def)
  ultimately show ?thesis using deliver_kept sproc_kept_trans by blast
qed

lemma exec_fold_nth:
  "\<not> C s \<Longrightarrow>
    fold (\<lambda>sig t. if C sig then t[sig := (t ! sig)\<lparr>sa_handler := SIG_IGN\<rparr>] else t) sigs t ! s = t ! s"
proof (induction sigs arbitrary: t)
  case (Cons a sigs)
  then show ?case by (cases "a = s") simp_all
qed simp

lemma exec_fold_length:
  "length (fold (\<lambda>sig t. if C sig then t[sig := (t ! sig)\<lparr>sa_handler := SIG_IGN\<rparr>] else t) sigs t) = length t"
  by (induction sigs arbitrary: t) auto

lemma exec_kept:
  assumes "sig_wf p"
  shows "sproc_kept p (exec_dispositions p)"
proof -
  have "\<not> sp_ignored p AND sig_bit SIGKILL \<noteq> 0" "\<not> sp_ignored p AND sig_bit SIGSTOP \<noteq> 0"
    using assms and_sig_bit [of SIGKILL "sp_ignored p"] and_sig_bit [of SIGSTOP "sp_ignored p"] by (simp_all add: sig_wf_def)
  then have "sp_actions (exec_dispositions p) ! SIGKILL = DFL" "sp_actions (exec_dispositions p) ! SIGSTOP = DFL"
    by (simp_all add: exec_dispositions_def exec_fold_nth default_table_def del: upt_conv_Cons)
  then show ?thesis using assms
    by (simp add: sproc_kept_def entry_kept_def exec_dispositions_def exec_fold_length sig_wf_def default_table_def)
qed

section \<open>Kills\<close>

lemma switch_kept:
  assumes "i < length (sp_siblings p)"
  defines "p' \<equiv> p\<lparr>sp_cur := sp_siblings p ! i, sp_siblings := (sp_siblings p)[i := sp_cur p]\<rparr>"
  shows "sig_wf p \<Longrightarrow> sig_wf p'" "all_killed p \<Longrightarrow> all_killed p'"
  using assms by (auto simp: sig_wf_def all_killed_def list_all_length nth_list_update)

lemma sig_step_keeps:
  assumes "sig_step p p'" "sig_wf p"
  shows "sig_wf p'" "all_killed p \<Longrightarrow> all_killed p'"
proof -
  have "sproc_kept p p' \<or> (sig_wf p' \<and> (all_killed p \<longrightarrow> all_killed p'))"
    using assms
  proof (induction rule: sig_step.induct)
    case (User fx p m)
    have "sproc_kept (p\<lparr>sp_mem := m\<rparr>) (p\<lparr>sp_mem := m, sp_cur := sp_cur p\<lparr>tk_fpu := fx\<rparr>\<rparr>)"
      using User by (simp add: sproc_kept_def entry_kept_def)
    then show ?case using sproc_kept_mem sproc_kept_trans by blast
  next
    case (Stop_Sleep p b t)
    then show ?case
      using sproc_kept_cur task_kept_trans [OF task_kept_ops(5)] task_kept_stop by blast
  next
    case (Switch i p)
    then show ?case using switch_kept by blast
  qed (blast intro: proc_signal_kept signal_task_kept rt_sigaction_kept rt_sigprocmask_kept sigaltstack_kept deliver_kept
      rt_sigreturn_kept exec_kept sproc_kept_cur task_kept_ops)+
  then show "sig_wf p'" "all_killed p \<Longrightarrow> all_killed p'" using assms(2) sproc_kept_wf sproc_kept_killed by blast+
qed

lemma sig_reach_wf: "sig_reach p \<Longrightarrow> sig_wf p"
proof (induction rule: sig_reach.induct)
  case (Fresh t m)
  then show ?case by (simp add: sig_wf_def task_ok_def default_table_def)
qed (rule sig_step_keeps)

lemma enter_handler_not_stops: "enter_handler p r sig act k \<noteq> Some (Stops, p')"
  by (auto simp: enter_handler_def Let_def split: sum.splits)

lemma enter_handler_resumes:
  assumes "enter_handler p r sig act k = Some (Resume r', p')"
  shows "setup_frame (sp_cur p) (sp_mem p) r sig act k = Some (Inr r', sp_mem p')"
    "tk_blocked (sp_cur p') = tk_blocked (set_blocked
       (if sa_flags act AND SA_NODEFER = 0 then k OR sa_mask act OR sig_bit sig else k OR sa_mask act) (sp_cur p))"
proof -
  obtain res m where s: "setup_frame (sp_cur p) (sp_mem p) r sig act k = Some (res, m)"
    using assms by (auto simp: enter_handler_def)
  then have res: "res = Inr r'" using assms by (cases res) (simp_all add: enter_handler_def Let_def)
  show "setup_frame (sp_cur p) (sp_mem p) r sig act k = Some (Inr r', sp_mem p')"
    "tk_blocked (sp_cur p') = tk_blocked (set_blocked
       (if sa_flags act AND SA_NODEFER = 0 then k OR sa_mask act OR sig_bit sig else k OR sa_mask act) (sp_cur p))"
    using assms by (auto simp: enter_handler_def s res Let_def or.assoc)
qed

lemma setup_frame_rip: "setup_frame t m r sig act k = Some (Inr r', m') \<Longrightarrow> r_rip r' = sa_handler act"
  by (erule setup_frame_layout) (simp add: handler_regs_def Let_def)

lemma deliver_killed:
  assumes "sig_wf p" "kill_pending (sp_cur p)"
  shows "(\<exists>s p'. deliver_user_signals p r = Some (Exits s, p')) \<or>
    (\<exists>sig. 1 \<le> sig \<and> sig < SIGKILL \<and> bit (deliverable p) (sig - 1) \<and> caught p sig \<and>
      (deliver_user_signals p r = None \<or> (\<exists>r' p'. deliver_user_signals p r = Some (Resume r', p') \<and> r_rip r' = sa_handler (sp_actions p ! sig))))"
  using assms
proof (induction "unat (tk_signals (sp_cur p))" arbitrary: p rule: less_induct)
  case less
  have b8: "bit (deliverable p) 8"
    using less.prems by (simp add: deliverable_def sig_wf_def task_ok_def kill_pending_bit bit_and_iff bit_not_iff)
  then have d: "deliverable p \<noteq> 0" by auto
  show ?case
  proof (cases "next_signal p = SIGKILL")
    case True
    then show ?thesis using d by (simp add: deliver_user_signals.simps [of p r] next_signal_def)
  next
    case False
    have "\<not> 8 < trailing_zeros (deliverable p)" using trailing_zeros_bit(3) [OF d, of 8] b8 by blast
    then have n: "1 \<le> next_signal p" "next_signal p < SIGKILL" "bit (deliverable p) (next_signal p - 1)"
      using trailing_zeros_bit(2) [OF d] False by (simp_all add: next_signal_def)
    from deliver_round [OF d False, of r] consider
        (Round) q where "goes_round p q" "deliver_user_signals p r = deliver_user_signals q r"
      | (Exit) s where "deliver_user_signals p r = Some (Exits s, taken p)"
      | (Stop) t where "stop_current (sp_cur (taken p)) = (True, t)"
      | (Enter) "caught p (next_signal p)" "deliver_user_signals p r =
          enter_handler (taken p) r (next_signal p) (sp_actions p ! next_signal p) (tk_blocked (sp_cur p))"
      by blast
    then show ?thesis
    proof cases
      case Round
      have q: "sig_wf q" "kill_pending (sp_cur q)"
        using goes_round_kept [OF Round(1)] less.prems sproc_kept_wf by (auto simp: sproc_kept_def task_kept_def)
      have "bit (deliverable q) i \<Longrightarrow> bit (deliverable p) i" for i
        using goes_round_frame [OF Round(1)] by (auto simp: deliverable_def clear_signal_def bit_and_iff bit_not_iff split: if_splits)
      moreover have "caught q = caught p" using goes_round_frame(1) [OF Round(1)] by (auto simp: caught_def fun_eq_iff)
      ultimately show ?thesis
        using less.hyps [OF goes_round_less [OF Round(1) d False] q] Round(2) goes_round_frame(1) [OF Round(1)] by (metis (no_types))
    next
      case Stop
      have "kill_pending (sp_cur (taken p))"
        using less.prems(2) task_kept_ops(4) by (simp add: taken_def task_kept_def)
      then show ?thesis using Stop by (simp add: stop_current_def)
    next
      case Enter
      then have "deliver_user_signals p r \<noteq> Some (Stops, p')"
        "deliver_user_signals p r = Some (Resume r', p') \<Longrightarrow> r_rip r' = sa_handler (sp_actions p ! next_signal p)" for r' p'
        by (simp_all add: enter_handler_not_stops setup_frame_rip [OF enter_handler_resumes(1)])
      then show ?thesis using Enter(1) n by (metis boundary.exhaust not_None_eq prod.exhaust)
    qed auto
  qed
qed


section \<open>Handlers leave no trace\<close>

lemma rt_sigreturn_image:
  assumes "can_copy (sp_mem p) uc 1024 False" "unat (uf_rsp f) = uc"
    "get_bytes (sp_mem p) uc 512 = frame_image r (uc + 512) old_mask" "get_bytes (sp_mem p) (uc + 512) 512 = fx"
    "tk_signals (sp_cur p) AND NOT (tk_blocked (set_blocked old_mask (sp_cur p))) = 0"
  shows "rt_sigreturn p f = Some (Resume r, p\<lparr>sp_cur := set_blocked old_mask (sp_cur p\<lparr>tk_fpu := fx\<rparr>)\<rparr>)"
proof -
  have "restore_frame (sp_cur p) (sp_mem p) (from_user f) = Inr (r, old_mask, fx)"
    using assms by (intro restore_frame_image) (simp_all add: from_user_def)
  then show ?thesis
    using assms(5) by (simp add: rt_sigreturn_def deliver_user_signals.simps deliverable_def set_blocked_def)
qed

lemma deliver_caught:
  assumes "deliverable p \<noteq> 0" "next_signal p \<noteq> SIGKILL" "caught p (next_signal p)"
  shows "deliver_user_signals p r =
    enter_handler (taken p) r (next_signal p) (sp_actions p ! next_signal p) (tk_blocked (sp_cur p))"
  using assms
  by (simp add: deliver_user_signals.simps [of p r] Let_def caught_def next_signal_def taken_def)

lemma set_blocked_same: "task_ok t \<Longrightarrow> tk_blocked (set_blocked (tk_blocked t) t') = tk_blocked t"
proof -
  assume "task_ok t"
  then have "bit (tk_blocked t) i \<Longrightarrow> i \<noteq> 8 \<and> i \<noteq> 18" for i by (auto simp: task_ok_def)
  then show ?thesis by (auto simp: set_blocked_def bit_eq_iff bit_and_iff bit_not_iff)
qed

text \<open>
  C9 (a handler leaves no trace). Let the next signal of a task be one its process catches, and let the kernel enter the
  handler. The handler starts at the address it was registered with, with the signal number as its argument, on an aligned
  stack whose top is the address of the restorer. Whatever the program then does, if it keeps the saved frame intact, calls
  \<^verbatim>\<open>rt_sigreturn\<close> with the stack pointer just above the restorer's address and no other signal is due, the task goes back to the
  interrupted program with every register, the blocked mask and the floating-point state as they were.
\<close>

theorem signal_handler_transparent:
  assumes "sig_wf p" "deliverable p \<noteq> 0" "next_signal p \<noteq> SIGKILL" "caught p (next_signal p)"
    "deliver_user_signals p r = Some (Resume r1, p1)"
    "uf_rsp f = r_rsp r1 + 8" "can_copy (sp_mem p2) (unat (uf_rsp f)) 1024 False"
    "get_bytes (sp_mem p2) (unat (uf_rsp f)) 1024 = get_bytes (sp_mem p1) (unat (uf_rsp f)) 1024"
    "tk_signals (sp_cur p2) AND NOT (tk_blocked (sp_cur p)) = 0"
  shows "r_rip r1 = sa_handler (sp_actions p ! next_signal p) \<and> r_rdi r1 = of_nat (next_signal p) \<and>
    unat (r_rsp r1) mod 16 = 8 \<and> get_bytes (sp_mem p1) (unat (r_rsp r1)) 8 = to_le 8 (sa_restorer (sp_actions p ! next_signal p)) \<and>
    (\<exists>p3. rt_sigreturn p2 f = Some (Resume r, p3) \<and> tk_blocked (sp_cur p3) = tk_blocked (sp_cur p) \<and>
      tk_fpu (sp_cur p3) = tk_fpu (sp_cur p))"
proof -
  let ?act = "sp_actions p ! next_signal p" and ?k = "tk_blocked (sp_cur p)" and ?m = "sp_mem p1"
  have t: "task_ok (sp_cur p)" using assms(1) by (simp add: sig_wf_def)
  have fpu: "tk_fpu (sp_cur (taken p)) = tk_fpu (sp_cur p)" by (simp add: taken_def clear_signal_def)
  have "setup_frame (sp_cur (taken p)) (sp_mem (taken p)) r (next_signal p) ?act ?k = Some (Inr r1, ?m)"
    using assms(5) unfolding deliver_caught [OF assms(2-4)] by (rule enter_handler_resumes(1))
  then obtain uc where uc: "r1 = handler_regs r (next_signal p) ?act (uc - 8) (uc + 1024) uc" "(uc - 8) mod 16 = 8" "8 \<le> uc"
      "USER_START \<le> uc - 8" "uc + 512 \<le> USER_END" "get_bytes ?m (uc - 8) 8 = to_le 8 (sa_restorer ?act)"
      "get_bytes ?m uc 512 = frame_image r (uc + 512) ?k" "get_bytes ?m (uc + 512) 512 = tk_fpu (sp_cur p)"
    using t fpu by (elim frame_contents) (simp_all add: task_ok_def)
  have rsp: "unat (r_rsp r1) = uc - 8" using uc(1,5) by (simp add: handler_regs_def Let_def unat_of_nat_eq)
  have "r_rsp r1 + 8 = of_nat uc" using uc(1,3) by (simp add: handler_regs_def Let_def of_nat_diff)
  then have u: "unat (uf_rsp f) = uc" using assms(6) uc(5) by (simp add: unat_of_nat_eq)
  have same: "get_bytes (sp_mem p2) a n = get_bytes ?m a n" if "uc \<le> a" "a + n \<le> uc + 1024" for a n
    using get_bytes_part [OF that, of "sp_mem p2"] get_bytes_part [OF that, of ?m] assms(8) u by simp
  have "rt_sigreturn p2 f = Some (Resume r, p2\<lparr>sp_cur := set_blocked ?k (sp_cur p2\<lparr>tk_fpu := tk_fpu (sp_cur p)\<rparr>)\<rparr>)"
    using assms(7,9) uc(7,8) same [of uc 512] same [of "uc + 512" 512] set_blocked_same [OF t]
    by (intro rt_sigreturn_image [OF _ u]) (simp_all add: u)
  then show ?thesis using uc(1,2,6) rsp set_blocked_same [OF t] by (simp add: handler_regs_def Let_def set_blocked_def)
qed

section \<open>When a frame can be written\<close>

lemma can_copy_put: "can_copy (put_bytes m a bs) addr len w = can_copy m addr len w"
  by (rule can_copy_cong) simp_all

lemma setup_frame_can:
  assumes "frame_base t r act = Some base" "1288 \<le> base" "uc + 1152 = align_down (base - 128) 16" "8 \<le> uc"
    "can_copy m (uc - 8) 1160 True" "length (tk_fpu t) = 512"
  shows "\<exists>m'. setup_frame t m r sig act k = Some (Inr (handler_regs r sig act (uc - 8) (uc + 1024) uc), m') \<and>
    um_regions m' = um_regions m \<and> um_fault m' = um_fault m"
proof -
  have part: "can_copy m a n True" if "uc - 8 \<le> a" "a + n \<le> uc - 8 + 1160" for a n
    using can_copy_part [OF assms(5) that] .
  have d: "sub_checked (align_down (base - 128) 16) SIGINFO_SIZE = Some (uc + 1024)"
    "sub_checked (uc + 1024) FXSAVE_SIZE = Some (uc + 512)"
    "sub_checked (uc + 512) UC_SIZE = Some uc" "sub_checked uc 8 = Some (uc - 8)"
    using assms(3,4) by (simp_all add: sub_checked_def)
  have c: "copy_to m' a bs = (Inr (), put_bytes m' a bs)"
    if "um_regions m' = um_regions m" "um_fault m' = um_fault m" "uc - 8 \<le> a" "a + length bs \<le> uc - 8 + 1160" for m' a bs
    using copy_to_can [of m' a bs] can_copy_cong [OF that(1,2)] part [OF that(3,4)] by simp
  show ?thesis
    using assms(1,2,4,6)
    by (simp add: setup_frame_def Let_def d frame_image_def [symmetric] c copy_then_def del: of_nat_add)
qed

section \<open>A process\<close>

definition demo_mem :: umem where
  "demo_mem = \<lparr>um_regions = [\<lparr>rg_start = 0x10000, rg_end = 0x20000, rg_read = True, rg_write = True\<rparr>],
     um_fault = (\<lambda>_ _. None), um_bytes = (\<lambda>_. 0)\<rparr>"

definition demo_task :: task where
  "demo_task = \<lparr>tk_signals = 0, tk_blocked = 0, tk_stopped = False, tk_sas_sp = 0, tk_sas_size = 0, tk_fpu = replicate 512 0\<rparr>"

definition demo_regs :: "u64 \<Rightarrow> regs" where
  "demo_regs sp = \<lparr>r_r8 = 1, r_r9 = 2, r_r10 = 3, r_r11 = 4, r_r12 = 5, r_r13 = 6, r_r14 = 7, r_r15 = 8, r_rdi = 9, r_rsi = 10,
     r_rbp = 11, r_rbx = 12, r_rdx = 13, r_rax = 14, r_rcx = 15, r_rsp = sp, r_rip = 0x11000, r_rflags = 0x202\<rparr>"

definition demo_frame :: "u64 \<Rightarrow> user_frame" where
  "demo_frame sp = \<lparr>uf_rbx = 0, uf_rbp = 0, uf_r12 = 0, uf_r13 = 0, uf_r14 = 0, uf_r15 = 0, uf_rdi = 0, uf_rsi = 0, uf_rdx = 0,
     uf_r10 = 0, uf_r8 = 0, uf_r9 = 0, uf_rax = 15, uf_rip = 0x13000, uf_rflags = 0x202, uf_rsp = sp\<rparr>"

definition demo_action :: sig_action where
  "demo_action = \<lparr>sa_handler = 0x12000, sa_flags = 0, sa_restorer = 0x13000, sa_mask = 0\<rparr>"

text \<open>A fresh process, and one that catches SIGHUP.\<close>

definition demo_sproc :: sproc where
  "demo_sproc = \<lparr>sp_cur = demo_task, sp_siblings = [], sp_actions = default_table, sp_ignored = 0, sp_mem = demo_mem\<rparr>"

definition demo_catching :: sproc where
  "demo_catching = demo_sproc\<lparr>sp_actions := default_table[1 := demo_action]\<rparr>"

lemma demo_can_copy: "0x10000 \<le> a \<Longrightarrow> a + n \<le> 0x20000 \<Longrightarrow> can_copy demo_mem a n w"
proof (rule can_copy_part [of _ "0x10000" "0x10000"])
  have "verify_loop demo_mem w (align_down 0x10000 PAGE_SIZE) 0x20000"
    by (subst verify_loop_iff) (auto simp: align_down_def readable_page_def region_at_def demo_mem_def)
  then show "can_copy demo_mem 0x10000 0x10000 w"
    by (simp add: can_copy_def ua_check_def verify_def pages_in_def) (simp add: demo_mem_def)
qed auto

lemma demo_reach: "sig_reach demo_sproc"
  unfolding demo_sproc_def by (rule sig_reach.Fresh) (simp_all add: demo_task_def)

lemma demo_catching_wf: "sig_wf (proc_signal 1 demo_catching)"
  by (rule sproc_kept_wf [OF proc_signal_kept])
    (simp add: demo_catching_def demo_sproc_def demo_task_def sig_wf_def task_ok_def default_table_def)


text \<open>Where SIGHUP is pending, its handler is entered, whatever else is pending.\<close>

lemma demo_enters:
  assumes "sp_actions p = sp_actions demo_catching" "sp_mem p = demo_mem" "sp_cur p = demo_task\<lparr>tk_signals := w\<rparr>" "bit w 0"
  shows "deliverable p \<noteq> 0" "next_signal p = 1" "caught p (next_signal p)"
    "\<exists>r1 p1. deliver_user_signals p (demo_regs 0x18000) = Some (Resume r1, p1) \<and> r_rsp r1 = 0x17B00 - 8 \<and>
       um_regions (sp_mem p1) = um_regions demo_mem \<and> um_fault (sp_mem p1) = um_fault demo_mem"
proof -
  have d: "deliverable p = w" using assms(3) by (simp add: deliverable_def demo_task_def)
  then show dn: "deliverable p \<noteq> 0" using assms(4) by auto
  have "trailing_zeros w = 0" using assms(4) trailing_zeros_bit(3) [of w 0] dn d by blast
  then show n: "next_signal p = 1" using d by (simp add: next_signal_def)
  then show c: "caught p (next_signal p)"
    using assms(1) by (simp add: caught_def demo_catching_def default_table_def demo_action_def)
  have cc: "can_copy (sp_mem (taken p)) (0x17B00 - 8) 1160 True" using demo_can_copy assms(2) by (simp add: taken_def)
  have len: "length (tk_fpu (sp_cur (taken p))) = 512" using assms(3) by (simp add: taken_def clear_signal_def demo_task_def)
  have "frame_base (sp_cur (taken p)) (demo_regs 0x18000) (sp_actions p ! 1) = Some 0x18000"
    using assms(1,3) by (simp add: frame_base_def taken_def clear_signal_def demo_task_def demo_catching_def default_table_def
        demo_action_def demo_regs_def Let_def)
  then obtain m' where "setup_frame (sp_cur (taken p)) (sp_mem (taken p)) (demo_regs 0x18000) 1 (sp_actions p ! 1) (tk_blocked (sp_cur p))
      = Some (Inr (handler_regs (demo_regs 0x18000) 1 (sp_actions p ! 1) (0x17B00 - 8) (0x17B00 + 1024) 0x17B00), m')"
      "um_regions m' = um_regions (sp_mem (taken p))" "um_fault m' = um_fault (sp_mem (taken p))"
    using setup_frame_can [OF _ _ _ _ cc len, of "demo_regs 0x18000" "sp_actions p ! 1" "0x18000"] by (force simp: align_down_def)
  then show "\<exists>r1 p1. deliver_user_signals p (demo_regs 0x18000) = Some (Resume r1, p1) \<and> r_rsp r1 = 0x17B00 - 8 \<and>
      um_regions (sp_mem p1) = um_regions demo_mem \<and> um_fault (sp_mem p1) = um_fault demo_mem"
    using deliver_caught [OF dn _ c] n assms(2) by (simp add: enter_handler_def Let_def handler_regs_def taken_def)
qed

lemma demo_posted:
  "sp_cur (proc_signal 1 demo_catching) = demo_task\<lparr>tk_signals := sig_bit 1\<rparr>"
  "sp_actions (proc_signal sig demo_catching) = sp_actions demo_catching" "sp_mem (proc_signal sig demo_catching) = demo_mem"
  by (simp_all add: proc_signal_def Let_def demo_catching_def demo_sproc_def deliver_to_task_def send_signal_def sig_ignored_def
      demo_task_def default_table_def demo_action_def)

theorem signal_handler_transparent_witness:
  "\<exists>r1 p1 p3. deliver_user_signals (proc_signal 1 demo_catching) (demo_regs 0x18000) = Some (Resume r1, p1) \<and> r_rip r1 = 0x12000 \<and>
     rt_sigreturn (p1\<lparr>sp_cur := demo_task\<rparr>) (demo_frame (r_rsp r1 + 8)) = Some (Resume (demo_regs 0x18000), p3)"
proof -
  let ?p = "proc_signal 1 demo_catching"
  have "bit (sig_bit 1) 0" by simp
  note e = demo_enters [OF demo_posted(2,3,1) this]
  obtain r1 p1 where p1: "deliver_user_signals ?p (demo_regs 0x18000) = Some (Resume r1, p1)" "r_rsp r1 = 0x17B00 - 8"
    "um_regions (sp_mem p1) = um_regions demo_mem" "um_fault (sp_mem p1) = um_fault demo_mem"
    using e(4) by blast
  have "sp_actions ?p ! next_signal ?p = demo_action"
    unfolding e(2) demo_posted(2) by (simp add: demo_catching_def default_table_def)
  moreover have "can_copy (sp_mem p1) (unat (r_rsp r1 + 8)) 1024 False"
    using can_copy_cong [OF p1(3,4)] demo_can_copy by (simp add: p1(2))
  ultimately show ?thesis
    using signal_handler_transparent [OF demo_catching_wf e(1) _ e(3) p1(1), of "demo_frame (r_rsp r1 + 8)" "p1\<lparr>sp_cur := demo_task\<rparr>"]
      e(2) p1(1) by (auto simp: demo_frame_def demo_task_def demo_action_def)
qed

section \<open>Weak points of the code\<close>

text \<open>With SIGHUP and SIGKILL both pending, the handler of SIGHUP runs first.\<close>

lemma handler_before_kill:
  "\<exists>r1 p1. deliver_user_signals (proc_signal 1 (proc_signal SIGKILL demo_catching)) (demo_regs 0x18000) = Some (Resume r1, p1) \<and>
     r_rsp r1 = 0x17B00 - 8"
proof -
  have "sp_cur (proc_signal 1 (proc_signal SIGKILL demo_catching)) = demo_task\<lparr>tk_signals := sig_bit SIGKILL OR sig_bit 1\<rparr>"
    "sp_actions (proc_signal 1 (proc_signal SIGKILL demo_catching)) = sp_actions demo_catching"
    "sp_mem (proc_signal 1 (proc_signal SIGKILL demo_catching)) = demo_mem"
    by (simp_all add: proc_signal_def Let_def demo_catching_def demo_sproc_def deliver_to_task_def send_signal_def sig_ignored_def
        demo_task_def default_table_def demo_action_def)
  from demo_enters(4) [OF this(2,3,1)] show ?thesis by (auto simp: bit_or_iff)
qed

text \<open>A stack pointer below 1288, and an alternate stack that ends past the address range, trap in the kernel.\<close>

lemma low_stack_traps:
  "sa_flags act AND SA_ONSTACK = 0 \<Longrightarrow> tk_sas_size t = 0 \<Longrightarrow> r_rsp r = 512 \<Longrightarrow> setup_frame t m r sig act k = None"
  by (simp add: setup_frame_def frame_base_def Let_def align_down_def sub_checked_def)

lemma high_altstack_traps:
  "sa_flags act AND SA_ONSTACK \<noteq> 0 \<Longrightarrow> tk_sas_sp t = 0xFFFFFFFFFFFFF800 \<Longrightarrow> tk_sas_size t = 2048 \<Longrightarrow> r_rsp r = 0x18000 \<Longrightarrow>
    setup_frame t m r sig act k = None"
  by (simp add: setup_frame_def frame_base_def Let_def add_checked_def)

text \<open>A negative process number of least value traps in the kernel.\<close>

lemma kill_least_traps: "sig \<le> 64 \<Longrightarrow> kill t sender (- (2 ^ 63)) sig = None"
  by (simp add: kill_def)

text \<open>Outside the process itself, \<open>kill\<close> reaches only what the credentials of the sender allow.\<close>

lemma kill_permitted:
  assumes "kill t sender pid sig = Some (res, t')" "distinct (map kp_pid (pt_procs t))" "kp_pid (pt_kernel t) = 0"
    "i < length (pt_procs t)" "pt_procs t' ! i \<noteq> pt_procs t ! i"
  shows "res = Inr () \<and> may_signal (kp_cred sender) (pt_procs t ! i) \<and> pt_procs t' ! i = send_to sig (pt_procs t ! i)"
proof -
  have same: "k = pt_procs t ! i" if "k \<in> set (pt_procs t)" "kp_pid k = kp_pid (pt_procs t ! i)" for k
    using that assms(2,4) by (metis distinct_map inj_onD nth_mem)
  have found: "k \<in> set (pt_procs t)" if "find_proc t q = Some k" "kp_pid k \<noteq> 0" for k q
    using that assms(3) by (auto simp: find_proc_def find_Some_iff split: if_splits)
  obtain sent where sent: "\<forall>k\<in>set sent. k \<in> set (pt_procs t) \<and> may_signal (kp_cred sender) k" and res: "res = Inr ()"
      and t': "pt_procs t' = map (\<lambda>k. if kp_pid k \<in> kp_pid ` set sent then send_to sig k else k) (pt_procs t)"
  proof -
    define targets where "targets = (if 0 < pid
        then (case find_proc t (of_int pid) of None \<Rightarrow> [] | Some k \<Rightarrow> if \<not> kp_zombie k \<or> sig = 0 then [k] else [])
        else filter (\<lambda>k. kp_pgid k = (if pid = 0 then kp_pgid sender else of_int (- pid)) \<and> \<not> kp_zombie k) (pt_procs t))"
    define sent where "sent = filter (\<lambda>k. kp_pid k \<noteq> 0 \<and> may_signal (kp_cred sender) k) targets"
    have "\<forall>k\<in>set sent. k \<in> set (pt_procs t) \<and> may_signal (kp_cred sender) k"
      using found by (auto simp: sent_def targets_def split: option.splits if_splits)
    moreover have "res = Inr () \<and> pt_procs t' = map (\<lambda>k. if kp_pid k \<in> kp_pid ` set sent then send_to sig k else k) (pt_procs t)"
      using assms(1,5) unfolding kill_def Let_def targets_def [symmetric] sent_def [symmetric] by (auto split: if_splits)
    ultimately show thesis using that by blast
  qed
  have "kp_pid (pt_procs t ! i) \<in> kp_pid ` set sent" using assms(4,5) t' by (auto split: if_splits)
  then show ?thesis using same sent res t' assms(4) by fastforce
qed

text \<open>Without a signal to deliver, the way back to user mode changes nothing.\<close>

lemma frames_restored [simp]: "store_user (from_user f) f = f" "store_trap (from_trap g) g = g"
  by (simp_all add: store_user_def from_user_def store_trap_def from_trap_def)

lemma syscall_exit_quiet: "deliverable p = 0 \<Longrightarrow> syscall_exit p f = Some (Some (Inl f), p)"
  by (simp add: syscall_exit_def deliver_user_signals.simps)

text \<open>An interruptible wait ends exactly when the boundary would act on a signal.\<close>

lemma wait_ends_iff_deliverable:
  assumes "sig_wf p"
  shows "deliverable_signal_pending (sp_cur p) \<longleftrightarrow> deliverable p \<noteq> 0"
proof -
  have "bit (tk_blocked (sp_cur p)) i \<Longrightarrow> i \<noteq> 8" for i using assms by (auto simp: sig_wf_def task_ok_def)
  then have "tk_blocked (sp_cur p) AND NOT (sig_bit SIGKILL) = tk_blocked (sp_cur p)"
    by (auto simp: bit_eq_iff bit_and_iff bit_not_iff)
  then show ?thesis by (simp add: deliverable_signal_pending_def deliverable_def)
qed

end
