(* ===== verification/Spec2Isabelle.thy ===== *)
theory Spec2Isabelle
  imports Prelude Codec Buddy Kernel_Firewall Errno Seccomp Cgroup Glob Arith Crc32 Perm Vfs_Path Tmpfs Tmpfs_Tree Vfs_Ops Vfs_Tmpfs Pipe_System Open_File Fd_Table User_Memory Signal_Delivery
begin

text \<open>
  A verification development for FastROS, a container-native operating system kernel in Rust
  (\<^verbatim>\<open>kernel/\<close> and the libraries under \<^verbatim>\<open>lib/\<close>).

  \<^bold>\<open>The program.\<close> The kernel runs containers: groups of processes that share a root directory, resource limits, a capability
  set and system call filters. A system call first passes the seccomp filters of the process, then reaches one of the
  services: file calls go through the descriptor table to open files, or through \<^verbatim>\<open>fs::ops\<close> to path resolution, permission checks
  and the inode operations of the file system the path ends in; pipes connect processes; network frames pass the packet
  filter before the stack sees them; memory comes from the buddy allocator and is charged to the control group of the
  container. The shell, which is part of the kernel image, expands patterns and arithmetic with its own library. On its way
  back to user mode every task acts on the signals sent to it.

  \<^bold>\<open>Common conventions.\<close> A Rust struct is a record (its fields prefixed), an enum a datatype, a fixed-width integer a word where
  its width matters and a natural number where an invariant keeps it away from the width. \<^verbatim>\<open>KResult<T>\<close> is a sum with the
  error on the left. The release profile compiles arithmetic with overflow checks, so an overflow is a trap: it is the result
  \<open>None\<close> where it can occur. Strings are the lists of their bytes. A \<^verbatim>\<open>BTreeMap\<close> is a list sorted by key
  (\<open>Ordered_Map\<close>, with the contract of a map as locale \<open>ordered_map\<close>). Globals behind a lock are passed as state. The kernel is
  not preempted, so the code of a thread between two points where it may sleep is one atomic step.

  \<^bold>\<open>Theories.\<close>
  \<^item> \<open>Prelude\<close>: machine types, the parts of the Rust library the code calls, shared lemmas.
  \<^item> \<open>Codec\<close> (\<^verbatim>\<open>lib/codec\<close>): base64 and hex. The alphabets share the locale \<open>base64_alphabet\<close>. Encoding then decoding is the
    identity.
  \<^item> \<open>Buddy\<close> (\<^verbatim>\<open>lib/alloc/src/buddy.rs\<close>): the frame allocator with its state bytes and the intrusive lists inside the free
    frames. In every reachable state the frames are partitioned into blocks, allocated blocks never overlap; the exact effect
    of \<open>alloc\<close>, \<open>buddy_free\<close> (double and wild frees refused) and \<open>reserve_range\<close>; freeing undoes allocating. All loops are
    functions with termination proofs.
  \<^item> \<open>Packet\<close>, \<open>Netfilter\<close> (\<^verbatim>\<open>lib/netfilter\<close>) and \<open>Kernel_Firewall\<close> (\<^verbatim>\<open>kernel/src/firewall.rs\<close>): frame parser, text forms, rules,
    token buckets, connection tracking, bans, port scan detection, and the hook with the login-failure bans. The parser
    accepts every byte string without an access out of bounds; what an accepted inbound packet must have been; bans hold across
    traffic; replies get in; rates and table sizes are bounded.
  \<^item> \<open>Errno\<close> (\<^verbatim>\<open>kernel/src/errno.rs\<close>): error numbers.
  \<^item> \<open>Seccomp\<close> (\<^verbatim>\<open>kernel/src/syscall/seccomp.rs\<close>, and the callers in \<^verbatim>\<open>proc_sys.rs\<close>): the filter machine against a reference
    semantics of its programs, the verdict over stacked filters, and that no sequence of calls gains privileges. The loop runs on
    the step budget of the source, 4096, which is shown never to cut a program short.
  \<^item> \<open>Cgroup\<close> (\<^verbatim>\<open>kernel/src/cgroup.rs\<close>): limits under interleaved charges.
  \<^item> \<open>Glob\<close>, \<open>Arith\<close> (\<^verbatim>\<open>lib/sh/src/pattern.rs\<close>, \<^verbatim>\<open>arith.rs\<close>): pattern matching against its declarative meaning, pathname
    expansion, and \<^verbatim>\<open>$(( ))\<close> against the value of expression trees. The matcher is a partial function proved to return; the
    evaluator takes fuel, twice the number of tokens plus two, proved enough because every two calls consume a token.
  \<^item> \<open>Crc32\<close> (\<^verbatim>\<open>lib/archive/src/crc32.rs\<close>): the table-driven checksum equals the bit-serial one.
  \<^item> \<open>Perm\<close> (\<^verbatim>\<open>kernel/src/fs/mod.rs\<close>, \<^verbatim>\<open>perm.rs\<close>): file types, metadata, permission checks.
  \<^item> \<open>Vfs_Path\<close> (\<^verbatim>\<open>kernel/src/fs/path.rs\<close>, \<^verbatim>\<open>mount.rs\<close>): path resolution and mount tables over any file system, the trait
    \<^verbatim>\<open>Inode\<close> being a record of functions. A resolved path stays under the root of the process; resolution returns; printed
    paths resolve back. \<open>walk\<close> recurses on the symbolic links left (the 40 of the source) and the components of the path;
    crossing stacked mounts takes one round more than there are mounts, enough because the ids of the mounts crossed increase.
  \<^item> \<open>Tmpfs\<close>, \<open>Tmpfs_Tree\<close> (\<^verbatim>\<open>kernel/src/fs/tmpfs.rs\<close>): the in-memory file system. Sparse pages implement a byte sequence
    (locale \<open>byte_file\<close>); link counts, tree shape and space counters over any sequence of calls.
  \<^item> \<open>Vfs_Ops\<close> (\<^verbatim>\<open>kernel/src/fs/ops.rs\<close>): every file operation over any file system; a change implies that the caller was
    granted it on the object the path resolves to.
  \<^item> \<open>Vfs_Tmpfs\<close>: both composed. What the operations need of a file system is the locale \<open>vfs_store\<close>, interpreted on tmpfs;
    any sequence of calls of any processes keeps it sound, and \<open>remove_tree\<close> returns within a recursion depth of the path
    limit plus two (4098), enough because each level makes the path longer.
  \<^item> \<open>File_Flags\<close>, \<open>Open_File\<close> (\<^verbatim>\<open>kernel/src/fs/file.rs\<close>): flag words, open files with their offset, and whole-file reads and
    writes. What an open file needs of its inode is the locale \<open>regular_file\<close>, interpreted on tmpfs. \<open>read_to_end\<close> takes fuel:
    one round more than the file has blocks of 8192 bytes is enough.
  \<^item> \<open>Fd_Table\<close> (\<^verbatim>\<open>kernel/src/proc/fdtable.rs\<close>): descriptor tables as partial maps (locale \<open>descriptor_table\<close>).
  \<^item> \<open>Pipe\<close>, \<open>Pipe_System\<close> (\<^verbatim>\<open>kernel/src/fs/pipe.rs\<close>): pipes, fifos and stream pairs; threads on a pipe under any schedule. A
    pipe is a queue, no wake-up is lost, \<open>poll\<close> tells the truth, and transfers complete.
  \<^item> \<open>User_Memory\<close> (\<^verbatim>\<open>kernel/src/uaccess.rs\<close>, the copy loops of \<^verbatim>\<open>mm/aspace.rs\<close>): copies across the boundary to user mode; a
    copy stays inside mappings that allow it and moves a prefix of the bytes, all of them on success.
  \<^item> \<open>Signal\<close>, \<open>Signal_Delivery\<close> (\<^verbatim>\<open>kernel/src/proc/signal.rs\<close>, the signal parts of \<^verbatim>\<open>sched/mod.rs\<close>, \<^verbatim>\<open>proc/mod.rs\<close> and
    \<^verbatim>\<open>syscall/proc_sys.rs\<close>): masks, posting, delivery, the frame on the user stack and the signal calls. A handler leaves no trace
    in the interrupted program; a kill is never lost. The delivery loop ends because every round takes a pending signal off.

  \<^bold>\<open>Not modelled.\<close> Boot, processor, interrupt and driver code, page tables and the scheduler: their meaning is that of the hardware.
  The network stack, TLS, SSH and password hashing rest on external crates. The other file systems are implementations of the trait the
  results on paths and file operations quantify over. The shell language, the commands, the container engine and the archive
  formats are not modelled. In the modelled parts these are left out: log messages, capacity hints, the wake-up of pollers by
  other subsystems, the shared page set of a mapping in tmpfs, two mappings of one page of user memory, the names of signals and
  the thread lookup of \<^verbatim>\<open>tkill\<close>, the waiting inside \<^verbatim>\<open>pause\<close> and \<^verbatim>\<open>sleep_ns\<close>, and the points inside \<^verbatim>\<open>remove_tree\<close> where the kernel lets
  other threads run.
\<close>

end
